(* ===== verification/Prelude.thy ===== *)
theory Prelude
  imports Main "HOL-Library.Word" "HOL-Library.AList"
begin

text \<open>
  Shared by every theory of the development: Go's results (a value, an error, a panic), the
  state-passing computations over them, the loops of the code as recursion, and the layout of
  machine integers as bytes (package \<open>encoding/binary\<close>).
\<close>

unbundle bit_operations_syntax

named_theorems monad_defs \<open>the computation combinators, to unfold them\<close>
named_theorems byte_simps \<open>lengths and inverses of the byte layouts\<close>

type_synonym byte = "8 word"
type_synonym bytes = "byte list"
type_synonym u16 = "16 word"
type_synonym u32 = "32 word"
type_synonym u64 = "64 word"

section \<open>Results\<close>

text \<open>
  An error value is its message (without the formatted arguments), possibly wrapped around the
  error it reports; \<open>IoEOF\<close> and \<open>IoUnexpectedEOF\<close> are the two values of package \<open>io\<close>.
  A run-time panic is a result of its own, because \<open>if err != nil\<close> does not see it: it
  unwinds to the \<open>recover\<close> of \<open>Decoder.Parse\<close>. \<open>OutOfFuel\<close> is no behaviour of the
  program: it marks a loop that a fuel-bounded definition cut short, and the theorems about those
  loops show that it does not occur.
\<close>

datatype panic_cause = IndexRange | SliceRange | MakeRange | TypeAssertion | PanicValue string
  | OutOfFuel

datatype go_error = IoEOF | IoUnexpectedEOF | ErrMsg string | ErrWrap string go_error
  | ErrRecovered panic_cause

datatype 'a result = Ok 'a | Err go_error | Panic panic_cause

type_synonym ('s, 'a) comp = "'s \<Rightarrow> 'a result \<times> 's"

definition ret :: "'a \<Rightarrow> ('s, 'a) comp" where
  "ret a s = (Ok a, s)"

definition throw :: "go_error \<Rightarrow> ('s, 'a) comp" where
  "throw e s = (Err e, s)"

definition panic :: "panic_cause \<Rightarrow> ('s, 'a) comp" where
  "panic p s = (Panic p, s)"

definition bind :: "('s, 'a) comp \<Rightarrow> ('a \<Rightarrow> ('s, 'b) comp) \<Rightarrow> ('s, 'b) comp" where
  "bind m f s = (case m s of
     (Ok a, s') \<Rightarrow> f a s'
   | (Err e, s') \<Rightarrow> (Err e, s')
   | (Panic p, s') \<Rightarrow> (Panic p, s'))"

definition seq :: "('s, 'a) comp \<Rightarrow> ('s, 'b) comp \<Rightarrow> ('s, 'b) comp" where
  "seq m n = bind m (\<lambda>_. n)"

text \<open>\<open>if err != nil { return ..., fmt.Errorf("<msg>: %v", err) }\<close>\<close>

definition wrap_err :: "string \<Rightarrow> ('s, 'a) comp \<Rightarrow> ('s, 'a) comp" where
  "wrap_err msg m s = (case m s of
     (Err e, s') \<Rightarrow> (Err (ErrWrap msg e), s')
   | r \<Rightarrow> r)"

text \<open>\<open>x, _ := m\<close>: the error is dropped and the zero value stands for the result.\<close>

definition ignore_err :: "'a \<Rightarrow> ('s, 'a) comp \<Rightarrow> ('s, 'a) comp" where
  "ignore_err zero m s = (case m s of
     (Err e, s') \<Rightarrow> (Ok zero, s')
   | r \<Rightarrow> r)"

definition of_result :: "'a result \<Rightarrow> ('s, 'a) comp" where
  "of_result r s = (r, s)"

definition gets :: "('s \<Rightarrow> 'a) \<Rightarrow> ('s, 'a) comp" where
  "gets f s = (Ok (f s), s)"

definition modify :: "('s \<Rightarrow> 's) \<Rightarrow> ('s, unit) comp" where
  "modify f s = (Ok (), f s)"

definition guard :: "bool \<Rightarrow> go_error \<Rightarrow> ('s, unit) comp" where
  "guard b e = (if b then ret () else throw e)"

lemmas comp_defs [monad_defs] =
  ret_def throw_def panic_def bind_def seq_def wrap_err_def ignore_err_def of_result_def
  gets_def modify_def guard_def

lemma bind_Ok: "m s = (Ok a, s') \<Longrightarrow> bind m f s = f a s'"
  by (simp add: bind_def)

lemma bind_Err: "m s = (Err e, s') \<Longrightarrow> bind m f s = (Err e, s')"
  by (simp add: bind_def)

lemma bind_Panic: "m s = (Panic p, s') \<Longrightarrow> bind m f s = (Panic p, s')"
  by (simp add: bind_def)

lemma seq_Ok: "m s = (Ok a, s') \<Longrightarrow> seq m n s = n s'"
  by (simp add: seq_def bind_def)

lemma bind_ret [simp]: "bind (ret a) f = f a"
  by (rule ext) (simp add: bind_def ret_def)

lemma bind_assoc: "bind (bind m f) g = bind m (\<lambda>x. bind (f x) g)"
  by (rule ext) (auto simp: bind_def split: result.splits prod.splits)

lemma seq_ret_unit: "seq m (ret ()) = m"
  for m :: "('s, unit) comp"
  by (rule ext) (auto simp: seq_def bind_def ret_def split: result.splits prod.splits)

lemma bind_OkE:
  assumes "bind m f s = (Ok b, s'')"
  obtains a s' where "m s = (Ok a, s')" and "f a s' = (Ok b, s'')"
  using assms by (auto simp: bind_def split: result.splits prod.splits)

lemma seq_OkE:
  assumes "seq m n s = (Ok b, s'')"
  obtains a s' where "m s = (Ok a, s')" and "n s' = (Ok b, s'')"
  using assms by (auto simp: seq_def elim: bind_OkE)

section \<open>Loops\<close>

text \<open>
  \<open>for i := 0; i < n; i++ { x, err := m; ...; xs = append(xs, x) }\<close>,
  \<open>for i := 0; i < n; i++ { acc = f(acc) }\<close> and \<open>for _, x := range xs { err = f(x); ... }\<close>.
\<close>

primrec repeat_comp :: "nat \<Rightarrow> ('s, 'a) comp \<Rightarrow> ('s, 'a list) comp" where
  "repeat_comp 0 m = ret []"
| "repeat_comp (Suc n) m = bind m (\<lambda>x. bind (repeat_comp n m) (\<lambda>xs. ret (x # xs)))"

primrec iter_comp :: "nat \<Rightarrow> ('a \<Rightarrow> ('s, 'a) comp) \<Rightarrow> 'a \<Rightarrow> ('s, 'a) comp" where
  "iter_comp 0 f acc = ret acc"
| "iter_comp (Suc n) f acc = bind (f acc) (iter_comp n f)"

primrec for_each :: "'a list \<Rightarrow> ('a \<Rightarrow> ('s, unit) comp) \<Rightarrow> ('s, unit) comp" where
  "for_each [] f = ret ()"
| "for_each (x # xs) f = seq (f x) (for_each xs f)"

lemma for_each_append: "for_each (xs @ ys) f = seq (for_each xs f) (for_each ys f)"
proof
  fix s
  show "for_each (xs @ ys) f s = seq (for_each xs f) (for_each ys f) s"
    by (induction xs arbitrary: s) (auto simp: seq_def bind_def ret_def split: result.splits prod.splits)
qed

section \<open>Computations that cannot panic\<close>

definition never_panics :: "('s, 'a) comp \<Rightarrow> bool" where
  "never_panics m \<longleftrightarrow> (\<forall>s p. fst (m s) \<noteq> Panic p)"

named_theorems panic_intros \<open>computations that cannot panic\<close>

lemma never_panicsD: "never_panics m \<Longrightarrow> m s \<noteq> (Panic p, s')"
  unfolding never_panics_def by (metis fst_conv)

lemma never_panics_basic [panic_intros]:
  "never_panics (ret a)" "never_panics (throw e)" "never_panics (gets f)" "never_panics (modify g)"
  "never_panics (guard b e)"
  by (simp_all add: never_panics_def monad_defs)

lemma never_panics_bind [panic_intros]:
  "never_panics m \<Longrightarrow> (\<And>a. never_panics (f a)) \<Longrightarrow> never_panics (bind m f)"
  by (auto simp: never_panics_def bind_def split: result.splits prod.splits) (metis fst_conv)+

lemma never_panics_seq [panic_intros]: "never_panics m \<Longrightarrow> never_panics n \<Longrightarrow> never_panics (seq m n)"
  unfolding seq_def by (rule never_panics_bind)

lemma never_panics_wrap_err [panic_intros]: "never_panics m \<Longrightarrow> never_panics (wrap_err msg m)"
  by (auto simp: never_panics_def wrap_err_def split: result.splits prod.splits) (metis fst_conv)+

lemma never_panics_if [panic_intros]:
  "never_panics m \<Longrightarrow> never_panics n \<Longrightarrow> never_panics (if b then m else n)"
  by simp

lemma never_panics_Let [panic_intros]: "(\<And>x. never_panics (f x)) \<Longrightarrow> never_panics (let x = a in f x)"
  by simp

lemma never_panics_case_prod [panic_intros]:
  "(\<And>a b. never_panics (f a b)) \<Longrightarrow> never_panics (case x of (a, b) \<Rightarrow> f a b)"
  by (cases x) simp

lemma never_panics_repeat [panic_intros]: "never_panics m \<Longrightarrow> never_panics (repeat_comp n m)"
  by (induction n) (auto intro: panic_intros)

section \<open>Allocation\<close>

text \<open>
  \<open>make([]T, 0, n)\<close> and \<open>make([]T, n)\<close> panic when \<open>n\<close> is negative or the block is larger than
  the address space the runtime manages, \<open>1 << 48\<close> bytes on 64-bit platforms.
\<close>

definition max_alloc :: int where
  "max_alloc = 281474976710656"

definition make_check :: "int \<Rightarrow> int \<Rightarrow> ('s, unit) comp" where
  "make_check elem_size n =
     (if n < 0 \<or> max_alloc < elem_size * n then panic MakeRange else ret ())"

section \<open>Bytes of machine integers\<close>

definition le_bytes :: "nat \<Rightarrow> 'a::len word \<Rightarrow> bytes" where
  "le_bytes n x = map (\<lambda>i. ucast (drop_bit (8 * i) x)) [0..<n]"

fun le_word :: "bytes \<Rightarrow> 'a::len word" where
  "le_word [] = 0"
| "le_word (b # bs) = ucast b OR push_bit 8 (le_word bs)"

definition be_bytes :: "nat \<Rightarrow> 'a::len word \<Rightarrow> bytes" where
  "be_bytes n x = rev (le_bytes n x)"

definition be_word :: "bytes \<Rightarrow> 'a::len word" where
  "be_word bs = le_word (rev bs)"

lemma length_le_bytes [simp, byte_simps]: "length (le_bytes n x) = n"
  by (simp add: le_bytes_def)

lemma length_be_bytes [simp, byte_simps]: "length (be_bytes n x) = n"
  by (simp add: be_bytes_def)

lemma bit_le_word:
  "bit (le_word bs :: 'a::len word) k
     \<longleftrightarrow> k < LENGTH('a) \<and> k div 8 < length bs \<and> bit (bs ! (k div 8)) (k mod 8)"
proof (induction bs arbitrary: k)
  case Nil
  then show ?case by simp
next
  case (Cons b bs)
  show ?case
  proof (cases "k < 8")
    case True
    then show ?thesis by (auto simp: bit_simps)
  next
    case False
    then obtain j where j: "k = j + 8" by (metis le_add_diff_inverse2 linorder_not_less)
    then have "k div 8 = Suc (j div 8)" "k mod 8 = j mod 8" by simp_all
    with j Cons.IH [of j] show ?thesis
      by (auto simp: bit_simps dest: bit_imp_le_length)
  qed
qed

lemma nth_le_bytes: "i < n \<Longrightarrow> le_bytes n x ! i = ucast (drop_bit (8 * i) x)"
  by (simp add: le_bytes_def)

lemma le_word_le_bytes [byte_simps]:
  assumes "LENGTH('a) \<le> 8 * n"
  shows "le_word (le_bytes n (x :: 'a::len word)) = x"
proof (rule bit_word_eqI)
  fix k assume k: "k < LENGTH('a)"
  with assms have "k div 8 < n" by simp
  with k show "bit (le_word (le_bytes n x) :: 'a word) k = bit x k"
    by (simp add: bit_le_word nth_le_bytes bit_simps)
qed

lemma be_word_be_bytes [byte_simps]:
  "LENGTH('a) \<le> 8 * n \<Longrightarrow> be_word (be_bytes n (x :: 'a::len word)) = x"
  by (simp add: be_word_def be_bytes_def le_word_le_bytes)

lemma unat_of_nat_small: "n < 2 ^ LENGTH('a) \<Longrightarrow> unat (of_nat n :: 'a::len word) = n"
  by (simp add: unat_of_nat take_bit_nat_eq_self)

lemma unat_of_nat_byte: "n < 256 \<Longrightarrow> unat (of_nat n :: byte) = n"
  by (rule unat_of_nat_small) simp

lemma bit_of_nat_word: "bit (of_nat n :: 'a::len word) k \<longleftrightarrow> k < LENGTH('a) \<and> bit n k"
proof -
  have "bit (of_nat n :: 'a word) k \<longleftrightarrow> bit (unat (of_nat n :: 'a word)) k"
    by (subst bit_unsigned_iff) simp
  then show ?thesis by (simp only: unsigned_of_nat bit_take_bit_iff of_nat_id)
qed

text \<open>The characters of a Go string literal as bytes.\<close>

definition ascii :: "string \<Rightarrow> bytes" where
  "ascii s = map of_char s"

lemma length_ascii [simp, byte_simps]: "length (ascii s) = length s"
  by (simp add: ascii_def)

lemma of_char_byte: "(of_char c :: byte) = of_char d \<longleftrightarrow> c = d"
proof -
  have u: "unat (of_char c :: byte) = of_char c" for c
  proof -
    have "(of_char c :: nat) mod 256 = of_char c" by simp
    then show ?thesis unfolding of_nat_of_char [symmetric, where 'a = byte] unat_of_nat by simp
  qed
  show ?thesis
  proof
    assume "(of_char c :: byte) = of_char d"
    then have "unat (of_char c :: byte) = unat (of_char d :: byte)" by simp
    then show "c = d" by (simp only: u of_char_eq_iff)
  qed simp
qed

lemma ascii_inj: "ascii s = ascii t \<longleftrightarrow> s = t"
  unfolding ascii_def by (induction s t rule: list_induct2') (simp_all add: of_char_byte)

text \<open>The sequence of two pure computations that may fail.\<close>

definition rbind :: "'a result \<Rightarrow> ('a \<Rightarrow> 'b result) \<Rightarrow> 'b result" where
  "rbind r f = (case r of Ok a \<Rightarrow> f a | Err e \<Rightarrow> Err e | Panic p \<Rightarrow> Panic p)"

lemma rbind_Ok [simp]: "rbind (Ok a) f = f a"
  by (simp add: rbind_def)

lemma rbind_Err [simp]: "rbind (Err e) f = Err e"
  by (simp add: rbind_def)

lemma rbind_Panic [simp]: "rbind (Panic p) f = Panic p"
  by (simp add: rbind_def)

lemma rbind_OkE:
  assumes "rbind r f = Ok b"
  obtains a where "r = Ok a" and "f a = Ok b"
  using assms by (auto simp: rbind_def split: result.splits)

text \<open>Texts up to the first occurrence of a separator.\<close>

lemma split_at_sep:
  assumes "c \<notin> set a" and "c \<notin> set b"
  shows "a @ c # p = b @ c # q \<longleftrightarrow> a = b \<and> p = q"
  using assms
proof (induction a arbitrary: b)
  case Nil
  then show ?case by (cases b) auto
next
  case (Cons x a)
  then show ?case by (cases b) auto
qed

end
