(* ===== verification/Strconv.thy ===== *)
theory Strconv
  imports Prelude
begin

text \<open>
  What the source uses of package \<open>strconv\<close> on integers: \<open>Itoa\<close> / \<open>FormatInt(_, 10)\<close> and
  \<open>ParseInt(_, 10, bits)\<close>, on byte strings, with their inverse laws. The two helpers
  \<open>isEncodableUint32\<close> (\<open>core/string.go\<close>) and \<open>isEncodableUint64\<close> (\<open>core/ziplist.go\<close>), which
  decide whether a string may be stored as an integer, are here because both encoders use them.
\<close>

section \<open>Digits\<close>

definition digit_byte :: "nat \<Rightarrow> byte" where
  "digit_byte d = of_nat (48 + d)"

definition is_digit_byte :: "byte \<Rightarrow> bool" where
  "is_digit_byte b \<longleftrightarrow> 48 \<le> b \<and> b \<le> 57"

definition digit_val :: "byte \<Rightarrow> nat" where
  "digit_val b = unat b - 48"

fun nat_digits :: "nat \<Rightarrow> bytes" where
  "nat_digits n = (if n < 10 then [digit_byte n]
     else nat_digits (n div 10) @ [digit_byte (n mod 10)])"

declare nat_digits.simps [simp del]

definition digits_val :: "bytes \<Rightarrow> nat" where
  "digits_val = foldl (\<lambda>n b. n * 10 + digit_val b) 0"

lemma unat_digit_byte [simp]: "d < 10 \<Longrightarrow> unat (digit_byte d) = 48 + d"
  by (simp add: digit_byte_def unat_of_nat del: of_nat_add)

lemma digit_val_byte [simp]: "d < 10 \<Longrightarrow> digit_val (digit_byte d) = d"
  by (simp add: digit_val_def)

lemma is_digit_byte_unat: "is_digit_byte b \<longleftrightarrow> 48 \<le> unat b \<and> unat b \<le> 57"
  by (simp add: is_digit_byte_def word_le_nat_alt)

lemma is_digit_digit_byte [simp]: "d < 10 \<Longrightarrow> is_digit_byte (digit_byte d)"
  by (simp add: is_digit_byte_unat)

lemma digit_byte_val [simp]: "is_digit_byte b \<Longrightarrow> digit_byte (digit_val b) = b"
  by (simp add: is_digit_byte_unat digit_byte_def digit_val_def del: of_nat_add)

lemma digit_val_less [simp]: "is_digit_byte b \<Longrightarrow> digit_val b < 10"
  unfolding is_digit_byte_unat digit_val_def by linarith

lemma digits_val_Nil [simp]: "digits_val [] = 0"
  by (simp add: digits_val_def)

lemma digits_val_snoc [simp]: "digits_val (s @ [b]) = digits_val s * 10 + digit_val b"
  by (simp add: digits_val_def)

lemma digits_val_single [simp]: "digits_val [b] = digit_val b"
  by (simp add: digits_val_def)

lemma nat_digits_ne [simp]: "nat_digits n \<noteq> []"
  by (subst nat_digits.simps) simp

lemma nat_digits_digits: "b \<in> set (nat_digits n) \<Longrightarrow> is_digit_byte b"
proof (induction n rule: nat_digits.induct)
  case (1 n)
  then show ?case by (subst (asm) (2) nat_digits.simps) (auto split: if_splits)
qed

lemma digits_val_nat_digits [simp]: "digits_val (nat_digits n) = n"
proof (induction n rule: nat_digits.induct)
  case (1 n)
  then show ?case by (subst nat_digits.simps) auto
qed

text \<open>A decimal numeral without a leading zero is what \<open>Itoa\<close> prints of its value.\<close>

definition canonical :: "bytes \<Rightarrow> bool" where
  "canonical s \<longleftrightarrow> s \<noteq> [] \<and> (hd s = 48 \<longrightarrow> length s = 1) \<and> (\<forall>b \<in> set s. is_digit_byte b)"

lemma unat_numeral_byte_48: "unat (48 :: byte) = 48"
  by simp

lemma digits_val_pos:
  "s \<noteq> [] \<Longrightarrow> hd s \<noteq> 48 \<Longrightarrow> \<forall>b \<in> set s. is_digit_byte b \<Longrightarrow> 0 < digits_val s"
proof (induction s rule: rev_induct)
  case Nil
  then show ?case by simp
next
  case (snoc b s)
  show ?case
  proof (cases "s = []")
    case True
    with snoc.prems have "b \<noteq> 48" by simp
    then have "unat b \<noteq> 48" by (metis unat_numeral_byte_48 word_unat_eq_iff)
    with True snoc.prems show ?thesis by (simp add: is_digit_byte_unat digit_val_def)
  next
    case False
    with snoc show ?thesis by simp
  qed
qed

lemma nat_digits_digits_val: "canonical s \<Longrightarrow> nat_digits (digits_val s) = s"
proof (induction s rule: rev_induct)
  case Nil
  then show ?case by (simp add: canonical_def)
next
  case (snoc b s)
  then have b: "is_digit_byte b" by (simp add: canonical_def)
  show ?case
  proof (cases "s = []")
    case True
    with b show ?thesis by (subst nat_digits.simps) simp
  next
    case False
    with snoc.prems have s: "canonical s" "hd s \<noteq> 48" by (auto simp: canonical_def)
    then have "0 < digits_val s" by (auto intro: digits_val_pos simp: canonical_def)
    with b snoc.IH [OF s(1)] show ?thesis by (subst nat_digits.simps) simp
  qed
qed

section \<open>\<open>Itoa\<close> and \<open>ParseInt\<close>\<close>

definition itoa :: "int \<Rightarrow> bytes" where
  "itoa n = (if n < 0 then 45 # nat_digits (nat (- n)) else nat_digits (nat n))"

definition parse_digits :: "bytes \<Rightarrow> nat option" where
  "parse_digits s = (if s \<noteq> [] \<and> list_all is_digit_byte s then Some (digits_val s) else None)"

text \<open>\<open>None\<close> stands for \<open>ErrSyntax\<close> and \<open>ErrRange\<close>: no caller tells them apart.\<close>

definition parse_int :: "nat \<Rightarrow> bytes \<Rightarrow> int option" where
  "parse_int bits s = (case s of
     [] \<Rightarrow> None
   | c # cs \<Rightarrow>
       (case parse_digits (if c = 43 \<or> c = 45 then cs else s) of
          None \<Rightarrow> None
        | Some un \<Rightarrow>
            if c \<noteq> 45 \<and> 2 ^ (bits - 1) \<le> un then None
            else if c = 45 \<and> 2 ^ (bits - 1) < un then None
            else Some (if c = 45 then - int un else int un)))"

lemma parse_digits_nat_digits [simp]: "parse_digits (nat_digits n) = Some n"
  by (auto simp: parse_digits_def list_all_iff dest: nat_digits_digits)

lemma hd_nat_digits_digit: "is_digit_byte (hd (nat_digits n))"
  by (rule nat_digits_digits [of _ n]) simp

lemma parse_int_itoa:
  assumes "- (2 ^ (bits - 1)) \<le> n" and "n < 2 ^ (bits - 1)"
  shows "parse_int bits (itoa n) = Some n"
proof (cases "n < 0")
  case True
  with assms have "nat (- n) \<le> 2 ^ (bits - 1)" by (simp add: nat_le_iff)
  with True show ?thesis by (simp add: itoa_def parse_int_def)
next
  case False
  obtain c cs where c: "nat_digits (nat n) = c # cs" by (cases "nat_digits (nat n)") auto
  with hd_nat_digits_digit [of "nat n"] have "is_digit_byte c" by simp
  then have "c \<noteq> 43" "c \<noteq> 45" by (auto simp: is_digit_byte_unat)
  moreover from False assms have "nat n < 2 ^ (bits - 1)" by (simp add: nat_less_iff)
  ultimately show ?thesis using False parse_digits_nat_digits [of "nat n"]
    by (simp add: itoa_def parse_int_def c)
qed

lemma nat_digits_inj: "nat_digits m = nat_digits n \<longleftrightarrow> m = n"
  by (metis digits_val_nat_digits)

lemma nat_digits_no_sign: "nat_digits n \<noteq> 45 # s"
  using hd_nat_digits_digit [of n] by (auto simp: is_digit_byte_unat)

lemma itoa_inj: "itoa m = itoa n \<longleftrightarrow> m = n"
  using nat_digits_no_sign [of "nat m"] nat_digits_no_sign [of "nat n"]
  by (auto simp: itoa_def nat_digits_inj eq_commute [of "45 # _"])

section \<open>Strings that are stored as integers\<close>

text \<open>
  The source ranges over the runes of the string and asks \<open>unicode.IsDigit\<close> of each. A byte
  outside ASCII makes the answer \<open>false\<close> whatever its rune is, because \<open>ParseInt\<close> takes ASCII
  digits only; so the test is the same on bytes.
\<close>

definition is_encodable_uint :: "nat \<Rightarrow> bytes \<Rightarrow> int option" where
  "is_encodable_uint bits s =
     (if s = [] then None
      else if hd s = 48 \<and> 1 < length s then None
      else if \<not> list_all is_digit_byte s then None
      else parse_int bits s)"

definition isEncodableUint32 :: "bytes \<Rightarrow> int option" where
  "isEncodableUint32 s = is_encodable_uint 32 s"

definition isEncodableUint64 :: "bytes \<Rightarrow> int option" where
  "isEncodableUint64 s = is_encodable_uint 64 s"

lemma is_encodable_uint_canonical:
  "is_encodable_uint bits s = Some v \<Longrightarrow> canonical s"
  by (cases s) (auto simp: is_encodable_uint_def canonical_def list_all_iff split: if_splits)

lemma is_encodable_uint_val:
  assumes "is_encodable_uint bits s = Some v"
  shows "v = int (digits_val s)" and "digits_val s < 2 ^ (bits - 1)"
proof -
  obtain c cs where s: "s = c # cs" using assms by (cases s) (auto simp: is_encodable_uint_def)
  have "is_digit_byte c" using is_encodable_uint_canonical [OF assms] s by (simp add: canonical_def)
  then have "c \<noteq> 43" "c \<noteq> 45" by (auto simp: is_digit_byte_unat)
  with assms s show "v = int (digits_val s)" "digits_val s < 2 ^ (bits - 1)"
    by (auto simp: is_encodable_uint_def parse_int_def parse_digits_def split: if_splits)
qed

text \<open>An integer-encoded string is printed back as itself.\<close>

lemma itoa_is_encodable:
  assumes "is_encodable_uint bits s = Some v"
  shows "itoa v = s"
  using is_encodable_uint_val(1) [OF assms] nat_digits_digits_val [OF is_encodable_uint_canonical [OF assms]]
  by (simp add: itoa_def)

lemma is_encodable_range:
  assumes "is_encodable_uint bits s = Some v"
  shows "0 \<le> v" and "v < 2 ^ (bits - 1)"
  using is_encodable_uint_val [OF assms] by simp_all

end
