(* ===== verification/Lzf.thy ===== *)
theory Lzf
  imports Prelude
begin

text \<open>
  Package \<open>lzf\<close> (\<open>lzf/lzf.go\<close>): \<open>Decompress\<close> and \<open>Compress\<close>. The output of \<open>Decompress\<close> is
  modelled as the list of the bytes produced so far (\<open>output[:outputIndex]\<close>), the output of
  \<open>Compress\<close> as the fixed-size array it is, because the code goes back to patch the header of a
  literal run. The hash table is a function of the slot: \<open>hslot\<close> is masked to its size. The
  inductive relation \<open>lzf_tokens\<close> is the format: the main lemmas say that \<open>Compress\<close> produces it
  and that \<open>Decompress\<close> reads it.
\<close>

section \<open>Decompress\<close>

definition errInsufficientBuffer :: go_error where
  "errInsufficientBuffer = ErrMsg ''insufficient buffer''"

definition errDataCorruption :: go_error where
  "errDataCorruption = ErrMsg ''data corruption''"

text \<open>\<open>output[outputIndex+i] = output[ref+i]\<close> for \<open>i < n\<close>: the ranges may overlap.\<close>

primrec copy_ref :: "nat \<Rightarrow> nat \<Rightarrow> bytes \<Rightarrow> bytes" where
  "copy_ref 0 ref out = out"
| "copy_ref (Suc n) ref out = copy_ref n (Suc ref) (out @ [out ! ref])"

function decompress_loop :: "bytes \<Rightarrow> nat \<Rightarrow> nat \<Rightarrow> bytes \<Rightarrow> bytes result" where
  "decompress_loop input outLen i out =
     (if i < length input then
        let ctrl = unat (input ! i) in
        if ctrl < 32 then
          let ctrl' = ctrl + 1 in
          if outLen < length out + ctrl' then Err errInsufficientBuffer
          else if length input < Suc i + ctrl' then Err errDataCorruption
          else decompress_loop input outLen (Suc i + ctrl') (out @ take ctrl' (drop (Suc i) input))
        else
          let len0 = ctrl div 32;
              ref0 = int (length out) - int (ctrl mod 32 * 256) - 1 in
          if length input \<le> Suc i then Err errDataCorruption
          else if len0 = 7 \<and> length input \<le> Suc (Suc i) then Err errDataCorruption
          else
            let len = (if len0 = 7 then len0 + unat (input ! Suc i) else len0);
                j = (if len0 = 7 then Suc (Suc i) else Suc i);
                ref = ref0 - int (unat (input ! j)) in
            if outLen < length out + len + 2 then Err errDataCorruption
            else if ref < 0 then Err errDataCorruption
            else decompress_loop input outLen (Suc j) (copy_ref (len + 2) (nat ref) out)
      else Ok out)"
  by pat_completeness auto
termination
  by (relation "measure (\<lambda>(input, outLen, i, out). length input - i)") auto

declare decompress_loop.simps [simp del]

definition Decompress :: "bytes \<Rightarrow> int \<Rightarrow> int \<Rightarrow> bytes result" where
  "Decompress input inLen outLen =
     (if inLen < 0 \<or> int (length input) < inLen then Panic SliceRange
      else if outLen < 0 \<or> max_alloc < outLen then Panic MakeRange
      else let input' = take (nat inLen) input in
        if input' = [] then Ok []
        else decompress_loop input' (nat outLen) 0 [])"

section \<open>Compress\<close>

definition maxLit :: nat where "maxLit = 32"
definition maxOff :: u32 where "maxOff = 8192"
definition maxRef :: nat where "maxRef = 264"

record lz_state =
  lz_out :: bytes
  outputIndex :: nat
  lit :: nat
  inputIndex :: nat
  hval :: u32
  htab :: "u32 \<Rightarrow> u32"

definition hslot_of :: "u32 \<Rightarrow> u32" where
  "hslot_of h = (drop_bit 10 h - h * 5) AND 16383"

text \<open>\<open>output[i] = v\<close>, for an index computed by a subtraction.\<close>

definition set_out :: "int \<Rightarrow> byte \<Rightarrow> lz_state \<Rightarrow> lz_state result" where
  "set_out i v s = (if 0 \<le> i \<and> i < int (length (lz_out s))
     then Ok (s\<lparr>lz_out := (lz_out s)[nat i := v]\<rparr>) else Panic IndexRange)"

text \<open>\<open>output[outputIndex-lit-1] = byte(lit - 1)\<close>: the header of a literal run.\<close>

definition stop_run :: "lz_state \<Rightarrow> lz_state result" where
  "stop_run s = set_out (int (outputIndex s) - int (lit s) - 1) (of_nat (lit s) - 1) s"

text \<open>The loop that extends a match: \<open>len++\<close>, then leave at \<open>maxLen\<close> or at a difference.\<close>

function match_len :: "bytes \<Rightarrow> nat \<Rightarrow> nat \<Rightarrow> nat \<Rightarrow> nat \<Rightarrow> nat" where
  "match_len input ref i maxLen len =
     (if maxLen \<le> Suc len \<or> input ! (ref + Suc len) \<noteq> input ! (i + Suc len) then Suc len
      else match_len input ref i maxLen (Suc len))"
  by pat_completeness auto
termination
  by (relation "measure (\<lambda>(input, ref, i, maxLen, len). maxLen - len)") auto

declare match_len.simps [simp del]

text \<open>The two or three bytes of a back reference (\<open>len\<close> is the number of octets minus two).\<close>

definition emit_ref :: "u32 \<Rightarrow> nat \<Rightarrow> lz_state \<Rightarrow> lz_state result" where
  "emit_ref off len s =
     rbind (if len < 7 then
              rbind (set_out (int (outputIndex s)) (ucast (drop_bit 8 off + of_nat (len * 32))) s) (\<lambda>s1.
              Ok (s1\<lparr>outputIndex := outputIndex s1 + 1\<rparr>))
            else
              rbind (set_out (int (outputIndex s)) (ucast (drop_bit 8 off + 224)) s) (\<lambda>s1.
              rbind (set_out (int (outputIndex s1) + 1) (of_nat (len - 7)) s1) (\<lambda>s2.
              Ok (s2\<lparr>outputIndex := outputIndex s2 + 2\<rparr>)))) (\<lambda>s3.
     rbind (set_out (int (outputIndex s3)) (ucast off) s3) (\<lambda>s4.
     Ok (s4\<lparr>outputIndex := outputIndex s4 + 2\<rparr>)))"

text \<open>The branch of a match at \<open>ref\<close>, up to the \<open>break\<close>: buffer tests, end of the literal run.\<close>

definition emit_match :: "bytes \<Rightarrow> nat \<Rightarrow> u32 \<Rightarrow> lz_state \<Rightarrow> lz_state result" where
  "emit_match input ref off s =
     (let maxLen = min (length input - inputIndex s - 2) maxRef in
      if length (lz_out s) \<le> outputIndex s + 3 + 1 \<and>
         int (length (lz_out s)) \<le> int (outputIndex s) - (if lit s = 0 then 1 else 0) + 3 + 1
      then Err errInsufficientBuffer
      else rbind (stop_run s) (\<lambda>s1.
        let s2 = (if lit s1 = 0 then s1\<lparr>outputIndex := outputIndex s1 - 1\<rparr> else s1);
            len = match_len input ref (inputIndex s2) maxLen 2 - 2 in
        rbind (emit_ref off len s2) (\<lambda>s3.
        Ok (s3\<lparr>lit := 0, inputIndex := inputIndex s3 + 1 + (len + 1)\<rparr>))))"

text \<open>\<open>inputIndex -= 2\<close> and the two table entries for the positions just skipped.\<close>

definition rehash :: "bytes \<Rightarrow> lz_state \<Rightarrow> lz_state" where
  "rehash input s =
     (let i = inputIndex s - 2;
          h1 = push_bit 8 (push_bit 8 (ucast (input ! i)) OR ucast (input ! (i + 1))) OR ucast (input ! (i + 2));
          h2 = push_bit 8 h1 OR ucast (input ! (i + 3)) in
      s\<lparr>hval := h2,
        htab := (htab s)(hslot_of h1 := of_nat i, hslot_of h2 := of_nat (i + 1)),
        inputIndex := i + 2\<rparr>)"

text \<open>One more literal: copy the byte and close the run when it is full.\<close>

definition emit_literal :: "bytes \<Rightarrow> lz_state \<Rightarrow> lz_state result" where
  "emit_literal input s =
     rbind (set_out (int (outputIndex s)) (input ! inputIndex s)
              (s\<lparr>lit := lit s + 1\<rparr>)) (\<lambda>s1.
       let s2 = s1\<lparr>outputIndex := outputIndex s1 + 1, inputIndex := inputIndex s1 + 1\<rparr> in
       if lit s2 = maxLit then
         rbind (stop_run s2) (\<lambda>s3. Ok (s3\<lparr>lit := 0, outputIndex := outputIndex s3 + 1\<rparr>))
       else Ok s2)"

text \<open>
  The body of the main loop; the flag is \<open>False\<close> after the \<open>break\<close>. A table entry is a position
  already visited, so the reads at \<open>ref\<close> are in range (\<open>lz_inv\<close> below).
\<close>

definition compress_step :: "bytes \<Rightarrow> lz_state \<Rightarrow> (lz_state \<times> bool) result" where
  "compress_step input s =
     (let i = inputIndex s;
          h = push_bit 8 (hval s) OR ucast (input ! (i + 2));
          ref = htab s (hslot_of h);
          r = unat ref;
          off = of_nat i - ref - 1;
          s0 = s\<lparr>hval := h, htab := (htab s)(hslot_of h := of_nat i)\<rparr> in
      if off < maxOff \<and> 0 < ref \<and> input ! r = input ! i \<and>
         input ! (r + 1) = input ! (i + 1) \<and> input ! (r + 2) = input ! (i + 2)
      then rbind (emit_match input r off s0) (\<lambda>s1.
        if length input \<le> inputIndex s1 + 2 then Ok (s1, False)
        else Ok (rehash input s1, True))
      else if length (lz_out s0) \<le> outputIndex s0 then Err errInsufficientBuffer
      else rbind (emit_literal input s0) (\<lambda>s1. Ok (s1, True)))"

lemma set_out_Ok: "set_out i v s = Ok s' \<longleftrightarrow>
    0 \<le> i \<and> i < int (length (lz_out s)) \<and> s' = s\<lparr>lz_out := (lz_out s)[nat i := v]\<rparr>"
  by (auto simp: set_out_def)

lemma stop_run_Ok: "stop_run s = Ok s' \<longleftrightarrow>
    lit s < outputIndex s \<and> outputIndex s - lit s - 1 < length (lz_out s) \<and>
    s' = s\<lparr>lz_out := (lz_out s)[outputIndex s - lit s - 1 := of_nat (lit s) - 1]\<rparr>"
  by (auto simp: stop_run_def set_out_Ok nat_diff_distrib') 

lemma match_len_gt: "len < match_len input ref i maxLen len"
proof (induction input ref i maxLen len rule: match_len.induct)
  case (1 input ref i maxLen len)
  then show ?case by (subst match_len.simps) auto
qed

lemma set_out_frame:
  "set_out i v s = Ok s' \<Longrightarrow>
   inputIndex s' = inputIndex s \<and> outputIndex s' = outputIndex s \<and> lit s' = lit s \<and>
   hval s' = hval s \<and> htab s' = htab s \<and> length (lz_out s') = length (lz_out s)"
  by (auto simp: set_out_Ok)

lemma emit_ref_frame:
  "emit_ref off len s = Ok s' \<Longrightarrow>
   inputIndex s' = inputIndex s \<and> lit s' = lit s \<and> hval s' = hval s \<and> htab s' = htab s \<and>
   length (lz_out s') = length (lz_out s)"
  unfolding emit_ref_def by (auto elim!: rbind_OkE split: if_splits dest!: set_out_frame)

lemma stop_run_frame:
  "stop_run s = Ok s' \<Longrightarrow>
   inputIndex s' = inputIndex s \<and> outputIndex s' = outputIndex s \<and> lit s' = lit s \<and>
   hval s' = hval s \<and> htab s' = htab s \<and> length (lz_out s') = length (lz_out s)"
  by (simp add: stop_run_def set_out_frame)

lemma emit_match_progress:
  "emit_match input ref off s = Ok s' \<Longrightarrow> inputIndex s + 2 \<le> inputIndex s'"
  unfolding emit_match_def Let_def
  by (auto elim!: rbind_OkE split: if_splits dest!: stop_run_frame emit_ref_frame)

lemma emit_literal_progress:
  "emit_literal input s = Ok s' \<Longrightarrow> inputIndex s' = Suc (inputIndex s)"
  unfolding emit_literal_def Let_def
  by (auto elim!: rbind_OkE split: if_splits dest!: stop_run_frame set_out_frame)

lemma compress_step_progress:
  assumes "compress_step input s = Ok (s', c)"
  shows "inputIndex s < inputIndex s'"
  using assms unfolding compress_step_def Let_def rehash_def
  by (auto elim!: rbind_OkE split: if_splits dest!: emit_match_progress emit_literal_progress)

function compress_loop :: "bytes \<Rightarrow> lz_state \<Rightarrow> lz_state result" where
  "compress_loop input s =
     (if inputIndex s + 2 < length input then
        (case compress_step input s of
           Ok (s', True) \<Rightarrow> compress_loop input s'
         | Ok (s', False) \<Rightarrow> Ok s'
         | Err e \<Rightarrow> Err e
         | Panic p \<Rightarrow> Panic p)
      else Ok s)"
  by pat_completeness auto
termination
  by (relation "measure (\<lambda>(input, s). length input - inputIndex s)")
    (auto dest!: compress_step_progress)

declare compress_loop.simps [simp del]

text \<open>The last loop, over the one or two bytes the main loop leaves.\<close>

function compress_tail :: "bytes \<Rightarrow> lz_state \<Rightarrow> lz_state result" where
  "compress_tail input s =
     (if inputIndex s < length input then
        (case emit_literal input s of
           Ok s' \<Rightarrow> compress_tail input s'
         | Err e \<Rightarrow> Err e
         | Panic p \<Rightarrow> Panic p)
      else Ok s)"
  by pat_completeness auto
termination
  by (relation "measure (\<lambda>(input, s). length input - inputIndex s)")
    (auto dest!: emit_literal_progress)

declare compress_tail.simps [simp del]

definition lz_start :: "bytes \<Rightarrow> lz_state" where
  "lz_start input = \<lparr>lz_out = replicate (length input) 0, outputIndex = 1, lit = 0, inputIndex = 0,
     hval = push_bit 8 (ucast (input ! 0)) OR ucast (input ! 1), htab = (\<lambda>_. 0)\<rparr>"

definition Compress :: "bytes \<Rightarrow> bytes result" where
  "Compress input =
     (if input = [] then Ok []
      else if length input \<le> 1 then Panic IndexRange
      else rbind (compress_loop input (lz_start input)) (\<lambda>s.
        if length (lz_out s) \<le> outputIndex s + 3 then Err errInsufficientBuffer
        else rbind (compress_tail input s) (\<lambda>s1.
        rbind (stop_run s1) (\<lambda>s2.
        let o2 = (if lit s2 = 0 then outputIndex s2 - 1 else outputIndex s2) in
        Ok (take o2 (lz_out s2))))))"

section \<open>The format\<close>

text \<open>
  A compressed string is a sequence of literal runs (a length byte, then up to 32 bytes) and of
  back references (a distance below 8192 and 3 to 264 octets).
\<close>

definition ref_token :: "nat \<Rightarrow> nat \<Rightarrow> bytes" where
  "ref_token off len =
     (if len < 7 then [of_nat (off div 256 + len * 32), of_nat off]
      else [of_nat (off div 256 + 224), of_nat (len - 7), of_nat off])"

inductive lzf_tokens :: "bytes \<Rightarrow> bytes \<Rightarrow> bool" where
  empty: "lzf_tokens [] []"
| literals: "lzf_tokens c out \<Longrightarrow> ls \<noteq> [] \<Longrightarrow> length ls \<le> 32 \<Longrightarrow>
    lzf_tokens (c @ of_nat (length ls - 1) # ls) (out @ ls)"
| reference: "lzf_tokens c out \<Longrightarrow> 1 \<le> len \<Longrightarrow> len \<le> 262 \<Longrightarrow> off < 8192 \<Longrightarrow> off < length out \<Longrightarrow>
    lzf_tokens (c @ ref_token off len) (copy_ref (len + 2) (length out - off - 1) out)"

lemma length_copy_ref [simp]: "length (copy_ref n r out) = length out + n"
  by (induction n arbitrary: r out) auto

lemma decompress_loop_literals:
  assumes "unat (input ! i) = n" and "n < 32" and "i + n + 1 < length input"
    and "length out + n + 1 \<le> outLen"
  shows "decompress_loop input outLen i out =
    decompress_loop input outLen (i + n + 2) (out @ take (n + 1) (drop (i + 1) input))"
  using assms by (subst decompress_loop.simps) (simp add: Let_def)

lemma decompress_loop_short:
  assumes "unat (input ! i) = d + len * 32" and "d < 32" and "1 \<le> len" and "len < 7"
    and "i + 1 < length input" and "unat (input ! (i + 1)) = m"
    and "length out + len + 2 \<le> outLen" and "d * 256 + m < length out"
  shows "decompress_loop input outLen i out =
    decompress_loop input outLen (i + 2) (copy_ref (len + 2) (length out - (d * 256 + m) - 1) out)"
proof -
  have "(d + len * 32) div 32 = len" "(d + len * 32) mod 32 = d" "\<not> d + len * 32 < 32"
    using assms(2,3) by simp_all
  moreover have "nat (int (length out) - int d * 256 - 1 - int m) = length out - Suc (d * 256 + m)"
    "\<not> int (length out) - int d * 256 - 1 < int m"
    using assms(8) by linarith+
  moreover have "uint (input ! (i + 1)) = int m" unfolding assms(6) [symmetric] by simp
  ultimately show ?thesis
    using assms(1,4-7) by (subst decompress_loop.simps) (simp add: Let_def del: copy_ref.simps)
qed

lemma decompress_loop_long:
  assumes "unat (input ! i) = d + 224" and "d < 32" and "unat (input ! (i + 1)) = n"
    and "i + 2 < length input" and "unat (input ! (i + 2)) = m"
    and "length out + n + 9 \<le> outLen" and "d * 256 + m < length out"
  shows "decompress_loop input outLen i out =
    decompress_loop input outLen (i + 3) (copy_ref (n + 9) (length out - (d * 256 + m) - 1) out)"
proof -
  have "(d + 224) div 32 = 7" "(d + 224) mod 32 = d"
    using assms(2) mod_mult_self1 [of d 7 32] by simp_all
  moreover have "nat (int (length out) - int d * 256 - 1 - int m) = length out - Suc (d * 256 + m)"
    "\<not> int (length out) - int d * 256 - 1 < int m"
    using assms(7) by linarith+
  moreover have "copy_ref (9 + n) = copy_ref (n + 9)" by (simp add: add.commute)
  moreover have "uint (input ! (i + 2)) = int m" unfolding assms(5) [symmetric] by simp
  ultimately show ?thesis
    using assms(1,3-6) by (subst decompress_loop.simps) (simp add: Let_def numeral_3_eq_3 del: copy_ref.simps)
qed

lemma decompress_literals:
  assumes "ls \<noteq> []" and "length ls \<le> 32" and "length out + length ls \<le> outLen"
    and input: "input = c @ of_nat (length ls - 1) # ls @ rest"
  shows "decompress_loop input outLen (length c) out =
    decompress_loop input outLen (length c + 1 + length ls) (out @ ls)"
proof -
  define n where "n = length ls - 1"
  then have n: "length ls = n + 1" using assms(1) by (cases ls) simp_all
  have "unat (input ! length c) = n"
    using unat_of_nat_byte [of n] assms(2) n by (simp add: input nth_append n_def [symmetric])
  then show ?thesis
    using decompress_loop_literals [of input "length c" n out outLen] assms(2,3) n by (simp add: input)
qed

lemma unat_ref_token:
  assumes "len \<le> 262" and "off < 8192"
  shows "len < 7 \<Longrightarrow> unat (of_nat (off div 256 + len * 32) :: byte) = off div 256 + len * 32"
    and "unat (of_nat (off div 256 + 224) :: byte) = off div 256 + 224"
    and "7 \<le> len \<Longrightarrow> unat (of_nat (len - 7) :: byte) = len - 7"
    and "unat (of_nat off :: byte) = off mod 256"
proof -
  have "off div 256 < 32" using assms(2) by (simp add: less_mult_imp_div_less)
  then show "len < 7 \<Longrightarrow> unat (of_nat (off div 256 + len * 32) :: byte) = off div 256 + len * 32"
    and "unat (of_nat (off div 256 + 224) :: byte) = off div 256 + 224"
    by (auto intro!: unat_of_nat_byte simp del: of_nat_add)
  show "7 \<le> len \<Longrightarrow> unat (of_nat (len - 7) :: byte) = len - 7"
    using assms(1) by (intro unat_of_nat_byte) simp
  show "unat (of_nat off :: byte) = off mod 256" by (simp add: unat_of_nat)
qed

lemma decompress_reference:
  assumes len: "1 \<le> len" "len \<le> 262" and off: "off < 8192" "off < length out"
    and fits: "length out + len + 2 \<le> outLen"
    and input: "input = c @ ref_token off len @ rest"
  shows "decompress_loop input outLen (length c) out =
    decompress_loop input outLen (length c + length (ref_token off len))
      (copy_ref (len + 2) (length out - off - 1) out)"
proof -
  note u = unat_ref_token [OF len(2) off(1)]
  have d: "off div 256 < 32" using off(1) by (simp add: less_mult_imp_div_less)
  have m: "off div 256 * 256 + off mod 256 = off" by (rule div_mult_mod_eq)
  show ?thesis
  proof (cases "len < 7")
    case True
    then have "unat (input ! length c) = off div 256 + len * 32"
      and "unat (input ! (length c + 1)) = off mod 256" and "length (ref_token off len) = 2"
      and "length c + 1 < length input"
      using u(1,4) by (simp_all add: input ref_token_def nth_append del: of_nat_add)
    then show ?thesis
      using decompress_loop_short [of input "length c" "off div 256" len "off mod 256" out outLen]
        d len(1) True fits off(2) unfolding m by simp
  next
    case False
    then have "unat (input ! length c) = off div 256 + 224"
      and "unat (input ! (length c + 1)) = len - 7" and "unat (input ! (length c + 2)) = off mod 256"
      and "length (ref_token off len) = 3" and "length c + 2 < length input"
      using u(2-4) by (simp_all add: input ref_token_def nth_append del: of_nat_add)
    moreover have "len - 7 + 9 = len + 2" using False by simp
    ultimately show ?thesis
      using decompress_loop_long [of input "length c" "off div 256" "len - 7" "off mod 256" out outLen]
        d fits off(2) False unfolding m by simp
  qed
qed

lemma decompress_tokens:
  assumes "lzf_tokens c out" and "length out \<le> outLen" and "input = c @ rest"
  shows "decompress_loop input outLen 0 [] = decompress_loop input outLen (length c) out"
  using assms
proof (induction arbitrary: rest rule: lzf_tokens.induct)
  case empty
  then show ?case by simp
next
  case (literals c out ls)
  then have "decompress_loop input outLen 0 [] = decompress_loop input outLen (length c) out"
    by simp
  with literals.prems literals.hyps show ?case
    using decompress_literals [of ls out outLen input c rest] by simp
next
  case (reference c out len off)
  then have "decompress_loop input outLen 0 [] = decompress_loop input outLen (length c) out"
    by simp
  with reference.prems reference.hyps show ?case
    using decompress_reference [of len off out outLen input c rest] by simp
qed

lemma Decompress_tokens:
  assumes "lzf_tokens c out" and "out \<noteq> []" and "int (length out) \<le> max_alloc"
  shows "Decompress c (int (length c)) (int (length out)) = Ok out"
proof -
  have "c \<noteq> []" using assms(1,2) by (cases rule: lzf_tokens.cases) (auto simp: ref_token_def)
  moreover have "decompress_loop c (length out) 0 [] = Ok out"
    using decompress_tokens [OF assms(1), of "length out" c "[]"]
    by (simp add: decompress_loop.simps)
  ultimately show ?thesis using assms(3) by (simp add: Decompress_def)
qed

section \<open>Compress produces the format\<close>

lemma take_Suc_update: "i < length xs \<Longrightarrow> take (Suc i) (xs[i := v]) = take i xs @ [v]"
  by (simp add: take_Suc_conv_app_nth)

lemma ucast_of_u32: "(ucast x :: byte) = of_nat (unat (x :: u32))"
  by (simp add: unsigned_ucast_eq of_nat_unat)

lemma ref_token_words:
  fixes off :: u32
  assumes "off < maxOff" and "len \<le> 262"
  shows "len < 7 \<Longrightarrow> (ucast (drop_bit 8 off + of_nat (len * 32)) :: byte) = of_nat (unat off div 256 + len * 32)"
    and "(ucast (drop_bit 8 off + 224) :: byte) = of_nat (unat off div 256 + 224)"
proof -
  have off: "unat off < 8192" using assms(1) by (simp add: maxOff_def word_less_nat_alt)
  then have d: "unat (drop_bit 8 off) = unat off div 256" "unat off div 256 < 32"
    by (simp only: unat_drop_bit_eq, simp only: drop_bit_eq_div, simp_all)
  have "unat (drop_bit 8 off + 224) = unat off div 256 + 224"
    using d by (simp add: unat_word_ariths)
  then show "(ucast (drop_bit 8 off + 224) :: byte) = of_nat (unat off div 256 + 224)"
    by (simp only: ucast_of_u32)
  assume "len < 7"
  then have "unat (of_nat (len * 32) :: u32) = len * 32"
    by (intro unat_of_nat_small) simp
  then have "unat (drop_bit 8 off + of_nat (len * 32)) = unat off div 256 + len * 32"
    using d \<open>len < 7\<close> by (simp add: unat_word_ariths del: of_nat_mult)
  then show "(ucast (drop_bit 8 off + of_nat (len * 32)) :: byte) = of_nat (unat off div 256 + len * 32)"
    by (simp only: ucast_of_u32)
qed

lemma emit_ref_Ok:
  assumes "outputIndex s + 2 < length (lz_out s)" and "off < maxOff" and "len \<le> 262"
  obtains out where "emit_ref off len s =
      Ok (s\<lparr>lz_out := out, outputIndex := outputIndex s + length (ref_token (unat off) len) + 1\<rparr>)"
    and "length out = length (lz_out s)"
    and "take (outputIndex s + length (ref_token (unat off) len)) out =
      take (outputIndex s) (lz_out s) @ ref_token (unat off) len"
proof (cases "len < 7")
  case True
  let ?o = "outputIndex s"
  let ?out = "(lz_out s)[?o := of_nat (unat off div 256 + len * 32), ?o + 1 := of_nat (unat off)]"
  have "emit_ref off len s = Ok (s\<lparr>lz_out := ?out, outputIndex := ?o + 3\<rparr>)"
    using True assms(1) unfolding emit_ref_def ref_token_words(1) [OF assms(2,3) True] ucast_of_u32 [of off]
    by (simp add: set_out_def nat_add_distrib)
  moreover have "take (Suc (Suc ?o)) ?out = take ?o (lz_out s) @ ref_token (unat off) len"
    using True assms(1) by (simp add: take_Suc_update ref_token_def)
  ultimately show ?thesis using True that [of ?out] by (simp add: ref_token_def)
next
  case False
  let ?o = "outputIndex s"
  let ?out = "(lz_out s)[?o := of_nat (unat off div 256 + 224), ?o + 1 := of_nat (len - 7), ?o + 2 := of_nat (unat off)]"
  have "emit_ref off len s = Ok (s\<lparr>lz_out := ?out, outputIndex := ?o + 4\<rparr>)"
    using False assms(1) unfolding emit_ref_def ref_token_words(2) [OF assms(2,3)] ucast_of_u32 [of off]
    by (simp add: set_out_def nat_add_distrib)
  moreover have "take (Suc (Suc (Suc ?o))) ?out = take ?o (lz_out s) @ ref_token (unat off) len"
    using False assms(1) by (simp add: take_Suc_update ref_token_def)
  ultimately show ?thesis using False that [of ?out] by (simp add: ref_token_def numeral_3_eq_3)
qed

lemma match_len_spec:
  assumes "\<forall>k\<le>len. input ! (ref + k) = input ! (i + k)"
  shows "match_len input ref i maxLen len \<le> max (Suc len) maxLen"
    and "\<forall>k < match_len input ref i maxLen len. input ! (ref + k) = input ! (i + k)"
proof -
  have "match_len input ref i maxLen len \<le> max (Suc len) maxLen \<and>
    (\<forall>k < match_len input ref i maxLen len. input ! (ref + k) = input ! (i + k))"
    using assms
  proof (induction input ref i maxLen len rule: match_len.induct)
    case (1 input ref i maxLen len)
    show ?case
    proof (cases "maxLen \<le> Suc len \<or> input ! (ref + Suc len) \<noteq> input ! (i + Suc len)")
      case True
      with "1.prems" show ?thesis by (subst (1 2) match_len.simps) auto
    next
      case False
      with "1.prems" have "\<forall>k\<le>Suc len. input ! (ref + k) = input ! (i + k)"
        by (auto simp: le_Suc_eq)
      from "1.IH" [OF False this] False show ?thesis
        by (subst (1 2) match_len.simps) auto
    qed
  qed
  then show "match_len input ref i maxLen len \<le> max (Suc len) maxLen"
    and "\<forall>k < match_len input ref i maxLen len. input ! (ref + k) = input ! (i + k)" by auto
qed

lemma copy_ref_matches:
  assumes "\<forall>k < j + m. input ! (ref + k) = input ! (i + k)" and "ref < i" and "i + j + m \<le> length input"
  shows "copy_ref m (ref + j) (take (i + j) input) = take (i + j + m) input"
  using assms
proof (induction m arbitrary: j)
  case 0
  then show ?case by simp
next
  case (Suc m)
  have "take (i + j) input ! (ref + j) = input ! (i + j)"
    using Suc.prems by simp
  then have "take (i + j) input @ [take (i + j) input ! (ref + j)] = take (i + Suc j) input"
    using Suc.prems by (simp add: take_Suc_conv_app_nth)
  moreover have "copy_ref m (ref + Suc j) (take (i + Suc j) input) = take (i + Suc j + m) input"
    using Suc.prems by (intro Suc.IH) auto
  ultimately show ?case by simp
qed

text \<open>
  The invariant of the main loop: what is before the header of the open literal run is the
  compressed form of what is before its first byte, and the open run holds the last \<open>lit\<close> bytes.
\<close>

definition lz_inv :: "bytes \<Rightarrow> lz_state \<Rightarrow> bool" where
  "lz_inv input s \<longleftrightarrow>
     length (lz_out s) = length input \<and> lit s < 32 \<and> lit s < outputIndex s \<and>
     lit s \<le> inputIndex s \<and> inputIndex s \<le> length input \<and>
     outputIndex s \<le> length input + (if lit s = 0 then 1 else 0) \<and>
     lzf_tokens (take (outputIndex s - lit s - 1) (lz_out s)) (take (inputIndex s - lit s) input) \<and>
     take (lit s) (drop (outputIndex s - lit s) (lz_out s)) = take (lit s) (drop (inputIndex s - lit s) input)"

text \<open>Every table entry is a position before \<open>k\<close>, or still zero.\<close>

definition lz_tab :: "nat \<Rightarrow> lz_state \<Rightarrow> bool" where
  "lz_tab k s \<longleftrightarrow> (\<forall>h. unat (htab s h) < k \<or> htab s h = 0)"

lemma take_update_split:
  "p < n \<Longrightarrow> n \<le> length xs \<Longrightarrow> take n (xs[p := v]) = take p xs @ v # take (n - p - 1) (drop (Suc p) xs)"
  by (simp add: upd_conv_take_nth_drop min_absorb1 take_Cons' min_absorb2)

lemma tokens_close_run:
  assumes tok: "lzf_tokens (take (n - l - 1) out) (take (i - l) input)"
    and run: "take l (drop (n - l) out) = take l (drop (i - l) input)"
    and l: "0 < l" "l \<le> 32" "l < n" "n \<le> length out" "l \<le> i" "i \<le> length input"
  shows "lzf_tokens (take n (out[n - l - 1 := of_nat l - 1])) (take i input)"
proof -
  let ?ls = "take l (drop (i - l) input)"
  have ls: "length ?ls = l" using l by simp
  then have "lzf_tokens (take (n - l - 1) out @ of_nat (length ?ls - 1) # ?ls) (take (i - l) input @ ?ls)"
    using tok l by (intro lzf_tokens.literals) auto
  moreover have "take (i - l) input @ ?ls = take i input"
    using take_add [of "i - l" l input] l by simp
  moreover have "take n (out[n - l - 1 := of_nat l - 1]) = take (n - l - 1) out @ of_nat (length ?ls - 1) # ?ls"
    using l run unfolding ls by (subst take_update_split) (auto simp: of_nat_diff Suc_diff_Suc)
  ultimately show ?thesis by simp
qed

text \<open>One more literal keeps the invariant.\<close>

lemma emit_literal_inv:
  assumes inv: "lz_inv input s" and i: "inputIndex s < length input" and o: "outputIndex s < length input"
  obtains s' where "emit_literal input s = Ok s'" and "lz_inv input s'"
    and "inputIndex s' = Suc (inputIndex s)" and "htab s' = htab s"
    and "outputIndex s' = outputIndex s + 1 \<and> lit s' = lit s + 1 \<or>
      outputIndex s' = outputIndex s + 2 \<and> lit s' = 0 \<and> lit s = 31"
proof -
  let ?o = "outputIndex s" and ?i = "inputIndex s" and ?l = "lit s"
  let ?out = "(lz_out s)[?o := input ! ?i]"
  have len: "length (lz_out s) = length input" and l: "?l < 32" "?l < ?o" "?l \<le> ?i"
    and tok: "lzf_tokens (take (?o - ?l - 1) (lz_out s)) (take (?i - ?l) input)"
    and run: "take ?l (drop (?o - ?l) (lz_out s)) = take ?l (drop (?i - ?l) input)"
    using inv by (auto simp: lz_inv_def)
  have tok': "lzf_tokens (take (Suc ?o - Suc ?l - 1) ?out) (take (Suc ?i - Suc ?l) input)"
    using tok by simp
  have "take (Suc ?l) (drop (?o - ?l) ?out) = take ?l (drop (?o - ?l) (lz_out s)) @ [input ! ?i]"
    using l o len by (simp add: take_Suc_conv_app_nth drop_update_swap)
  also have "\<dots> = take (Suc ?l) (drop (?i - ?l) input)"
    using run l i by (simp add: take_Suc_conv_app_nth)
  finally have run': "take (Suc ?l) (drop (Suc ?o - Suc ?l) ?out) = take (Suc ?l) (drop (Suc ?i - Suc ?l) input)"
    by simp
  show ?thesis
  proof (cases "Suc ?l = 32")
    case False
    let ?s = "s\<lparr>lit := Suc ?l, lz_out := ?out, outputIndex := Suc ?o, inputIndex := Suc ?i\<rparr>"
    have "emit_literal input s = Ok ?s"
      using False o len by (simp add: emit_literal_def set_out_def maxLit_def)
    moreover have "lz_inv input ?s"
      using False l o i len tok' run' by (simp add: lz_inv_def)
    ultimately show ?thesis using that by simp
  next
    case True
    let ?out2 = "?out[Suc ?o - 32 - 1 := of_nat 32 - 1]"
    let ?s = "s\<lparr>lit := 0, lz_out := ?out2, outputIndex := Suc (Suc ?o), inputIndex := Suc ?i\<rparr>"
    have o32: "32 \<le> ?o" "31 \<le> ?i" using True l by simp_all
    have "emit_literal input s = Ok ?s"
      using True o len o32 by (simp add: emit_literal_def set_out_def maxLit_def stop_run_def nat_diff_distrib')
    moreover have "lzf_tokens (take (Suc ?o) ?out2) (take (Suc ?i) input)"
      using tokens_close_run [OF tok' run'] True l o i len o32 unfolding True by simp
    then have "lz_inv input ?s"
      using True l o i len by (simp add: lz_inv_def)
    ultimately show ?thesis using that True by simp
  qed
qed

lemma emit_match_inv:
  assumes inv: "lz_inv input s" and i: "inputIndex s + 2 < length input"
    and ref: "ref < inputIndex s" and off: "unat off = inputIndex s - ref - 1" "off < maxOff"
    and eq: "input ! ref = input ! inputIndex s" "input ! (ref + 1) = input ! (inputIndex s + 1)"
      "input ! (ref + 2) = input ! (inputIndex s + 2)"
  shows "emit_match input ref off s = Err errInsufficientBuffer \<or>
    (\<exists>s'. emit_match input ref off s = Ok s' \<and> lz_inv input s' \<and> inputIndex s + 3 \<le> inputIndex s' \<and>
      outputIndex s' \<le> length input \<and> lit s' = 0 \<and> htab s' = htab s)"
proof (cases "length (lz_out s) \<le> outputIndex s + 3 + 1 \<and>
    int (length (lz_out s)) \<le> int (outputIndex s) - (if lit s = 0 then 1 else 0) + 3 + 1")
  case True
  then show ?thesis by (simp add: emit_match_def)
next
  case False
  let ?o = "outputIndex s" and ?i = "inputIndex s" and ?l = "lit s"
  define L where "L = match_len input ref ?i (min (length input - ?i - 2) maxRef) 2"
  define out1 where "out1 = (lz_out s)[?o - ?l - 1 := of_nat ?l - 1]"
  define o1 where "o1 = (if ?l = 0 then ?o - 1 else ?o)"
  define tok2 where "tok2 = ref_token (unat off) (L - 2)"
  have len: "length (lz_out s) = length input" "length out1 = length input"
    and l: "?l < 32" "?l < ?o" "?l \<le> ?i"
    and tok: "lzf_tokens (take (?o - ?l - 1) (lz_out s)) (take (?i - ?l) input)"
    and run: "take ?l (drop (?o - ?l) (lz_out s)) = take ?l (drop (?i - ?l) input)"
    using inv by (auto simp: lz_inv_def out1_def)
  have fits: "o1 + 4 < length input"
    using False len l by (auto simp: o1_def split: if_splits)
  have eqs: "\<forall>k\<le>2. input ! (ref + k) = input ! (?i + k)"
    using eq by (auto simp: le_Suc_eq numeral_2_eq_2)
  have m: "L \<le> max (Suc 2) (min (length input - ?i - 2) maxRef)"
    "\<forall>k < L. input ! (ref + k) = input ! (?i + k)"
    unfolding L_def by (rule match_len_spec [OF eqs])+
  have "2 < L" unfolding L_def by (rule match_len_gt)
  then have L: "3 \<le> L" "L \<le> 264" "?i + L \<le> length input"
    using m(1) i unfolding maxRef_def by linarith+
  have tok1: "lzf_tokens (take o1 out1) (take ?i input)"
  proof (cases "?l = 0")
    case True
    then show ?thesis using tok by (simp add: o1_def out1_def)
  next
    case False
    then have "?o \<le> length (lz_out s)" "?i \<le> length input" using fits len i by (simp_all add: o1_def)
    with False show ?thesis using tokens_close_run [OF tok run] l by (simp add: o1_def out1_def)
  qed
  obtain out where emit: "emit_ref off (L - 2) (s\<lparr>lz_out := out1, outputIndex := o1\<rparr>) =
      Ok (s\<lparr>lz_out := out, outputIndex := o1 + length tok2 + 1\<rparr>)"
    and out: "length out = length input" "take (o1 + length tok2) out = take o1 out1 @ tok2"
  proof (rule emit_ref_Ok [of "s\<lparr>lz_out := out1, outputIndex := o1\<rparr>" off "L - 2"])
    show "outputIndex (s\<lparr>lz_out := out1, outputIndex := o1\<rparr>) + 2
        < length (lz_out (s\<lparr>lz_out := out1, outputIndex := o1\<rparr>))"
      using fits len by simp
  qed (use off L len in \<open>simp_all add: tok2_def\<close>)
  let ?s' = "s\<lparr>lz_out := out, outputIndex := o1 + length tok2 + 1, lit := 0, inputIndex := ?i + L\<rparr>"
  have t: "length tok2 \<le> 3" by (simp add: tok2_def ref_token_def)
  have "?o - ?l - 1 < length (lz_out s)" using l fits len by (simp add: o1_def split: if_splits)
  then have stop: "stop_run s = Ok (s\<lparr>lz_out := out1\<rparr>)"
    using l by (simp add: stop_run_Ok out1_def)
  have s2: "(if lit (s\<lparr>lz_out := out1\<rparr>) = 0
      then (s\<lparr>lz_out := out1\<rparr>)\<lparr>outputIndex := outputIndex (s\<lparr>lz_out := out1\<rparr>) - 1\<rparr>
      else s\<lparr>lz_out := out1\<rparr>) = s\<lparr>lz_out := out1, outputIndex := o1\<rparr>"
    by (simp add: o1_def)
  have "emit_match input ref off s =
      rbind (emit_ref off (match_len input ref ?i (min (length input - ?i - 2) maxRef) 2 - 2)
        (s\<lparr>lz_out := out1, outputIndex := o1\<rparr>)) (\<lambda>s3.
        Ok (s3\<lparr>lit := 0, inputIndex := inputIndex s3 + 1 +
          (match_len input ref ?i (min (length input - ?i - 2) maxRef) 2 - 2 + 1)\<rparr>))"
    unfolding emit_match_def Let_def if_not_P [OF False] stop rbind_Ok s2 by simp
  also have "\<dots> = Ok ?s'"
    unfolding L_def [symmetric] emit using L(1) by simp
  finally have res: "emit_match input ref off s = Ok ?s'" .
  have "lzf_tokens (take (o1 + length tok2) out) (take (?i + L) input)"
  proof -
    have o: "length (take ?i input) = ?i" "unat off < ?i" "unat off < 8192"
      using i off ref by (auto simp: maxOff_def word_less_nat_alt)
    have "lzf_tokens (take o1 out1 @ tok2)
        (copy_ref (L - 2 + 2) (length (take ?i input) - unat off - 1) (take ?i input))"
      unfolding tok2_def using L o by (intro lzf_tokens.reference [OF tok1]) simp_all
    moreover have "L - 2 + 2 = L" "length (take ?i input) - unat off - 1 = ref"
      using L off ref i by simp_all
    moreover have "copy_ref L ref (take ?i input) = take (?i + L) input"
      using copy_ref_matches [of 0 L input ref ?i] m(2) ref L by simp
    ultimately show ?thesis using out(2) by (simp only:)
  qed
  then have "lz_inv input ?s'"
    using out(1) fits t L by (simp add: lz_inv_def)
  with res show ?thesis using L(1) fits t by simp
qed

lemma rehash_frame:
  assumes "2 \<le> inputIndex s"
  shows "inputIndex (rehash input s) = inputIndex s" and "lz_inv input (rehash input s) = lz_inv input s"
proof -
  have "Suc (Suc (inputIndex s - 2)) = inputIndex s" using assms by simp
  then show "inputIndex (rehash input s) = inputIndex s" "lz_inv input (rehash input s) = lz_inv input s"
    by (simp_all add: rehash_def Let_def lz_inv_def)
qed

lemma lz_tab_upd:
  "lz_tab k s \<Longrightarrow> unat u < k \<Longrightarrow> unat v < k \<Longrightarrow> htab s' = (htab s)(a := u, b := v) \<Longrightarrow> lz_tab k s'"
  by (simp add: lz_tab_def)

lemma lz_tab_mono: "lz_tab j s \<Longrightarrow> j \<le> k \<Longrightarrow> htab s' = htab s \<Longrightarrow> lz_tab k s'"
  unfolding lz_tab_def by (metis less_le_trans)

lemma htab_upd: "htab (s\<lparr>hval := h, htab := f, inputIndex := i\<rparr>) = f"
  by simp

lemma rehash_tab:
  assumes "lz_tab (inputIndex s) s" and "2 \<le> inputIndex s" and "inputIndex s < 2 ^ 32"
  shows "lz_tab (inputIndex s) (rehash input s)"
proof -
  have "unat (of_nat (inputIndex s - 2) :: u32) < inputIndex s"
    using assms(2,3) unat_of_nat_small [of "inputIndex s - 2", where ?'a = 32] by simp
  moreover have "unat (of_nat (inputIndex s - 2 + 1) :: u32) < inputIndex s"
    using assms(2,3) unat_of_nat_small [of "inputIndex s - 2 + 1", where ?'a = 32] by simp
  moreover have "\<exists>a b. htab (rehash input s) =
      (htab s)(a := of_nat (inputIndex s - 2), b := of_nat (inputIndex s - 2 + 1))"
    unfolding rehash_def Let_def by (intro exI) (rule htab_upd)
  ultimately show ?thesis using lz_tab_upd [OF assms(1)] by blast
qed

lemma compress_step_inv:
  assumes inv: "lz_inv input s" and tab: "lz_tab (inputIndex s) s"
    and i: "inputIndex s + 2 < length input" and n: "length input < 2 ^ 32"
  shows "compress_step input s = Err errInsufficientBuffer \<or>
    (\<exists>s' c. compress_step input s = Ok (s', c) \<and> lz_inv input s' \<and>
       (if c then lz_tab (inputIndex s') s' else length input \<le> inputIndex s' + 2))"
proof -
  let ?i = "inputIndex s"
  let ?h = "push_bit 8 (hval s) OR ucast (input ! (?i + 2))"
  let ?ref = "htab s (hslot_of ?h)"
  let ?off = "of_nat ?i - ?ref - 1 :: u32"
  let ?s0 = "s\<lparr>hval := ?h, htab := (htab s)(hslot_of ?h := of_nat ?i)\<rparr>"
  have u: "unat (of_nat ?i :: u32) = ?i" using i n by (intro unat_of_nat_small) simp
  have inv0: "lz_inv input ?s0" using inv by (simp add: lz_inv_def)
  have tab0: "lz_tab (Suc ?i) ?s0" using tab u by (auto simp: lz_tab_def intro: less_SucI)
  show ?thesis
  proof (cases "?off < maxOff \<and> 0 < ?ref \<and> input ! unat ?ref = input ! ?i \<and>
         input ! (unat ?ref + 1) = input ! (?i + 1) \<and> input ! (unat ?ref + 2) = input ! (?i + 2)")
    case True
    have ref: "unat ?ref < ?i" using tab True by (auto simp: lz_tab_def)
    then have "?off = of_nat (?i - unat ?ref - 1)" by (simp add: of_nat_diff)
    then have off: "unat ?off = ?i - unat ?ref - 1"
      using i n unat_of_nat_small [of "?i - unat ?ref - 1", where ?'a = 32] by simp
    have step: "compress_step input s = rbind (emit_match input (unat ?ref) ?off ?s0) (\<lambda>s1.
        if length input \<le> inputIndex s1 + 2 then Ok (s1, False) else Ok (rehash input s1, True))"
      using True unfolding compress_step_def Let_def by (rule if_P)
    have "emit_match input (unat ?ref) ?off ?s0 = Err errInsufficientBuffer \<or>
      (\<exists>s'. emit_match input (unat ?ref) ?off ?s0 = Ok s' \<and> lz_inv input s' \<and> ?i + 3 \<le> inputIndex s' \<and>
        htab s' = htab ?s0)"
      using emit_match_inv [OF inv0, of "unat ?ref" ?off] i ref off True by auto
    then show ?thesis
    proof (elim disjE exE conjE)
      assume "emit_match input (unat ?ref) ?off ?s0 = Err errInsufficientBuffer"
      then show ?thesis unfolding step by simp
    next
      fix s' assume s': "emit_match input (unat ?ref) ?off ?s0 = Ok s'" "lz_inv input s'"
        "?i + 3 \<le> inputIndex s'" "htab s' = htab ?s0"
      have "lz_tab (inputIndex s') s'"
        using lz_tab_mono [OF tab0 _ s'(4)] s'(3) by simp
      then have "lz_tab (inputIndex s') (rehash input s')"
        using s' n by (intro rehash_tab) (auto simp: lz_inv_def)
      then show ?thesis unfolding step s'(1) using s'(2,3)
        by (cases "length input \<le> inputIndex s' + 2") (auto simp: rehash_frame)
    qed
  next
    case False
    have step: "compress_step input s =
        (if length (lz_out ?s0) \<le> outputIndex ?s0 then Err errInsufficientBuffer
         else rbind (emit_literal input ?s0) (\<lambda>s1. Ok (s1, True)))"
      using False unfolding compress_step_def Let_def by (rule if_not_P)
    show ?thesis
    proof (cases "length (lz_out ?s0) \<le> outputIndex ?s0")
      case True
      then show ?thesis unfolding step by simp
    next
      case False
      moreover have "length (lz_out ?s0) = length input" using inv0 by (simp add: lz_inv_def)
      ultimately obtain s' where "emit_literal input ?s0 = Ok s'" "lz_inv input s'"
        "inputIndex s' = Suc ?i" "htab s' = htab ?s0"
        using emit_literal_inv [OF inv0] i by auto
      moreover from this have "lz_tab (inputIndex s') s'"
        using lz_tab_mono [OF tab0, of "inputIndex s'" s'] by simp
      ultimately show ?thesis using False unfolding step by auto
    qed
  qed
qed

lemma compress_loop_inv:
  assumes "lz_inv input s" and "lz_tab (inputIndex s) s" and "length input < 2 ^ 32"
  shows "compress_loop input s = Err errInsufficientBuffer \<or>
    (\<exists>s'. compress_loop input s = Ok s' \<and> lz_inv input s' \<and> length input \<le> inputIndex s' + 2)"
  using assms
proof (induction input s rule: compress_loop.induct)
  case (1 input s)
  show ?case
  proof (cases "inputIndex s + 2 < length input")
    case False
    with "1.prems" show ?thesis by (subst (1 2) compress_loop.simps) auto
  next
    case True
    from compress_step_inv [OF "1.prems"(1,2) True "1.prems"(3)] show ?thesis
    proof (elim disjE exE conjE)
      assume "compress_step input s = Err errInsufficientBuffer"
      with True show ?thesis by (subst (1 2) compress_loop.simps) simp
    next
      fix s' c assume s': "compress_step input s = Ok (s', c)" "lz_inv input s'"
        "if c then lz_tab (inputIndex s') s' else length input \<le> inputIndex s' + 2"
      show ?thesis
      proof (cases c)
        case True
        with s' \<open>inputIndex s + 2 < length input\<close> "1.IH" [of "(s', True)" s'] "1.prems"(3) show ?thesis
          by (subst (1 2) compress_loop.simps) simp
      next
        case False
        with s' \<open>inputIndex s + 2 < length input\<close> show ?thesis
          by (subst (1 2) compress_loop.simps) simp
      qed
    qed
  qed
qed

text \<open>
  The last loop writes at most two bytes and, at a full run, one header; the test before it leaves
  room for three.
\<close>

lemma compress_tail_inv:
  assumes "lz_inv input s" and "length input \<le> inputIndex s + k"
    and "outputIndex s + 2 * k < length input + 1"
    and "k < 31"
  shows "\<exists>s'. compress_tail input s = Ok s' \<and> lz_inv input s' \<and> inputIndex s' = length input \<and>
    outputIndex s' \<le> outputIndex s + k + (if lit s + k < 32 then 0 else 1)"
  using assms
proof (induction k arbitrary: s)
  case 0
  then have "inputIndex s = length input" by (simp add: lz_inv_def)
  with 0 show ?case by (subst (1) compress_tail.simps) simp
next
  case (Suc k)
  show ?case
  proof (cases "inputIndex s < length input")
    case False
    with Suc.prems(1) have "inputIndex s = length input" by (simp add: lz_inv_def)
    with Suc.prems show ?thesis by (subst (1) compress_tail.simps) simp
  next
    case True
    have "outputIndex s < length input" using Suc.prems(3) by simp
    then obtain s' where s': "emit_literal input s = Ok s'" "lz_inv input s'"
      "inputIndex s' = Suc (inputIndex s)"
      "outputIndex s' = outputIndex s + 1 \<and> lit s' = lit s + 1 \<or>
        outputIndex s' = outputIndex s + 2 \<and> lit s' = 0 \<and> lit s = 31"
      by (rule emit_literal_inv [OF Suc.prems(1) True])
    obtain s2 where s2: "compress_tail input s' = Ok s2" "lz_inv input s2" "inputIndex s2 = length input"
      "outputIndex s2 \<le> outputIndex s' + k + (if lit s' + k < 32 then 0 else 1)"
      using s' Suc.prems Suc.IH [of s'] by auto
    moreover have "compress_tail input s = compress_tail input s'"
      using s'(1) True by (subst (1) compress_tail.simps) simp
    moreover have "outputIndex s2 \<le> outputIndex s + Suc k + (if lit s + Suc k < 32 then 0 else 1)"
      using s2(4) s'(4) Suc.prems(4) by (auto split: if_splits)
    ultimately show ?thesis by auto
  qed
qed

lemma compress_finish:
  assumes inv: "lz_inv input s" and i: "inputIndex s = length input" and o: "outputIndex s < length input"
  obtains s2 where "stop_run s = Ok s2" and "lit s2 = lit s" and "outputIndex s2 = outputIndex s"
    and "lzf_tokens (take (if lit s = 0 then outputIndex s - 1 else outputIndex s) (lz_out s2)) input"
    and "length (lz_out s2) = length input"
proof -
  let ?out = "(lz_out s)[outputIndex s - lit s - 1 := of_nat (lit s) - 1]"
  have s: "length (lz_out s) = length input" "lit s < 32" "lit s < outputIndex s" "lit s \<le> length input"
    "lzf_tokens (take (outputIndex s - lit s - 1) (lz_out s)) (take (length input - lit s) input)"
    "take (lit s) (drop (outputIndex s - lit s) (lz_out s)) = take (lit s) (drop (length input - lit s) input)"
    using inv i by (auto simp: lz_inv_def)
  have "stop_run s = Ok (s\<lparr>lz_out := ?out\<rparr>)" using s o by (simp add: stop_run_Ok)
  moreover have "lzf_tokens (take (if lit s = 0 then outputIndex s - 1 else outputIndex s) ?out) input"
  proof (cases "lit s = 0")
    case True
    then show ?thesis using s(5) by simp
  next
    case False
    then show ?thesis using tokens_close_run [OF s(5,6)] s o by simp
  qed
  ultimately show ?thesis using that s by simp
qed

text \<open>
  What \<open>Compress\<close> does on every input of two bytes and more (a single byte panics, which no caller
  passes): it reports a full buffer, or it returns a shorter string in the format.
\<close>

lemma Compress_cases:
  assumes n: "2 \<le> length input" "length input < 2 ^ 32"
  shows "Compress input = Err errInsufficientBuffer \<or>
    (\<exists>c. Compress input = Ok c \<and> lzf_tokens c input \<and> length c < length input)"
proof -
  have ne: "input \<noteq> []" "\<not> length input \<le> 1" using n by auto
  have "lz_inv input (lz_start input)"
    using n by (simp add: lz_inv_def lz_start_def lzf_tokens.empty)
  moreover have "lz_tab (inputIndex (lz_start input)) (lz_start input)"
    by (simp add: lz_tab_def lz_start_def)
  ultimately have "compress_loop input (lz_start input) = Err errInsufficientBuffer \<or>
    (\<exists>s'. compress_loop input (lz_start input) = Ok s' \<and> lz_inv input s' \<and> length input \<le> inputIndex s' + 2)"
    using n(2) by (rule compress_loop_inv)
  then show ?thesis
  proof (elim disjE exE conjE)
    assume "compress_loop input (lz_start input) = Err errInsufficientBuffer"
    with ne show ?thesis by (simp add: Compress_def)
  next
    fix s assume s: "compress_loop input (lz_start input) = Ok s" "lz_inv input s"
      "length input \<le> inputIndex s + 2"
    have C: "Compress input = (if length (lz_out s) \<le> outputIndex s + 3 then Err errInsufficientBuffer
        else rbind (compress_tail input s) (\<lambda>s1. rbind (stop_run s1) (\<lambda>s2.
          Ok (take (if lit s2 = 0 then outputIndex s2 - 1 else outputIndex s2) (lz_out s2)))))"
      using ne s(1) by (simp add: Compress_def Let_def)
    show ?thesis
    proof (cases "length (lz_out s) \<le> outputIndex s + 3")
      case True
      then show ?thesis unfolding C by simp
    next
      case False
      then have o: "outputIndex s + 3 < length input" using s(2) by (simp add: lz_inv_def)
      then obtain s1 where s1: "compress_tail input s = Ok s1" "lz_inv input s1"
        "inputIndex s1 = length input" "outputIndex s1 \<le> outputIndex s + 2 + 1"
        using compress_tail_inv [OF s(2,3)] by (auto split: if_splits)
      then have "outputIndex s1 < length input" using o by simp
      then obtain s2 where "stop_run s1 = Ok s2" "lit s2 = lit s1" "outputIndex s2 = outputIndex s1"
        "lzf_tokens (take (if lit s1 = 0 then outputIndex s1 - 1 else outputIndex s1) (lz_out s2)) input"
        by (rule compress_finish [OF s1(2,3)])
      with False s1 \<open>outputIndex s1 < length input\<close> show ?thesis unfolding C by auto
    qed
  qed
qed

text \<open>
  C22. LZF round trip: whatever \<open>Compress\<close> returns, \<open>Decompress\<close> with the two lengths that
  \<open>writeLZFString\<close> stores gives the input back. (The bound is that of the 32-bit positions in the
  hash table.)
\<close>

theorem lzf_roundtrip:
  assumes "Compress input = Ok c" and "length input < 2 ^ 32"
  shows "Decompress c (int (length c)) (int (length input)) = Ok input"
proof (cases "input = []")
  case True
  with assms(1) show ?thesis by (simp add: Compress_def Decompress_def max_alloc_def)
next
  case False
  with assms(1) have "2 \<le> length input" by (simp add: Compress_def split: if_splits)
  with assms have "lzf_tokens c input" using Compress_cases [of input] by auto
  moreover have "int (length input) \<le> max_alloc" using assms(2) by (simp add: max_alloc_def)
  ultimately show ?thesis using False by (intro Decompress_tokens)
qed

lemma lzf_roundtrip_witness:
  "Compress (replicate 24 7) = Ok [1, 7, 7, 224, 11, 0, 1, 7, 7] \<and>
   Decompress [1, 7, 7, 224, 11, 0, 1, 7, 7] 9 24 = Ok (replicate 24 7)"
proof -
  have c: "Compress (replicate 24 7) = Ok [1, 7, 7, 224, 11, 0, 1, 7, 7]" by code_simp
  show ?thesis using c lzf_roundtrip [OF c] by simp
qed

text \<open>
  C34. \<open>Compress\<close> never panics on two bytes and more: it either reports \<open>errInsufficientBuffer\<close>, on
  which \<open>writeString\<close> falls back to the plain form, or returns strictly fewer bytes.
\<close>

theorem lzf_shrinks:
  assumes "2 \<le> length input" and "length input < 2 ^ 32"
  shows "Compress input = Err errInsufficientBuffer \<or>
    (\<exists>c. Compress input = Ok c \<and> length c < length input)"
  using Compress_cases [OF assms] by auto

lemma lzf_shrinks_witness:
  "Compress (replicate 24 7) = Err errInsufficientBuffer \<or>
    (\<exists>c. Compress (replicate 24 7) = Ok c \<and> length c < length (replicate 24 (7 :: byte)))"
  by (rule lzf_shrinks) simp_all

end
