(* ===== verification/RdbModel.thy ===== *)
theory RdbModel
  imports Prelude
begin

text \<open>
  Package \<open>model\<close> (\<open>model/model.go\<close>, \<open>model/detail.go\<close>, \<open>model/stream.go\<close>): the objects the decoder
  hands to its callback and the encoder writes. Keys and values are byte strings; the names of types
  and encodings are HOL strings. A Go map is an association list with distinct keys, in the order in
  which its iteration visits it. A float64 is its IEEE 754 bit pattern. A time is the \<open>int64\<close> number
  of nanoseconds it was made of. The JSON of objects is in theory JsonView.
\<close>

type_synonym f64 = u64
type_synonym 'v gomap = "(bytes \<times> 'v) list"

section \<open>Type and encoding names\<close>

definition StringType :: string where "StringType = ''string''"
definition ListType :: string where "ListType = ''list''"
definition SetType :: string where "SetType = ''set''"
definition HashType :: string where "HashType = ''hash''"
definition ZSetType :: string where "ZSetType = ''zset''"
definition AuxType :: string where "AuxType = ''aux''"
definition DBSizeType :: string where "DBSizeType = ''dbsize''"
definition StreamType :: string where "StreamType = ''stream''"
definition FunctionsType :: string where "FunctionsType = ''functions''"

definition StringEncoding :: string where "StringEncoding = ''string''"
definition ListEncoding :: string where "ListEncoding = ''list''"
definition SetEncoding :: string where "SetEncoding = ''set''"
definition ZSetEncoding :: string where "ZSetEncoding = ''zset''"
definition HashEncoding :: string where "HashEncoding = ''hash''"
definition HashExEncoding :: string where "HashExEncoding = ''hashex''"
definition ZSet2Encoding :: string where "ZSet2Encoding = ''zset2''"
definition ZipMapEncoding :: string where "ZipMapEncoding = ''zipmap''"
definition ZipListEncoding :: string where "ZipListEncoding = ''ziplist''"
definition IntSetEncoding :: string where "IntSetEncoding = ''intset''"
definition QuickListEncoding :: string where "QuickListEncoding = ''quicklist''"
definition ListPackEncoding :: string where "ListPackEncoding = ''listpack''"
definition ListPackExEncoding :: string where "ListPackExEncoding = ''listpackex''"
definition QuickList2Encoding :: string where "QuickList2Encoding = ''quicklist2''"

lemmas type_names =
  StringType_def ListType_def SetType_def HashType_def ZSetType_def AuxType_def DBSizeType_def
  StreamType_def FunctionsType_def

lemmas encoding_names =
  StringEncoding_def ListEncoding_def SetEncoding_def ZSetEncoding_def HashEncoding_def
  HashExEncoding_def ZSet2Encoding_def ZipMapEncoding_def ZipListEncoding_def IntSetEncoding_def
  QuickListEncoding_def ListPackEncoding_def ListPackExEncoding_def QuickList2Encoding_def

section \<open>Details of an encoding\<close>

definition QuicklistNodeContainerPlain :: nat where "QuicklistNodeContainerPlain = 1"
definition QuicklistNodeContainerPacked :: nat where "QuicklistNodeContainerPacked = 2"

datatype detail =
    NoDetail
  | QuicklistDetail "bytes list list"  \<comment> \<open>ZiplistStruct\<close>
  | Quicklist2Detail "nat list" "nat list list"  \<comment> \<open>NodeEncodings, ListPackEntrySize\<close>
  | IntsetDetail nat  \<comment> \<open>RawStringSize\<close>
  | ZiplistDetail nat
  | ListpackDetail nat

section \<open>Streams\<close>

record stream_id =
  Ms :: u64
  Sequence :: u64

record stream_message =
  msg_id :: stream_id
  msg_fields :: "bytes gomap"
  msg_deleted :: bool

record stream_entry =
  firstMsgId :: stream_id
  entry_fields :: "bytes list"
  entry_msgs :: "stream_message list"

record stream_nack =
  nack_id :: stream_id
  deliveryTime :: u64
  deliveryCount :: u64

record stream_consumer =
  consumer_name :: bytes
  seenTime :: u64
  consumer_pending :: "stream_id list"
  activeTime :: u64

record stream_group =
  group_name :: bytes
  group_lastId :: stream_id
  group_pending :: "stream_nack list"
  group_consumers :: "stream_consumer list"
  entriesRead :: u64

record stream =
  stream_version :: nat
  stream_entries :: "stream_entry list"
  stream_groups :: "stream_group list"
  stream_length :: u64
  lastId :: stream_id
  firstId :: "stream_id option"
  maxDeletedId :: "stream_id option"
  addedEntriesCount :: u64

section \<open>Objects\<close>

record base_object =
  db :: int
  obj_key :: bytes
  expiration :: "int option"
  obj_size :: int
  obj_type :: string
  obj_encoding :: string
  extra :: detail
  idleTime :: "int option"
  freq :: "int option"

definition empty_base :: base_object where
  "empty_base = \<lparr>db = 0, obj_key = [], expiration = None, obj_size = 0, obj_type = [],
     obj_encoding = [], extra = NoDetail, idleTime = None, freq = None\<rparr>"

text \<open>The value of a module object is whatever the registered handler returned (\<open>'v\<close>; nil is None).\<close>

datatype 'v redis_object =
    StringObject base_object bytes
  | ListObject base_object "bytes list"
  | HashObject base_object "bytes gomap" "int gomap"
  | SetObject base_object "bytes list"
  | ZSetObject base_object "(bytes \<times> f64) list"
  | StreamObject base_object stream
  | AuxObject base_object bytes
  | FunctionsObject base_object bytes
  | DBSizeObject base_object u64 u64
  | ModuleTypeObject base_object string "'v option"

fun base_of :: "'v redis_object \<Rightarrow> base_object" where
  "base_of (StringObject b _) = b"
| "base_of (ListObject b _) = b"
| "base_of (HashObject b _ _) = b"
| "base_of (SetObject b _) = b"
| "base_of (ZSetObject b _) = b"
| "base_of (StreamObject b _) = b"
| "base_of (AuxObject b _) = b"
| "base_of (FunctionsObject b _) = b"
| "base_of (DBSizeObject b _ _) = b"
| "base_of (ModuleTypeObject b _ _) = b"

text \<open>The assignment through the shared \<open>BaseObject\<close> pointer.\<close>

fun map_base :: "(base_object \<Rightarrow> base_object) \<Rightarrow> 'v redis_object \<Rightarrow> 'v redis_object" where
  "map_base f (StringObject b v) = StringObject (f b) v"
| "map_base f (ListObject b v) = ListObject (f b) v"
| "map_base f (HashObject b v e) = HashObject (f b) v e"
| "map_base f (SetObject b v) = SetObject (f b) v"
| "map_base f (ZSetObject b v) = ZSetObject (f b) v"
| "map_base f (StreamObject b v) = StreamObject (f b) v"
| "map_base f (AuxObject b v) = AuxObject (f b) v"
| "map_base f (FunctionsObject b v) = FunctionsObject (f b) v"
| "map_base f (DBSizeObject b k t) = DBSizeObject (f b) k t"
| "map_base f (ModuleTypeObject b t v) = ModuleTypeObject (f b) t v"

fun GetType :: "'v redis_object \<Rightarrow> string" where
  "GetType (StringObject _ _) = StringType"
| "GetType (ListObject _ _) = ListType"
| "GetType (HashObject _ _ _) = HashType"
| "GetType (SetObject _ _) = SetType"
| "GetType (ZSetObject _ _) = ZSetType"
| "GetType (StreamObject _ _) = StreamType"
| "GetType (AuxObject _ _) = AuxType"
| "GetType (FunctionsObject _ _) = FunctionsType"
| "GetType (DBSizeObject _ _ _) = DBSizeType"
| "GetType (ModuleTypeObject _ t _) = t"

fun GetElemCount :: "'v redis_object \<Rightarrow> nat" where
  "GetElemCount (ListObject _ vs) = length vs"
| "GetElemCount (HashObject _ h _) = length h"
| "GetElemCount (SetObject _ ms) = length ms"
| "GetElemCount (ZSetObject _ es) = length es"
| "GetElemCount _ = 0"

definition GetKey :: "'v redis_object \<Rightarrow> bytes" where "GetKey o1 = obj_key (base_of o1)"
definition GetDBIndex :: "'v redis_object \<Rightarrow> int" where "GetDBIndex o1 = db (base_of o1)"
definition GetEncoding :: "'v redis_object \<Rightarrow> string" where "GetEncoding o1 = obj_encoding (base_of o1)"
definition GetExpiration :: "'v redis_object \<Rightarrow> int option" where "GetExpiration o1 = expiration (base_of o1)"
definition GetSize :: "'v redis_object \<Rightarrow> int" where "GetSize o1 = obj_size (base_of o1)"

definition GetIdleTime :: "'v redis_object \<Rightarrow> int" where
  "GetIdleTime o1 = (case idleTime (base_of o1) of None \<Rightarrow> -1 | Some v \<Rightarrow> v)"

definition GetFreq :: "'v redis_object \<Rightarrow> int" where
  "GetFreq o1 = (case freq (base_of o1) of None \<Rightarrow> -1 | Some v \<Rightarrow> v)"

lemma base_of_map_base [simp]: "base_of (map_base f o1) = f (base_of o1)"
  by (cases o1) simp_all

lemma GetType_map_base [simp]: "GetType (map_base f o1) = GetType o1"
  by (cases o1) simp_all

lemma GetElemCount_map_base [simp]: "GetElemCount (map_base f o1) = GetElemCount o1"
  by (cases o1) simp_all

end
