(* ===== verification/Decoder.thy ===== *)
theory Decoder
  imports Strconv Lzf RdbModel
begin

text \<open>
  The decoder's state and its primitive readers (\<open>core/decoder.go\<close>, \<open>core/utils.go\<close>, the reading
  half of \<open>core/string.go\<close>). The reader under the decoder is the list of the bytes it still has to
  give. The scratch array \<open>dec.buffer\<close> is not part of the state: every use of it reads exactly the
  bytes that the call before it has just filled in, so \<open>readFull\<close> returns them. The handlers of
  \<open>WithSpecialType\<close> and \<open>strconv.ParseFloat\<close> are arguments of the definitions that use them.
\<close>

section \<open>State\<close>

record decoder =
  input :: bytes
  readCount :: nat
  withSpecialOpCode :: bool
  valkey :: bool
  rdbVersion :: int

type_synonym 'a dec = "(decoder, 'a) comp"

definition NewDecoder :: "bytes \<Rightarrow> decoder" where
  "NewDecoder reader = \<lparr>input = reader, readCount = 0, withSpecialOpCode = False, valkey = False,
     rdbVersion = 0\<rparr>"

definition WithSpecialOpCode :: "decoder \<Rightarrow> decoder" where
  "WithSpecialOpCode dec = dec\<lparr>withSpecialOpCode := True\<rparr>"

definition GetReadCount :: "decoder \<Rightarrow> nat" where
  "GetReadCount dec = readCount dec"

section \<open>Bytes\<close>

definition readByte :: "byte dec" where
  "readByte dec = (case input dec of
     [] \<Rightarrow> (Err IoEOF, dec)
   | b # rest \<Rightarrow> (Ok b, dec\<lparr>input := rest, readCount := readCount dec + 1\<rparr>))"

text \<open>\<open>io.ReadFull\<close>: what it could read is gone even when it fails; \<open>readCount\<close> then stays.\<close>

definition readFull :: "nat \<Rightarrow> bytes dec" where
  "readFull n dec =
     (if n \<le> length (input dec) then
        (Ok (take n (input dec)), dec\<lparr>input := drop n (input dec), readCount := readCount dec + n\<rparr>)
      else if input dec = [] then (Err IoEOF, dec)
      else (Err IoUnexpectedEOF, dec\<lparr>input := []\<rparr>))"

section \<open>Lengths, integers, strings\<close>

definition readLength :: "(u64 \<times> bool) dec" where
  "readLength =
     bind (wrap_err ''read length failed'' readByte) (\<lambda>firstByte.
     let lenType = drop_bit 6 (firstByte AND 0xc0) in
     if lenType = 0 then ret (ucast firstByte AND 0x3f, False)
     else if lenType = 1 then
       bind (wrap_err ''read len14Bit failed'' readByte) (\<lambda>nextByte.
       ret (push_bit 8 (ucast firstByte AND 0x3f) OR ucast nextByte, False))
     else if lenType = 2 then
       (if firstByte = 0x80 then
          bind (wrap_err ''read len32Bit failed'' (readFull 4)) (\<lambda>bs.
          ret (ucast (be_word bs :: u32), False))
        else if firstByte = 0x81 then
          bind (wrap_err ''read len64Bit failed'' (readFull 8)) (\<lambda>bs.
          ret (be_word bs, False))
        else throw (ErrMsg ''illegal length encoding''))
     else ret (ucast firstByte AND 0x3f, True))"

text \<open>\<open>n, _, err := dec.readLength()\<close>\<close>

definition readLen :: "u64 dec" where
  "readLen = bind readLength (\<lambda>(n, special). ret n)"

definition readInt16 :: "u16 dec" where
  "readInt16 = bind (wrap_err ''read uint16 error'' (readFull 2)) (\<lambda>bs. ret (le_word bs))"

definition readInt32 :: "u32 dec" where
  "readInt32 = bind (wrap_err ''read uint32 error'' (readFull 4)) (\<lambda>bs. ret (le_word bs))"

definition readInt64 :: "u64 dec" where
  "readInt64 = bind (wrap_err ''read uint64 error'' (readFull 8)) (\<lambda>bs. ret (le_word bs))"

definition readLZF :: "bytes dec" where
  "readLZF =
     bind readLen (\<lambda>inLen.
     bind readLen (\<lambda>outLen.
     seq (make_check 1 (uint inLen)) (
     bind (readFull (unat inLen)) (\<lambda>val.
     of_result (Decompress val (sint inLen) (sint outLen))))))"

definition readString :: "bytes dec" where
  "readString =
     bind readLength (\<lambda>(length, special).
     if special then
       (if length = 0 then bind readByte (\<lambda>b. ret (itoa (sint b)))
        else if length = 1 then bind readInt16 (\<lambda>b. ret (itoa (sint b)))
        else if length = 2 then bind readInt32 (\<lambda>b. ret (itoa (sint b)))
        else if length = 3 then readLZF
        else throw (ErrMsg ''Unknown string encode type ''))
     else seq (make_check 1 (uint length)) (readFull (unat length)))"

section \<open>Floats\<close>

definition f64_NegInf :: f64 where "f64_NegInf = 0xFFF0000000000000"
definition f64_Inf :: f64 where "f64_Inf = 0x7FF0000000000000"
definition f64_NaN :: f64 where "f64_NaN = 0x7FF8000000000001"

definition readLiteralFloat :: "(bytes \<Rightarrow> f64 option) \<Rightarrow> f64 dec" where
  "readLiteralFloat parseFloat =
     bind readByte (\<lambda>first.
     if first = 0xff then ret f64_NegInf
     else if first = 0xfe then ret f64_Inf
     else if first = 0xfd then ret f64_NaN
     else bind (readFull (unat first)) (\<lambda>buf.
       (case parseFloat buf of
          None \<Rightarrow> throw (ErrMsg [])
        | Some val \<Rightarrow> ret val)))"

definition readFloat :: "f64 dec" where
  "readFloat = bind (readFull 8) (\<lambda>bs. ret (le_word bs))"

definition readFloat32 :: "u32 dec" where
  "readFloat32 = bind (readFull 4) (\<lambda>bs. ret (le_word bs))"

section \<open>What a reader may do to the input\<close>

text \<open>
  \<open>consumes m\<close>: whatever \<open>m\<close> returns, it has taken a prefix off the input and left the configuration
  alone; \<open>readCount\<close> has grown by the length of that prefix, except that a failed \<open>readFull\<close> at the
  end of the input does not count what it dropped.
\<close>

named_theorems consumes_intros \<open>readers that only consume input\<close>

definition took :: "decoder \<Rightarrow> bytes \<Rightarrow> decoder \<Rightarrow> bool \<Rightarrow> bool" where
  "took d p d' counted \<longleftrightarrow> input d = p @ input d' \<and>
     withSpecialOpCode d' = withSpecialOpCode d \<and> valkey d' = valkey d \<and> rdbVersion d' = rdbVersion d \<and>
     readCount d' \<le> readCount d + length p \<and>
     (counted \<or> input d' \<noteq> [] \<longrightarrow> readCount d' = readCount d + length p)"

definition consumes :: "'a dec \<Rightarrow> bool" where
  "consumes m \<longleftrightarrow> (\<forall>d r d'. m d = (r, d') \<longrightarrow> (\<exists>p. took d p d' (\<exists>a. r = Ok a)))"

lemma took_refl: "took d [] d c"
  by (simp add: took_def)

lemma took_trans:
  assumes "took d p d' True" and "took d' q d'' c"
  shows "took d (p @ q) d'' c"
  using assms by (auto simp: took_def)

lemma took_weaken: "took d p d' True \<Longrightarrow> took d p d' c"
  by (auto simp: took_def)

lemma consumesI: "(\<And>d r d'. m d = (r, d') \<Longrightarrow> \<exists>p. took d p d' (\<exists>a. r = Ok a)) \<Longrightarrow> consumes m"
  by (auto simp: consumes_def)

lemma consumesD: "consumes m \<Longrightarrow> m d = (r, d') \<Longrightarrow> \<exists>p. took d p d' (\<exists>a. r = Ok a)"
  unfolding consumes_def by blast

lemma consumes_ret [consumes_intros]: "consumes (ret a)"
  by (rule consumesI) (auto simp: ret_def intro: took_refl)

lemma consumes_throw [consumes_intros]: "consumes (throw e)"
  by (rule consumesI) (auto simp: throw_def intro: took_refl)

lemma consumes_panic [consumes_intros]: "consumes (panic p)"
  by (rule consumesI) (auto simp: panic_def intro: took_refl)

lemma consumes_of_result [consumes_intros]: "consumes (of_result r)"
  by (rule consumesI) (auto simp: of_result_def intro: took_refl)

lemma consumes_gets [consumes_intros]: "consumes (gets f)"
  by (rule consumesI) (auto simp: gets_def intro: took_refl)

lemma consumes_make_check [consumes_intros]: "consumes (make_check k n)"
  unfolding make_check_def by (auto intro: consumes_intros)

lemma consumes_guard [consumes_intros]: "consumes (guard b e)"
  unfolding guard_def by (auto intro: consumes_intros)

lemma consumes_bind [consumes_intros]:
  assumes m: "consumes m" and f: "\<And>a. consumes (f a)"
  shows "consumes (bind m f)"
proof (rule consumesI)
  fix d r d'' assume run: "bind m f d = (r, d'')"
  obtain r1 d1 where m1: "m d = (r1, d1)" by fastforce
  from consumesD [OF m m1] obtain p where p: "took d p d1 (\<exists>a. r1 = Ok a)" by blast
  show "\<exists>p. took d p d'' (\<exists>a. r = Ok a)"
  proof (cases r1)
    case (Ok a)
    with run m1 have "f a d1 = (r, d'')" by (simp add: bind_Ok)
    from consumesD [OF f this] obtain q where "took d1 q d'' (\<exists>a. r = Ok a)" by blast
    with p Ok show ?thesis by (auto intro: took_trans)
  qed (use run m1 p in \<open>auto simp: bind_def\<close>)
qed

lemma consumes_seq [consumes_intros]: "consumes m \<Longrightarrow> consumes n \<Longrightarrow> consumes (seq m n)"
  unfolding seq_def by (rule consumes_bind)

lemma consumes_wrap_err [consumes_intros]:
  assumes "consumes m"
  shows "consumes (wrap_err msg m)"
proof (rule consumesI)
  fix d r d' assume run: "wrap_err msg m d = (r, d')"
  obtain r1 d1 where m1: "m d = (r1, d1)" by fastforce
  from consumesD [OF assms m1] run m1 show "\<exists>p. took d p d' (\<exists>a. r = Ok a)"
    by (cases r1) (auto simp: wrap_err_def)
qed

lemma consumes_if [consumes_intros]: "consumes m \<Longrightarrow> consumes n \<Longrightarrow> consumes (if b then m else n)"
  by simp

lemma consumes_case_prod [consumes_intros]: "(\<And>a b. consumes (f a b)) \<Longrightarrow> consumes (case x of (a, b) \<Rightarrow> f a b)"
  by (cases x) simp

lemma consumes_case_option [consumes_intros]:
  "consumes m \<Longrightarrow> (\<And>a. consumes (f a)) \<Longrightarrow> consumes (case x of None \<Rightarrow> m | Some a \<Rightarrow> f a)"
  by (cases x) simp_all

lemma consumes_Let [consumes_intros]: "(\<And>x. consumes (f x)) \<Longrightarrow> consumes (let x = a in f x)"
  by simp

lemma consumes_repeat [consumes_intros]: "consumes m \<Longrightarrow> consumes (repeat_comp n m)"
  by (induction n) (auto intro!: consumes_intros)

lemma consumes_iter [consumes_intros]:
  assumes "\<And>a. consumes (f a)"
  shows "consumes (iter_comp n f a)"
proof (induction n arbitrary: a)
  case (Suc n)
  have "iter_comp n f = (\<lambda>a. iter_comp n f a)" by simp
  then show ?case using assms Suc by (auto intro: consumes_intros)
qed (simp add: consumes_ret)

lemma consumes_readByte [consumes_intros]: "consumes readByte"
  by (rule consumesI) (auto simp: readByte_def took_def split: list.splits)

lemma consumes_readFull [consumes_intros]: "consumes (readFull n)"
proof (rule consumesI)
  fix d r d' assume run: "readFull n d = (r, d')"
  show "\<exists>p. took d p d' (\<exists>a. r = Ok a)"
  proof (cases "n \<le> length (input d)")
    case True
    with run have "took d (take n (input d)) d' (\<exists>a. r = Ok a)"
      by (auto simp: readFull_def took_def min_absorb2)
    then show ?thesis by blast
  next
    case False
    with run have "took d (input d) d' (\<exists>a. r = Ok a)"
      by (auto simp: readFull_def took_def split: if_splits)
    then show ?thesis by blast
  qed
qed

lemma consumes_readLength [consumes_intros]: "consumes readLength"
  unfolding readLength_def by (intro consumes_intros)

lemma consumes_readLen [consumes_intros]: "consumes readLen"
  unfolding readLen_def by (intro consumes_intros)

lemma consumes_readInts [consumes_intros]: "consumes readInt16" "consumes readInt32" "consumes readInt64"
  unfolding readInt16_def readInt32_def readInt64_def by (intro consumes_intros)+

lemma consumes_readLZF [consumes_intros]: "consumes readLZF"
  unfolding readLZF_def by (intro consumes_intros)

lemma consumes_readString [consumes_intros]: "consumes readString"
  unfolding readString_def by (intro consumes_intros)

lemma consumes_readFloats [consumes_intros]:
  "consumes (readLiteralFloat pf)" "consumes readFloat" "consumes readFloat32"
  unfolding readLiteralFloat_def readFloat_def readFloat32_def by (intro consumes_intros)+

section \<open>Readers that parse\<close>

text \<open>
  \<open>parses m bs x\<close>: in front of any rest, \<open>m\<close> takes exactly the bytes \<open>bs\<close> and returns \<open>x\<close>.
\<close>

named_theorems parses_intros \<open>how parsing composes\<close>

definition advance :: "bytes \<Rightarrow> bytes \<Rightarrow> decoder \<Rightarrow> decoder" where
  "advance bs rest d = d\<lparr>input := rest, readCount := readCount d + length bs\<rparr>"

definition parses :: "'a dec \<Rightarrow> bytes \<Rightarrow> 'a \<Rightarrow> bool" where
  "parses m bs x \<longleftrightarrow> (\<forall>d rest. input d = bs @ rest \<longrightarrow> m d = (Ok x, advance bs rest d))"

lemma parsesI: "(\<And>d rest. input d = bs @ rest \<Longrightarrow> m d = (Ok x, advance bs rest d)) \<Longrightarrow> parses m bs x"
  by (simp add: parses_def)

lemma parsesD: "parses m bs x \<Longrightarrow> input d = bs @ rest \<Longrightarrow> m d = (Ok x, advance bs rest d)"
  by (simp add: parses_def)

lemma input_advance [simp]: "input (advance bs rest d) = rest"
  by (simp add: advance_def)

lemma advance_advance [simp]: "advance cs rest' (advance bs rest d) = advance (bs @ cs) rest' d"
  by (simp add: advance_def)

lemma advance_Nil: "input d = rest \<Longrightarrow> advance [] rest d = d"
  by (simp add: advance_def)

lemma advance_config [simp]:
  "withSpecialOpCode (advance bs rest d) = withSpecialOpCode d"
  "valkey (advance bs rest d) = valkey d" "rdbVersion (advance bs rest d) = rdbVersion d"
  "readCount (advance bs rest d) = readCount d + length bs"
  by (simp_all add: advance_def)

lemma parses_ret: "parses (ret x) [] x"
  by (rule parsesI) (simp add: ret_def advance_Nil)

lemma parses_bind:
  assumes "parses m bs x" and "parses (f x) cs y"
  shows "parses (bind m f) (bs @ cs) y"
proof (rule parsesI)
  fix d :: decoder and rest assume "input d = (bs @ cs) @ rest"
  then have "m d = (Ok x, advance bs (cs @ rest) d)" using assms(1) by (simp add: parses_def)
  then show "bind m f d = (Ok y, advance (bs @ cs) rest d)"
    using parsesD [OF assms(2), of "advance bs (cs @ rest) d" rest] by (simp add: bind_Ok)
qed

lemma parses_bind_eq: "parses m bs x \<Longrightarrow> parses (f x) cs y \<Longrightarrow> ds = bs @ cs \<Longrightarrow> parses (bind m f) ds y"
  by (simp add: parses_bind)

lemma parses_bind_ret: "parses m bs x \<Longrightarrow> f x = ret y \<Longrightarrow> parses (bind m f) bs y"
  using parses_bind [of m bs x f "[]" y] by (simp add: parses_ret)

lemma parses_seq: "parses m bs x \<Longrightarrow> parses n cs y \<Longrightarrow> parses (seq m n) (bs @ cs) y"
  unfolding seq_def by (rule parses_bind)

lemma parses_guard: "b \<Longrightarrow> parses m bs x \<Longrightarrow> parses (seq (guard b e) m) bs x"
  using parses_seq [of "guard b e" "[]" "()" m bs x] by (simp add: guard_def parses_ret)

lemma parses_make_check:
  assumes "0 \<le> n" and "k * n \<le> max_alloc" and "parses m bs x"
  shows "parses (seq (make_check k n) m) bs x"
  using parses_seq [of "make_check k n" "[]" "()" m bs x] assms by (simp add: make_check_def parses_ret)

lemma parses_wrap_err: "parses m bs x \<Longrightarrow> parses (wrap_err msg m) bs x"
  by (simp add: parses_def wrap_err_def)

lemma parses_of_result: "r = Ok x \<Longrightarrow> parses (of_result r) [] x"
  by (rule parsesI) (simp add: of_result_def advance_Nil)

lemma parses_readByte: "parses readByte [b] b"
  by (rule parsesI) (simp add: readByte_def advance_def)

lemma parses_readFull: "parses (readFull (length bs)) bs bs"
  by (rule parsesI) (simp add: readFull_def advance_def)

lemma parses_readFull_eq: "length bs = n \<Longrightarrow> parses (readFull n) bs bs"
  using parses_readFull [of bs] by simp

lemma parses_repeat:
  assumes "\<And>x. x \<in> set xs \<Longrightarrow> parses m (enc x) x"
  shows "parses (repeat_comp (length xs) m) (concat (map enc xs)) xs"
  using assms
proof (induction xs)
  case Nil
  then show ?case by (simp add: parses_ret)
next
  case (Cons x xs)
  then have "parses (bind (repeat_comp (length xs) m) (\<lambda>ys. ret (x # ys))) (concat (map enc xs)) (x # xs)"
    by (intro parses_bind_ret) auto
  with Cons.prems show ?case by (auto intro: parses_bind)
qed

lemma parses_iter:
  assumes "\<And>a x. x \<in> set xs \<Longrightarrow> parses (f a) (enc x) (g a x)"
  shows "parses (iter_comp (length xs) f a) (concat (map enc xs)) (foldl g a xs)"
  using assms
proof (induction xs arbitrary: a)
  case Nil
  then show ?case by (simp add: parses_ret)
next
  case (Cons x xs)
  have "parses (f a) (enc x) (g a x)" using Cons.prems by simp
  moreover have "parses (iter_comp (length xs) f (g a x)) (concat (map enc xs)) (foldl g (g a x) xs)"
    using Cons.prems by (intro Cons.IH) simp
  ultimately show ?case by (auto intro: parses_bind)
qed

end
