(* ===== verification/Crc64.thy ===== *)
theory Crc64
  imports Prelude
begin

text \<open>
  Package \<open>crc64jones\<close> (\<open>crc64jones/crc64.go\<close>): the checksum that closes an RDB file. The code
  computes it with lookup tables, eight bytes at a time; the specification below divides by the
  polynomial bit by bit. \<open>crc_update_spec\<close> says that both give the same value for every polynomial and
  every input, \<open>digest_write_blocks\<close> that the digest does not depend on how the input was split into
  writes, and \<open>checksum_golden\<close> evaluates the check value of the algorithm.
\<close>

section \<open>Tables\<close>

definition Jones :: u64 where
  "Jones = 0xad93d23594c935a9"

text \<open>The loop of \<open>reflect\<close>: \<open>poly >>= 1; x <<= 1; x |= poly & 1\<close>, 63 times.\<close>

primrec reflect_loop :: "nat \<Rightarrow> u64 \<Rightarrow> u64 \<Rightarrow> u64" where
  "reflect_loop 0 poly x = x"
| "reflect_loop (Suc n) poly x =
     (let poly' = drop_bit 1 poly in reflect_loop n poly' (push_bit 1 x OR (poly' AND 1)))"

definition reflect :: "u64 \<Rightarrow> u64" where
  "reflect poly = reflect_loop 63 poly (poly AND 1)"

text \<open>\<open>crc64.MakeTable\<close> of the standard library: eight division steps on every byte value.\<close>

definition crc_bit :: "u64 \<Rightarrow> u64 \<Rightarrow> u64" where
  "crc_bit poly crc = (if crc AND 1 = 1 then drop_bit 1 crc XOR poly else drop_bit 1 crc)"

definition make_table :: "u64 \<Rightarrow> u64 list" where
  "make_table poly = map (\<lambda>i. (crc_bit poly ^^ 8) (of_nat i)) [0..<256]"

definition table :: "u64 list" where
  "table = make_table (reflect Jones)"

definition table_step :: "u64 list \<Rightarrow> u64 \<Rightarrow> u64" where
  "table_step t crc = t ! unat (crc AND 0xff) XOR drop_bit 8 crc"

primrec slicing_entry :: "u64 list \<Rightarrow> nat \<Rightarrow> nat \<Rightarrow> u64" where
  "slicing_entry t i 0 = t ! i"
| "slicing_entry t i (Suc j) = table_step t (slicing_entry t i j)"

definition makeSlicingBy8Table :: "u64 list \<Rightarrow> u64 list list" where
  "makeSlicingBy8Table t = map (\<lambda>j. map (\<lambda>i. slicing_entry t i j) [0..<256]) [0..<8]"

definition slicing8TableJones :: "u64 list list" where
  "slicing8TableJones = makeSlicingBy8Table table"

section \<open>Update\<close>

definition slicing8_step :: "u64 list list \<Rightarrow> u64 \<Rightarrow> bytes \<Rightarrow> u64" where
  "slicing8_step helper crc0 p =
     (let crc = crc0 XOR le_word (take 8 p) in
      helper ! 7 ! unat (crc AND 0xff) XOR
      helper ! 6 ! unat (drop_bit 8 crc AND 0xff) XOR
      helper ! 5 ! unat (drop_bit 16 crc AND 0xff) XOR
      helper ! 4 ! unat (drop_bit 24 crc AND 0xff) XOR
      helper ! 3 ! unat (drop_bit 32 crc AND 0xff) XOR
      helper ! 2 ! unat (drop_bit 40 crc AND 0xff) XOR
      helper ! 1 ! unat (drop_bit 48 crc AND 0xff) XOR
      helper ! 0 ! unat (drop_bit 56 crc))"

text \<open>The inner loop \<open>for len(p) > 8\<close>.\<close>

function slicing8 :: "u64 list list \<Rightarrow> u64 \<Rightarrow> bytes \<Rightarrow> u64 \<times> bytes" where
  "slicing8 helper crc p =
     (if 8 < length p then slicing8 helper (slicing8_step helper crc p) (drop 8 p) else (crc, p))"
  by pat_completeness auto
termination
  by (relation "measure (\<lambda>(helper, crc, p). length p)") auto

declare slicing8.simps [simp del]

lemma length_slicing8: "length (snd (slicing8 helper crc p)) \<le> min 8 (length p)"
proof (induction helper crc p rule: slicing8.induct)
  case (1 helper crc p)
  then show ?case by (subst slicing8.simps) auto
qed

text \<open>The outer loop \<open>for len(p) >= 64\<close>, with its choice of the helper table.\<close>

function update_blocks :: "u64 list \<Rightarrow> u64 \<Rightarrow> bytes \<Rightarrow> u64 \<times> bytes" where
  "update_blocks tab crc p =
     (if 64 \<le> length p then
        (if tab = slicing8TableJones ! 0 then
           (case slicing8 slicing8TableJones crc p of (crc', p') \<Rightarrow> update_blocks tab crc' p')
         else if 2048 \<le> length p then
           (case slicing8 (makeSlicingBy8Table tab) crc p of (crc', p') \<Rightarrow> update_blocks tab crc' p')
         else (crc, p))
      else (crc, p))"
  by pat_completeness auto
termination
proof (relation "measure (\<lambda>(tab, crc, p). length p)")
  fix tab crc p crc' p' assume "64 \<le> length p" "(crc', p') = slicing8 slicing8TableJones crc p"
  with length_slicing8 [of slicing8TableJones crc p]
  show "((tab, crc', p'), tab, crc, p) \<in> measure (\<lambda>(tab, crc, p). length p)" by (cases "slicing8 slicing8TableJones crc p") simp
next
  fix tab crc p crc' p' assume "64 \<le> length p" "(crc', p') = slicing8 (makeSlicingBy8Table tab) crc p"
  with length_slicing8 [of "makeSlicingBy8Table tab" crc p]
  show "((tab, crc', p'), tab, crc, p) \<in> measure (\<lambda>(tab, crc, p). length p)"
    by (cases "slicing8 (makeSlicingBy8Table tab) crc p") simp
qed auto

declare update_blocks.simps [simp del]

definition crc_byte :: "u64 list \<Rightarrow> u64 \<Rightarrow> byte \<Rightarrow> u64" where
  "crc_byte tab crc v = tab ! unat ((ucast crc :: byte) XOR v) XOR drop_bit 8 crc"

definition crc_update :: "u64 \<Rightarrow> u64 list \<Rightarrow> bytes \<Rightarrow> u64" where
  "crc_update crc tab p = (case update_blocks tab crc p of (crc', p') \<Rightarrow> foldl (crc_byte tab) crc' p')"

text \<open>The digest over the package's own table: \<open>Write\<close>, \<open>Sum\<close> (little endian) and \<open>Checksum\<close>.\<close>

definition digest_write :: "u64 \<Rightarrow> bytes \<Rightarrow> u64" where
  "digest_write crc p = crc_update crc table p"

definition digest_sum :: "u64 \<Rightarrow> bytes" where
  "digest_sum crc = le_bytes 8 crc"

definition checksum :: "bytes \<Rightarrow> u64 list \<Rightarrow> u64" where
  "checksum data tab = crc_update 0 tab data"

section \<open>The specification: division bit by bit\<close>

definition crc_spec :: "u64 \<Rightarrow> u64 \<Rightarrow> bytes \<Rightarrow> u64" where
  "crc_spec poly = foldl (\<lambda>crc v. (crc_bit poly ^^ 8) (crc XOR ucast v))"


section \<open>Table lookup is eight division steps\<close>

lemma and_1_eq: "(a :: u64) AND 1 = 1 \<longleftrightarrow> bit a 0"
  by (simp add: and_one_eq mod_2_eq_odd bit_0)

lemma crc_bit_alt: "crc_bit poly a = (if bit a 0 then drop_bit 1 a XOR poly else drop_bit 1 a)"
  by (simp only: crc_bit_def and_1_eq)

lemma and_ff: "x AND 0xff = take_bit 8 (x :: u64)"
  by (simp add: take_bit_eq_mask mask_eq_exp_minus_1)

lemma crc_bit_0 [simp]: "crc_bit poly 0 = 0"
  by (simp add: crc_bit_def)

lemma crc_bit_xor: "crc_bit poly (a XOR b) = crc_bit poly a XOR crc_bit poly b"
  unfolding crc_bit_alt by (auto simp: bit_xor_iff drop_bit_xor ac_simps simp del: bit_0)

lemma crc_bits_0 [simp]: "(crc_bit poly ^^ n) 0 = 0"
  by (induction n) simp_all

lemma crc_bits_xor: "(crc_bit poly ^^ n) (a XOR b) = (crc_bit poly ^^ n) a XOR (crc_bit poly ^^ n) b"
  by (induction n) (simp_all add: crc_bit_xor)

lemma crc_bit_even: "\<not> bit a 0 \<Longrightarrow> crc_bit poly a = drop_bit 1 a"
  by (simp add: crc_bit_alt)

text \<open>Eight steps shift out the high bytes of a value unchanged.\<close>

lemma crc_bits_shift:
  assumes "n \<le> 8"
  shows "(crc_bit poly ^^ n) (push_bit n (drop_bit 8 x)) = drop_bit 8 x"
  using assms
proof (induction n)
  case 0
  then show ?case by simp
next
  case (Suc n)
  have "crc_bit poly (push_bit (Suc n) (drop_bit 8 x)) = drop_bit 1 (push_bit (Suc n) (drop_bit 8 x))"
    by (rule crc_bit_even) (simp only: bit_push_bit_iff, simp)
  also have "\<dots> = push_bit n (drop_bit 8 x)"
    using Suc.prems by (intro bit_word_eqI) (auto simp: bit_simps simp del: push_bit_Suc dest: bit_imp_le_length)
  finally show ?case using Suc by (simp add: funpow_swap1)
qed

definition crc_step8 :: "u64 \<Rightarrow> u64 \<Rightarrow> u64" where
  "crc_step8 poly x = (crc_bit poly ^^ 8) x"

lemma crc_step8_0 [simp]: "crc_step8 poly 0 = 0"
  unfolding crc_step8_def by (rule crc_bits_0)

lemma crc_step8_xor: "crc_step8 poly (a XOR b) = crc_step8 poly a XOR crc_step8 poly b"
  unfolding crc_step8_def by (rule crc_bits_xor)

lemma crc_steps8_xor: "(crc_step8 poly ^^ n) (a XOR b) = (crc_step8 poly ^^ n) a XOR (crc_step8 poly ^^ n) b"
  by (induction n) (simp_all add: crc_step8_xor)

lemma crc_step8_shift: "crc_step8 poly (push_bit 8 (drop_bit 8 x)) = drop_bit 8 x"
  unfolding crc_step8_def by (rule crc_bits_shift) simp

lemma word_split_low_byte: "x = (x AND 0xff) XOR push_bit 8 (drop_bit 8 (x :: u64))"
  unfolding and_ff by (rule bit_word_eqI) (auto simp: bit_simps)

lemma crc_step8_split: "crc_step8 poly x = crc_step8 poly (x AND 0xff) XOR drop_bit 8 x"
proof -
  have "crc_step8 poly x = crc_step8 poly ((x AND 0xff) XOR push_bit 8 (drop_bit 8 x))"
    using word_split_low_byte [of x] by simp
  then show ?thesis by (simp add: crc_step8_xor crc_step8_shift)
qed

lemma length_make_table [simp]: "length (make_table poly) = 256"
  by (simp add: make_table_def)

lemma unat_and_ff_less: "unat (x AND 0xff :: u64) < 256"
proof -
  have "x AND 0xff \<le> 0xff" by (rule word_and_le1)
  then show ?thesis by (simp add: word_le_nat_alt)
qed

lemma make_table_nth: "i < 256 \<Longrightarrow> make_table poly ! i = crc_step8 poly (of_nat i)"
  by (simp add: make_table_def crc_step8_def)

lemma table_step_make_table: "table_step (make_table poly) x = crc_step8 poly x"
  using unat_and_ff_less [of x] crc_step8_split [of poly x]
  by (simp add: table_step_def make_table_nth)

lemma ucast_byte_and: "ucast (ucast (x :: u64) :: byte) = x AND 0xff"
  unfolding and_ff by (rule bit_word_eqI) (auto simp: bit_simps)

lemma crc_byte_make_table: "crc_byte (make_table poly) crc v = crc_step8 poly (crc XOR ucast v)"
proof -
  define b where "b = (ucast crc :: byte) XOR v"
  have lo: "(crc XOR ucast v) AND 0xff = (ucast b :: u64)"
  proof -
    have "(crc XOR ucast v) AND 0xff = ucast (ucast (crc XOR ucast v) :: byte)"
      by (simp add: ucast_byte_and)
    also have "ucast (crc XOR ucast v) = b"
      by (rule bit_word_eqI) (auto simp: b_def bit_simps)
    finally show ?thesis .
  qed
  have hi: "drop_bit 8 (ucast v :: u64) = 0"
    by (rule bit_word_eqI) (auto simp: bit_simps dest: bit_imp_le_length)
  have "unat b < 256" using unsigned_less [of b] by simp
  then have "make_table poly ! unat b = crc_step8 poly (ucast b)"
    by (simp add: make_table_nth unsigned_of_nat)
  then show ?thesis
    using crc_step8_split [of poly "crc XOR ucast v"]
    by (simp add: crc_byte_def b_def [symmetric] lo hi drop_bit_xor)
qed

lemma foldl_crc_byte: "foldl (crc_byte (make_table poly)) crc p = crc_spec poly crc p"
  unfolding crc_spec_def
  by (rule arg_cong [of _ _ "\<lambda>f. foldl f crc p"], intro ext)
    (simp only: crc_byte_make_table crc_step8_def)

section \<open>Slicing by eight is eight bytes of division\<close>

lemma slicing_entry_make_table:
  "i < 256 \<Longrightarrow> slicing_entry (make_table poly) i j = (crc_step8 poly ^^ Suc j) (of_nat i)"
  by (induction j) (simp_all add: make_table_nth table_step_make_table)

lemma makeSlicing_nth:
  "i < 256 \<Longrightarrow> j < 8 \<Longrightarrow>
   makeSlicingBy8Table (make_table poly) ! j ! i = (crc_step8 poly ^^ Suc j) (of_nat i)"
  by (simp add: makeSlicingBy8Table_def slicing_entry_make_table)

lemma makeSlicing_nth_byte:
  "j < 8 \<Longrightarrow>
   makeSlicingBy8Table (make_table poly) ! j ! unat (x AND 0xff) = (crc_step8 poly ^^ Suc j) (x AND 0xff)"
  using makeSlicing_nth [OF unat_and_ff_less, of j poly x] by simp

lemma makeSlicing_0: "makeSlicingBy8Table (make_table poly) ! 0 = make_table poly"
  by (rule nth_equalityI) (simp_all add: makeSlicingBy8Table_def)

lemma crc_steps8_split:
  "(crc_step8 poly ^^ Suc n) x = (crc_step8 poly ^^ Suc n) (x AND 0xff) XOR (crc_step8 poly ^^ n) (drop_bit 8 x)"
proof -
  have "(crc_step8 poly ^^ Suc n) x = (crc_step8 poly ^^ n) (crc_step8 poly x)"
    by (simp add: funpow_swap1)
  also have "\<dots> = (crc_step8 poly ^^ n) (crc_step8 poly (x AND 0xff) XOR drop_bit 8 x)"
    by (simp flip: crc_step8_split)
  finally show ?thesis by (simp add: crc_steps8_xor funpow_swap1)
qed

lemma crc_steps8_shift:
  "length ps \<le> n \<Longrightarrow> n \<le> 8 \<Longrightarrow>
   foldl (\<lambda>crc v. crc_step8 poly (crc XOR ucast v)) crc ps = (crc_step8 poly ^^ length ps) (crc XOR le_word ps)"
proof (induction ps arbitrary: crc n)
  case Nil
  then show ?case by simp
next
  case (Cons p ps)
  have le: "(le_word ps :: u64) = drop_bit 8 (push_bit 8 (le_word ps))"
    using Cons.prems by (intro bit_word_eqI) (auto simp: bit_simps bit_le_word)
  have "crc XOR le_word (p # ps) = (crc XOR ucast p) XOR push_bit 8 (le_word ps)"
    by (rule bit_word_eqI) (auto simp: bit_simps bit_le_word dest: bit_imp_le_length)
  then have "crc_step8 poly (crc XOR le_word (p # ps)) =
      crc_step8 poly (crc XOR ucast p) XOR crc_step8 poly (push_bit 8 (le_word ps))"
    by (simp add: crc_step8_xor)
  also have "crc_step8 poly (push_bit 8 (le_word ps)) = le_word ps"
    using crc_step8_shift [of poly "push_bit 8 (le_word ps)"] le by simp
  finally have "crc_step8 poly (crc XOR le_word (p # ps)) = crc_step8 poly (crc XOR ucast p) XOR le_word ps" .
  moreover have "foldl (\<lambda>crc v. crc_step8 poly (crc XOR ucast v)) (crc_step8 poly (crc XOR ucast p)) ps
      = (crc_step8 poly ^^ length ps) (crc_step8 poly (crc XOR ucast p) XOR le_word ps)"
    using Cons.prems by (intro Cons.IH [of "n - 1"]) auto
  ultimately show ?case by (simp add: funpow_swap1)
qed

lemma drop_bit_56_and: "drop_bit 56 (x :: u64) = drop_bit 56 x AND 0xff"
  unfolding and_ff by (rule bit_word_eqI) (auto simp: bit_simps dest: bit_imp_le_length)

definition crc_steps :: "u64 \<Rightarrow> nat \<Rightarrow> u64 \<Rightarrow> u64" where
  "crc_steps poly n x = (crc_step8 poly ^^ n) x"

lemma crc_steps_split:
  "crc_steps poly (Suc n) x = crc_steps poly (Suc n) (x AND 0xff) XOR crc_steps poly n (drop_bit 8 x)"
  unfolding crc_steps_def by (rule crc_steps8_split)

lemma crc_steps_0 [simp]: "crc_steps poly 0 x = x"
  by (simp add: crc_steps_def)

lemma crc_steps_split_all:
  "crc_steps poly 8 x =
     crc_steps poly 8 (x AND 0xff) XOR
     crc_steps poly 7 (drop_bit 8 x AND 0xff) XOR
     crc_steps poly 6 (drop_bit 16 x AND 0xff) XOR
     crc_steps poly 5 (drop_bit 24 x AND 0xff) XOR
     crc_steps poly 4 (drop_bit 32 x AND 0xff) XOR
     crc_steps poly 3 (drop_bit 40 x AND 0xff) XOR
     crc_steps poly 2 (drop_bit 48 x AND 0xff) XOR
     crc_steps poly 1 (drop_bit 56 x AND 0xff)"
proof -
  have split: "crc_steps poly m y = crc_steps poly m (y AND 0xff) XOR crc_steps poly n (drop_bit 8 y)"
    if "m = Suc n" for m n y
    unfolding that by (rule crc_steps_split)
  have s8: "crc_steps poly 8 x = crc_steps poly 8 (x AND 0xff) XOR crc_steps poly 7 (drop_bit 8 x)"
    by (rule split) simp
  have s7: "crc_steps poly 7 (drop_bit 8 x) =
      crc_steps poly 7 (drop_bit 8 x AND 0xff) XOR crc_steps poly 6 (drop_bit 16 x)"
    using split [of 7 6 "drop_bit 8 x"] by (simp add: drop_bit_drop_bit)
  have s6: "crc_steps poly 6 (drop_bit 16 x) =
      crc_steps poly 6 (drop_bit 16 x AND 0xff) XOR crc_steps poly 5 (drop_bit 24 x)"
    using split [of 6 5 "drop_bit 16 x"] by (simp add: drop_bit_drop_bit)
  have s5: "crc_steps poly 5 (drop_bit 24 x) =
      crc_steps poly 5 (drop_bit 24 x AND 0xff) XOR crc_steps poly 4 (drop_bit 32 x)"
    using split [of 5 4 "drop_bit 24 x"] by (simp add: drop_bit_drop_bit)
  have s4: "crc_steps poly 4 (drop_bit 32 x) =
      crc_steps poly 4 (drop_bit 32 x AND 0xff) XOR crc_steps poly 3 (drop_bit 40 x)"
    using split [of 4 3 "drop_bit 32 x"] by (simp add: drop_bit_drop_bit)
  have s3: "crc_steps poly 3 (drop_bit 40 x) =
      crc_steps poly 3 (drop_bit 40 x AND 0xff) XOR crc_steps poly 2 (drop_bit 48 x)"
    using split [of 3 2 "drop_bit 40 x"] by (simp add: drop_bit_drop_bit)
  have s2: "crc_steps poly 2 (drop_bit 48 x) =
      crc_steps poly 2 (drop_bit 48 x AND 0xff) XOR crc_steps poly 1 (drop_bit 56 x)"
    using split [of 2 1 "drop_bit 48 x"] by (simp add: drop_bit_drop_bit)
  have s1: "crc_steps poly 1 (drop_bit 56 x) =
      crc_steps poly 1 (drop_bit 56 x AND 0xff) XOR crc_steps poly 0 (drop_bit 64 x)"
    using split [of 1 0 "drop_bit 56 x"] by (simp add: drop_bit_drop_bit)
  have "drop_bit 64 x = 0" by (rule bit_word_eqI) (auto simp: bit_simps dest: bit_imp_le_length)
  then have s0: "crc_steps poly 0 (drop_bit 64 x) = 0" by (simp only: crc_steps_0)
  show ?thesis
    by (subst s8, subst s7, subst s6, subst s5, subst s4, subst s3, subst s2, subst s1, subst s0)
      (simp only: xor.right_neutral)
qed

lemma makeSlicing_steps:
  assumes "m = Suc j" and "j < 8"
  shows "makeSlicingBy8Table (make_table poly) ! j ! unat (x AND 0xff) = crc_steps poly m (x AND 0xff)"
  unfolding crc_steps_def assms(1) using assms(2) by (rule makeSlicing_nth_byte)

lemma slicing8_step_steps:
  "slicing8_step (makeSlicingBy8Table (make_table poly)) crc p = crc_steps poly 8 (crc XOR le_word (take 8 p))"
proof -
  let ?h = "makeSlicingBy8Table (make_table poly)"
  define x where "x = crc XOR le_word (take 8 p)"
  have 0: "?h ! 0 ! unat (drop_bit 56 x) = crc_steps poly 1 (drop_bit 56 x AND 0xff)"
    using makeSlicing_steps [of 1 0 poly "drop_bit 56 x"] drop_bit_56_and [of x] by simp
  have 1: "?h ! 1 ! unat (drop_bit 48 x AND 0xff) = crc_steps poly 2 (drop_bit 48 x AND 0xff)"
    by (rule makeSlicing_steps) simp_all
  show ?thesis
    unfolding slicing8_step_def Let_def x_def [symmetric] crc_steps_split_all [of poly x] 0
      makeSlicing_steps [of 8 7, simplified] makeSlicing_steps [of 7 6, simplified]
      makeSlicing_steps [of 6 5, simplified] makeSlicing_steps [of 5 4, simplified]
      makeSlicing_steps [of 4 3, simplified] makeSlicing_steps [of 3 2, simplified]
      1
    by (rule refl)
qed

lemma slicing8_step_make_table:
  assumes "8 \<le> length p"
  shows "slicing8_step (makeSlicingBy8Table (make_table poly)) crc p = crc_spec poly crc (take 8 p)"
proof -
  have "crc_spec poly crc (take 8 p) = crc_steps poly 8 (crc XOR le_word (take 8 p))"
    using crc_steps8_shift [of "take 8 p" 8 poly crc] assms
    by (simp add: crc_spec_def crc_step8_def crc_steps_def min_absorb2)
  then show ?thesis by (simp only: slicing8_step_steps)
qed

lemma crc_spec_append: "crc_spec poly crc (p @ q) = crc_spec poly (crc_spec poly crc p) q"
  by (simp add: crc_spec_def)

lemma slicing8_spec:
  assumes "slicing8 (makeSlicingBy8Table (make_table poly)) crc p = (crc', p')"
  shows "crc_spec poly crc' p' = crc_spec poly crc p"
  using assms
proof (induction "makeSlicingBy8Table (make_table poly)" crc p rule: slicing8.induct)
  case (1 crc p)
  show ?case
  proof (cases "8 < length p")
    case True
    with "1.prems" have "crc_spec poly crc' p' = crc_spec poly (crc_spec poly crc (take 8 p)) (drop 8 p)"
      by (subst (asm) slicing8.simps) (auto intro: "1.hyps" simp flip: slicing8_step_make_table)
    then show ?thesis by (simp flip: crc_spec_append)
  next
    case False
    with "1.prems" show ?thesis by (simp add: slicing8.simps)
  qed
qed

lemma slicing8TableJones_0: "slicing8TableJones ! 0 = table"
  by (simp add: slicing8TableJones_def table_def makeSlicing_0)

lemma update_blocks_spec:
  assumes "update_blocks (make_table poly) crc p = (crc', p')"
  shows "crc_spec poly crc' p' = crc_spec poly crc p"
  using assms
proof (induction "make_table poly" crc p rule: update_blocks.induct)
  case (1 crc p)
  let ?h = "if make_table poly = table then slicing8TableJones else makeSlicingBy8Table (make_table poly)"
  have h: "?h = makeSlicingBy8Table (make_table poly)"
    by (simp add: slicing8TableJones_def)
  obtain c q where cq: "slicing8 ?h crc p = (c, q)" by fastforce
  then have step: "crc_spec poly c q = crc_spec poly crc p"
    unfolding h by (rule slicing8_spec)
  show ?case
  proof (cases "64 \<le> length p \<and> (make_table poly = table \<or> 2048 \<le> length p)")
    case True
    then have "update_blocks (make_table poly) c q = (crc', p')"
      using "1.prems" cq by (subst (asm) update_blocks.simps) (auto simp: slicing8TableJones_0 split: if_splits)
    with True cq "1.hyps" step show ?thesis
      by (cases "make_table poly = table") (auto simp: slicing8TableJones_0)
  next
    case False
    then show ?thesis using "1.prems"
      by (subst (asm) update_blocks.simps) (auto simp: slicing8TableJones_0 split: if_splits)
  qed
qed

lemma crc_update_make_table: "crc_update crc (make_table poly) p = crc_spec poly crc p"
proof -
  obtain c q where cq: "update_blocks (make_table poly) crc p = (c, q)" by fastforce
  with update_blocks_spec [OF cq] show ?thesis
    by (simp add: crc_update_def foldl_crc_byte)
qed

lemma digest_write_spec: "digest_write crc p = crc_spec (reflect Jones) crc p"
  by (simp add: digest_write_def table_def crc_update_make_table)

lemma digest_write_append: "digest_write crc (p @ q) = digest_write (digest_write crc p) q"
  by (simp add: digest_write_spec crc_spec_append)

lemma digest_write_Nil [simp]: "digest_write crc [] = crc"
  by (simp add: digest_write_spec crc_spec_def)

lemma length_digest_sum [simp]: "length (digest_sum crc) = 8"
  by (simp add: digest_sum_def)

section \<open>Golden values\<close>

text \<open>The same computations on unbounded integers, where numerals evaluate quickly.\<close>

primrec crc_bits_int :: "nat \<Rightarrow> int \<Rightarrow> int \<Rightarrow> int" where
  "crc_bits_int 0 poly x = x"
| "crc_bits_int (Suc n) poly x =
     crc_bits_int n poly (if x mod 2 = 1 then (x div 2) XOR poly else x div 2)"

definition crc_int :: "int \<Rightarrow> int \<Rightarrow> int list \<Rightarrow> int" where
  "crc_int poly = foldl (\<lambda>crc v. crc_bits_int 8 poly (crc XOR v))"

lemma uint_crc_bit:
  "uint (crc_bit poly x) = (if uint x mod 2 = 1 then (uint x div 2) XOR uint poly else uint x div 2)"
proof -
  have "x AND 1 = 1 \<longleftrightarrow> odd x" by (simp add: and_one_eq odd_iff_mod_2_eq_one)
  also have "\<dots> \<longleftrightarrow> uint x mod 2 = 1"
    using bit_uint_iff [of x 0] by (simp add: bit_0 odd_iff_mod_2_eq_one [symmetric])
  finally show ?thesis
    by (simp add: crc_bit_def unsigned_xor_eq drop_bit_eq_div uint_div)
qed

lemma uint_crc_bits: "uint ((crc_bit poly ^^ n) x) = crc_bits_int n (uint poly) (uint x)"
proof (induction n arbitrary: x)
  case (Suc n)
  have "(crc_bit poly ^^ Suc n) x = (crc_bit poly ^^ n) (crc_bit poly x)" by (simp only: funpow_Suc_right o_apply)
  with Suc.IH [of "crc_bit poly x"] show ?case by (simp only: uint_crc_bit crc_bits_int.simps)
qed simp

lemma uint_ucast_byte: "uint (ucast (v :: byte) :: u64) = uint v"
  by (simp add: unsigned_ucast_eq take_bit_int_eq_self_iff)
     (rule order.strict_trans [OF unsigned_less [of v]], simp)

lemma uint_crc_spec: "uint (crc_spec poly crc bs) = crc_int (uint poly) (uint crc) (map uint bs)"
  by (induction bs rule: rev_induct)
    (simp_all add: crc_spec_def crc_int_def uint_crc_bits unsigned_xor_eq uint_ucast_byte
      del: crc_bits_int.simps)

lemma reflect_loop_numeral:
  "reflect_loop (numeral k) p x =
     reflect_loop (pred_numeral k) (drop_bit 1 p) (push_bit 1 x OR (drop_bit 1 p AND 1))"
  by (simp add: numeral_eq_Suc Let_def)

lemma reflect_Jones: "reflect Jones = 0x95ac9329ac4bc9b5"
  by (simp add: reflect_def Jones_def reflect_loop_numeral)

section \<open>Properties\<close>

text \<open>
  C23. The checksum with lookup tables, eight bytes at a time or one, is the remainder of the bit-by-bit
  division by the polynomial, for every polynomial, every start value and every input.
\<close>

theorem crc_update_spec: "crc_update crc0 (make_table poly) p = crc_spec poly crc0 p"
  by (rule crc_update_make_table)

text \<open>
  The digest does not depend on how the bytes were split into writes: for any list of blocks, the
  digest of the blocks written one after the other is the checksum of the whole.
\<close>

theorem digest_write_blocks: "foldl digest_write 0 blocks = checksum (concat blocks) table"
proof -
  have "foldl digest_write crc blocks = digest_write crc (concat blocks)" for crc
    by (induction blocks arbitrary: crc) (simp_all add: digest_write_append)
  then show ?thesis by (simp add: digest_write_def checksum_def)
qed

text \<open>The check value of the algorithm: the checksum of \<open>123456789\<close>.\<close>

theorem checksum_golden: "checksum (ascii ''123456789'') table = 0xe9c6d914c4b8d9ca"
proof -
  have "crc_int 0x95ac9329ac4bc9b5 0 [49, 50, 51, 52, 53, 54, 55, 56, 57] = 0xe9c6d914c4b8d9ca"
    by code_simp
  moreover have "map uint (ascii ''123456789'') = [49, 50, 51, 52, 53, 54, 55, 56, 57]"
    by (simp add: ascii_def)
  ultimately have "uint (checksum (ascii ''123456789'') table) = 0xe9c6d914c4b8d9ca"
    by (simp add: checksum_def table_def crc_update_make_table uint_crc_spec reflect_Jones)
  then show ?thesis by (intro word_uint_eqI) simp
qed

end
