(* ===== verification/RdbCodes.thy ===== *)
theory RdbCodes
  imports RdbModel
begin

text \<open>
  The byte codes of \<open>core/decoder.go\<close>: the opcodes between objects, the type byte of an object, and the
  encoding name that \<open>encodingMap\<close> gives a type (the empty string for a type it does not have).
\<close>

definition opCodeSlotImport :: byte where "opCodeSlotImport = 243"
definition opCodeSlotInfo :: byte where "opCodeSlotInfo = 244"
definition opCodeFunction :: byte where "opCodeFunction = 245"
definition opCodeModuleAux :: byte where "opCodeModuleAux = 247"
definition opCodeIdle :: byte where "opCodeIdle = 248"
definition opCodeFreq :: byte where "opCodeFreq = 249"
definition opCodeAux :: byte where "opCodeAux = 250"
definition opCodeResizeDB :: byte where "opCodeResizeDB = 251"
definition opCodeExpireTimeMs :: byte where "opCodeExpireTimeMs = 252"
definition opCodeExpireTime :: byte where "opCodeExpireTime = 253"
definition opCodeSelectDB :: byte where "opCodeSelectDB = 254"
definition opCodeEOF :: byte where "opCodeEOF = 255"

lemmas op_codes =
  opCodeSlotImport_def opCodeSlotInfo_def opCodeFunction_def opCodeModuleAux_def opCodeIdle_def
  opCodeFreq_def opCodeAux_def opCodeResizeDB_def opCodeExpireTimeMs_def opCodeExpireTime_def
  opCodeSelectDB_def opCodeEOF_def

definition typeString :: byte where "typeString = 0"
definition typeList :: byte where "typeList = 1"
definition typeSet :: byte where "typeSet = 2"
definition typeZset :: byte where "typeZset = 3"
definition typeHash :: byte where "typeHash = 4"
definition typeZset2 :: byte where "typeZset2 = 5"
definition typeModule :: byte where "typeModule = 6"
definition typeModule2 :: byte where "typeModule2 = 7"
definition typeHashZipMap :: byte where "typeHashZipMap = 9"
definition typeListZipList :: byte where "typeListZipList = 10"
definition typeSetIntSet :: byte where "typeSetIntSet = 11"
definition typeZsetZipList :: byte where "typeZsetZipList = 12"
definition typeHashZipList :: byte where "typeHashZipList = 13"
definition typeListQuickList :: byte where "typeListQuickList = 14"
definition typeStreamListPacks :: byte where "typeStreamListPacks = 15"
definition typeHashListPack :: byte where "typeHashListPack = 16"
definition typeZsetListPack :: byte where "typeZsetListPack = 17"
definition typeListQuickList2 :: byte where "typeListQuickList2 = 18"
definition typeStreamListPacks2 :: byte where "typeStreamListPacks2 = 19"
definition typeSetListPack :: byte where "typeSetListPack = 20"
definition typeStreamListPacks3 :: byte where "typeStreamListPacks3 = 21"
definition typeHashWithHfeRc :: byte where "typeHashWithHfeRc = 22"
definition typeHashListPackWithHfeRc :: byte where "typeHashListPackWithHfeRc = 23"
definition typeHashWithHfe :: byte where "typeHashWithHfe = 24"
definition typeHashListPackWithHfe :: byte where "typeHashListPackWithHfe = 25"
definition typeHash2 :: byte where "typeHash2 = typeHashWithHfeRc"

lemmas type_codes =
  typeString_def typeList_def typeSet_def typeZset_def typeHash_def typeZset2_def typeModule_def
  typeModule2_def typeHashZipMap_def typeListZipList_def typeSetIntSet_def typeZsetZipList_def
  typeHashZipList_def typeListQuickList_def typeStreamListPacks_def typeHashListPack_def
  typeZsetListPack_def typeListQuickList2_def typeStreamListPacks2_def typeSetListPack_def
  typeStreamListPacks3_def typeHashWithHfeRc_def typeHashListPackWithHfeRc_def typeHashWithHfe_def
  typeHashListPackWithHfe_def typeHash2_def

definition encodingMap :: "byte \<Rightarrow> string" where
  "encodingMap t =
    (if t = typeString then StringEncoding
     else if t = typeList then ListEncoding
     else if t = typeSet then SetEncoding
     else if t = typeZset then ZSetEncoding
     else if t = typeHash then HashEncoding
     else if t = typeZset2 then ZSet2Encoding
     else if t = typeHashZipMap then ZipMapEncoding
     else if t = typeListZipList then ZipListEncoding
     else if t = typeSetIntSet then IntSetEncoding
     else if t = typeZsetZipList then ZipListEncoding
     else if t = typeHashZipList then ZipListEncoding
     else if t = typeListQuickList then QuickListEncoding
     else if t = typeStreamListPacks then ListPackEncoding
     else if t = typeStreamListPacks2 then ListPackEncoding
     else if t = typeHashListPack then ListPackEncoding
     else if t = typeZsetListPack then ListPackEncoding
     else if t = typeListQuickList2 then QuickList2Encoding
     else if t = typeSetListPack then ListPackEncoding
     else if t = typeHashWithHfeRc then HashExEncoding
     else if t = typeHashListPackWithHfeRc then ListPackExEncoding
     else if t = typeHashWithHfe then HashExEncoding
     else if t = typeHashListPackWithHfe then ListPackExEncoding
     else [])"

end
