(* ===== verification/Encoder.thy ===== *)
theory Encoder
  imports Strconv Lzf Crc64 RdbModel RdbCodes
begin

text \<open>
  The encoder's state, its state machine and the writers of file parts that are not objects
  (\<open>core/encoder.go\<close>), and the primitive writers (the writing half of \<open>core/string.go\<close>). The
  \<open>io.Writer\<close> under the encoder is a function of the bytes it has taken so far and the block it is
  given: \<open>None\<close> accepts the block, \<open>Some (n, e)\<close> takes \<open>n\<close> bytes of it and fails with \<open>e\<close>. So the
  error path of every write is in the model, and \<open>reliable\<close> says that none is taken. The scratch
  array \<open>enc.buffer\<close> is filled and written by the same call and is not part of the state.
\<close>

section \<open>State\<close>

datatype enc_state = startState | writtenHeaderState | writtenDBHeaderState | writtenAuxState
  | writtenTTLState | writtenObjectState | writtenEndState

record zip_list_opt =
  maxValue :: int
  maxEntries :: int

record encoder =
  out :: bytes
  wfault :: "bytes \<Rightarrow> bytes \<Rightarrow> (nat \<times> go_error) option"
  crc :: u64
  existDB :: "u64 list"
  compress :: bool
  state :: enc_state
  listZipListOpt :: "zip_list_opt option"
  hashZipListOpt :: "zip_list_opt option"
  zsetZipListOpt :: "zip_list_opt option"
  listZipListSize :: int
  enc_valkey :: bool

type_synonym 'a enc = "(encoder, 'a) comp"

definition getMaxValue :: "zip_list_opt option \<Rightarrow> int" where
  "getMaxValue zop = (case zop of
     None \<Rightarrow> 64
   | Some z \<Rightarrow> if maxValue z = 0 then 64 else maxValue z)"

definition getMaxEntries :: "zip_list_opt option \<Rightarrow> int" where
  "getMaxEntries zop = (case zop of
     None \<Rightarrow> 512
   | Some z \<Rightarrow> if maxEntries z = 0 then 512 else maxEntries z)"

definition stateChanges :: "enc_state \<Rightarrow> enc_state list" where
  "stateChanges s = (case s of
     startState \<Rightarrow> [writtenHeaderState]
   | writtenHeaderState \<Rightarrow> [writtenAuxState, writtenDBHeaderState, writtenEndState]
   | writtenAuxState \<Rightarrow> [writtenAuxState, writtenDBHeaderState, writtenEndState]
   | writtenDBHeaderState \<Rightarrow> [writtenTTLState, writtenObjectState]
   | writtenTTLState \<Rightarrow> [writtenObjectState]
   | writtenObjectState \<Rightarrow> [writtenTTLState, writtenObjectState, writtenDBHeaderState, writtenEndState]
   | writtenEndState \<Rightarrow> [])"

definition NewEncoder :: "(bytes \<Rightarrow> bytes \<Rightarrow> (nat \<times> go_error) option) \<Rightarrow> encoder" where
  "NewEncoder writer = \<lparr>out = [], wfault = writer, crc = 0, existDB = [], compress = False,
     state = startState, listZipListOpt = None, hashZipListOpt = None, zsetZipListOpt = None,
     listZipListSize = 4 * 1024, enc_valkey = False\<rparr>"

definition NewEncoderValkey :: "(bytes \<Rightarrow> bytes \<Rightarrow> (nat \<times> go_error) option) \<Rightarrow> encoder" where
  "NewEncoderValkey writer = (NewEncoder writer)\<lparr>enc_valkey := True\<rparr>"

definition SetListZipListOpt :: "int \<Rightarrow> int \<Rightarrow> encoder \<Rightarrow> encoder" where
  "SetListZipListOpt mv me e = e\<lparr>listZipListOpt := Some \<lparr>maxValue = mv, maxEntries = me\<rparr>\<rparr>"

definition SetHashZipListOpt :: "int \<Rightarrow> int \<Rightarrow> encoder \<Rightarrow> encoder" where
  "SetHashZipListOpt mv me e = e\<lparr>hashZipListOpt := Some \<lparr>maxValue = mv, maxEntries = me\<rparr>\<rparr>"

definition SetZSetZipListOpt :: "int \<Rightarrow> int \<Rightarrow> encoder \<Rightarrow> encoder" where
  "SetZSetZipListOpt mv me e = e\<lparr>zsetZipListOpt := Some \<lparr>maxValue = mv, maxEntries = me\<rparr>\<rparr>"

definition EnableCompress :: "encoder \<Rightarrow> encoder" where
  "EnableCompress e = e\<lparr>compress := True\<rparr>"

section \<open>Bytes\<close>

text \<open>\<open>enc.writer.Write\<close> alone, and \<open>enc.write\<close>, which also feeds the checksum.\<close>

definition raw_write :: "bytes \<Rightarrow> unit enc" where
  "raw_write p e = (case wfault e (out e) p of
     None \<Rightarrow> (Ok (), e\<lparr>out := out e @ p\<rparr>)
   | Some (n, err) \<Rightarrow> (Err err, e\<lparr>out := out e @ take n p\<rparr>))"

definition enc_write :: "bytes \<Rightarrow> unit enc" where
  "enc_write p =
     seq (wrap_err ''write data failed'' (raw_write p))
         (modify (\<lambda>e. e\<lparr>crc := digest_write (crc e) p\<rparr>))"

definition validateStateChange :: "enc_state \<Rightarrow> encoder \<Rightarrow> bool" where
  "validateStateChange toState e \<longleftrightarrow> toState \<in> set (stateChanges (state e))"

text \<open>\<open>if !enc.validateStateChange(toState) { return fmt.Errorf(msg, enc.state) }\<close> and \<open>enc.state = s\<close>\<close>

definition check_state :: "enc_state \<Rightarrow> string \<Rightarrow> unit enc" where
  "check_state toState msg =
     bind (gets (validateStateChange toState)) (\<lambda>ok. guard ok (ErrMsg msg))"

definition set_state :: "enc_state \<Rightarrow> unit enc" where
  "set_state s = modify (\<lambda>e. e\<lparr>state := s\<rparr>)"

section \<open>Lengths and strings\<close>

definition length_bytes :: "u64 \<Rightarrow> bytes" where
  "length_bytes v =
     (if v \<le> 63 then [ucast v]
      else if v \<le> 16383 then [ucast (drop_bit 8 v) OR 0x40, ucast v]
      else if v \<le> 0xffffffff then 0x80 # be_bytes 4 (ucast v :: u32)
      else 0x81 # be_bytes 8 v)"

definition writeLength :: "u64 \<Rightarrow> unit enc" where
  "writeLength v = enc_write (length_bytes v)"

definition writeSimpleString :: "bytes \<Rightarrow> unit enc" where
  "writeSimpleString s = seq (writeLength (of_nat (length s))) (enc_write s)"

definition int_string_bytes :: "int \<Rightarrow> bytes option" where
  "int_string_bytes intVal =
     (if -128 \<le> intVal \<and> intVal \<le> 127 then Some [0xc0, of_int intVal]
      else if -32768 \<le> intVal \<and> intVal \<le> 32767 then Some (0xc1 # le_bytes 2 (of_int intVal :: u16))
      else if -2147483648 \<le> intVal \<and> intVal \<le> 2147483647 then
        Some (0xc2 # le_bytes 4 (of_int intVal :: u32))
      else None)"

definition tryWriteIntString :: "bytes \<Rightarrow> bool enc" where
  "tryWriteIntString s =
     (case isEncodableUint32 s of
        None \<Rightarrow> ret False
      | Some intVal \<Rightarrow>
          (case int_string_bytes intVal of
             None \<Rightarrow> ret False
           | Some buf \<Rightarrow> seq (enc_write buf) (ret True)))"

definition writeLZFString :: "bytes \<Rightarrow> unit enc" where
  "writeLZFString s =
     bind (of_result (Compress s)) (\<lambda>lz.
     seq (enc_write [0xc3]) (
     seq (writeLength (of_nat (length lz))) (
     seq (writeLength (of_nat (length s))) (
     enc_write lz))))"

text \<open>\<open>if err := m; err == nil { return nil }; return n\<close>\<close>

definition or_else :: "unit enc \<Rightarrow> unit enc \<Rightarrow> unit enc" where
  "or_else m n e = (case m e of (Err _, e') \<Rightarrow> n e' | r \<Rightarrow> r)"

definition writeNanString :: "bytes \<Rightarrow> unit enc" where
  "writeNanString s =
     bind (gets compress) (\<lambda>c.
     if c \<and> 20 < length s then or_else (writeLZFString s) (writeSimpleString s)
     else writeSimpleString s)"

definition writeString :: "bytes \<Rightarrow> unit enc" where
  "writeString s =
     bind (tryWriteIntString s) (\<lambda>isInt.
     if isInt then ret ()
     else bind (gets compress) (\<lambda>c.
       if c \<and> 20 < length s then or_else (writeLZFString s) (writeSimpleString s)
       else writeSimpleString s))"

definition writeFloat64 :: "f64 \<Rightarrow> unit enc" where
  "writeFloat64 f = enc_write (le_bytes 8 f)"

section \<open>Header, aux fields, databases, the end\<close>

definition rdbHeaderRedis :: bytes where "rdbHeaderRedis = ascii ''REDIS0011''"
definition rdbHeaderValkey :: bytes where "rdbHeaderValkey = ascii ''VALKEY080''"

definition WriteHeader :: "unit enc" where
  "WriteHeader =
     seq (check_state writtenHeaderState ''cannot writing header at state: '') (
     bind (gets enc_valkey) (\<lambda>vk.
     seq (enc_write (if vk then rdbHeaderValkey else rdbHeaderRedis)) (
     set_state writtenHeaderState)))"

definition WriteAux :: "bytes \<Rightarrow> bytes \<Rightarrow> unit enc" where
  "WriteAux key v =
     seq (check_state writtenAuxState ''cannot writing aux at state: '') (
     seq (enc_write [opCodeAux]) (
     seq (writeString key) (
     seq (writeString v) (
     set_state writtenAuxState))))"

definition WriteDBHeader :: "u64 \<Rightarrow> u64 \<Rightarrow> u64 \<Rightarrow> unit enc" where
  "WriteDBHeader dbIndex keyCount ttlCount =
     seq (check_state writtenDBHeaderState ''cannot writing db header at state: '') (
     bind (gets existDB) (\<lambda>dbs.
     if dbIndex \<in> set dbs then throw (ErrMsg ''db existed'')
     else
     seq (modify (\<lambda>e. e\<lparr>existDB := dbIndex # existDB e\<rparr>)) (
     seq (enc_write [opCodeSelectDB]) (
     seq (writeLength dbIndex) (
     seq (enc_write [opCodeResizeDB]) (
     seq (writeLength keyCount) (
     seq (writeLength ttlCount) (
     set_state writtenDBHeaderState))))))))"

definition WriteEnd :: "unit enc" where
  "WriteEnd =
     seq (check_state writtenEndState ''cannot writing end at state: '') (
     seq (enc_write [opCodeEOF]) (
     bind (gets (\<lambda>e. digest_sum (crc e))) (\<lambda>checkSum.
     seq (wrap_err ''write crc sum failed'' (raw_write checkSum)) (
     set_state writtenEndState))))"

definition writeTTL :: "u64 \<Rightarrow> unit enc" where
  "writeTTL expiration_ms =
     seq (check_state writtenTTLState ''cannot write string object at state: '') (
     seq (enc_write [opCodeExpireTimeMs]) (
     seq (enc_write (le_bytes 8 expiration_ms)) (
     set_state writtenTTLState)))"

text \<open>
  The options of a \<open>Write...Object\<close> call, of type \<open>interface{}\<close>: those made by \<open>WithTTL\<close>, and values
  of any other type, which the code skips.
\<close>

datatype write_option = TTLOption u64 | OtherOption

definition WithTTL :: "u64 \<Rightarrow> write_option" where
  "WithTTL expirationMs = TTLOption expirationMs"

definition beforeWriteObject :: "write_option list \<Rightarrow> unit enc" where
  "beforeWriteObject options =
     seq (check_state writtenObjectState ''cannot write object at state: '') (
     for_each options (\<lambda>opt. case opt of TTLOption o1 \<Rightarrow> writeTTL o1 | _ \<Rightarrow> ret ()))"

section \<open>What a writer may do to the encoder\<close>

text \<open>
  \<open>writer_only m\<close>: whatever \<open>m\<close> returns, it has only appended to the output (and fed the checksum).
\<close>

named_theorems writer_intros \<open>writers that only append\<close>

definition reliable :: "encoder \<Rightarrow> bool" where
  "reliable e \<longleftrightarrow> wfault e = (\<lambda>h p. None)"

text \<open>The output has grown, and a reliable writer has seen the bytes that the checksum was fed.\<close>

definition wrote :: "encoder \<Rightarrow> encoder \<Rightarrow> bool" where
  "wrote e e' \<longleftrightarrow> (\<exists>p. out e' = out e @ p \<and> (reliable e \<longrightarrow> crc e' = digest_write (crc e) p))"

definition only_wrote :: "encoder \<Rightarrow> encoder \<Rightarrow> bool" where
  "only_wrote e e' \<longleftrightarrow> (\<exists>o' c. e' = e\<lparr>out := o', crc := c\<rparr>) \<and> wrote e e'"

definition writer_only :: "'a enc \<Rightarrow> bool" where
  "writer_only m \<longleftrightarrow> (\<forall>e r e'. m e = (r, e') \<longrightarrow> only_wrote e e')"

lemma wrote_refl [simp]: "wrote e e"
  unfolding wrote_def by (rule exI [of _ "[]"]) simp

lemma wrote_update [simp]:
  "wrote e (e'\<lparr>state := s\<rparr>) = wrote e e'" "wrote e (e'\<lparr>existDB := x\<rparr>) = wrote e e'"
  "wrote (e\<lparr>existDB := x\<rparr>) e' = wrote e e'"
  by (simp_all add: wrote_def reliable_def)

lemma wrote_trans: "wrote e e1 \<Longrightarrow> wrote e1 e2 \<Longrightarrow> wfault e1 = wfault e \<Longrightarrow> wrote e e2"
  by (auto simp: wrote_def reliable_def digest_write_append)

lemma only_wrote_refl: "only_wrote e e"
  unfolding only_wrote_def using wrote_refl by (metis encoder.surjective encoder.update_convs(1,3))

lemma only_wrote_trans:
  assumes "only_wrote e e1" and "only_wrote e1 e2"
  shows "only_wrote e e2"
proof -
  obtain o1 c1 where 1: "e1 = e\<lparr>out := o1, crc := c1\<rparr>" using assms(1) by (auto simp: only_wrote_def)
  obtain o2 c2 where 2: "e2 = e1\<lparr>out := o2, crc := c2\<rparr>" using assms(2) by (auto simp: only_wrote_def)
  have "e2 = e\<lparr>out := o2, crc := c2\<rparr>" by (simp add: 2 1)
  moreover have "wrote e e2"
    by (rule wrote_trans [of e e1]) (use assms 1 in \<open>auto simp: only_wrote_def\<close>)
  ultimately show ?thesis unfolding only_wrote_def by blast
qed

lemma only_wroteD:
  assumes "only_wrote e e'"
  shows "state e' = state e" "existDB e' = existDB e" "compress e' = compress e" "wfault e' = wfault e"
    "enc_valkey e' = enc_valkey e" "wrote e e'"
  using assms by (auto simp: only_wrote_def)

lemma writer_onlyI: "(\<And>e r e'. m e = (r, e') \<Longrightarrow> only_wrote e e') \<Longrightarrow> writer_only m"
  by (simp add: writer_only_def)

lemma writer_onlyD: "writer_only m \<Longrightarrow> m e = (r, e') \<Longrightarrow> only_wrote e e'"
  unfolding writer_only_def by blast

lemma writer_only_basic [writer_intros]:
  "writer_only (ret a)" "writer_only (throw x)" "writer_only (panic p)" "writer_only (of_result r)"
  "writer_only (gets f)"
  by (rule writer_onlyI, simp add: monad_defs only_wrote_refl)+

lemma writer_only_guard [writer_intros]: "writer_only (guard b e)"
  unfolding guard_def by (auto intro: writer_intros)

lemma writer_only_bind [writer_intros]:
  assumes m: "writer_only m" and f: "\<And>a. writer_only (f a)"
  shows "writer_only (bind m f)"
proof (rule writer_onlyI)
  fix e r e2 assume run: "bind m f e = (r, e2)"
  obtain r1 e1 where m1: "m e = (r1, e1)" by fastforce
  from writer_onlyD [OF m m1] have 1: "only_wrote e e1" .
  show "only_wrote e e2"
  proof (cases r1)
    case (Ok a)
    with run m1 have "f a e1 = (r, e2)" by (simp add: bind_Ok)
    from only_wrote_trans [OF 1 writer_onlyD [OF f this]] show ?thesis .
  qed (use run m1 1 in \<open>auto simp: bind_def\<close>)
qed

lemma writer_only_seq [writer_intros]: "writer_only m \<Longrightarrow> writer_only n \<Longrightarrow> writer_only (seq m n)"
  unfolding seq_def by (rule writer_only_bind)

lemma writer_only_wrap_err [writer_intros]:
  assumes "writer_only m"
  shows "writer_only (wrap_err msg m)"
proof (rule writer_onlyI)
  fix e r e' assume run: "wrap_err msg m e = (r, e')"
  obtain r1 e1 where m1: "m e = (r1, e1)" by fastforce
  with run writer_onlyD [OF assms m1] show "only_wrote e e'" by (cases r1) (auto simp: wrap_err_def)
qed

lemma writer_only_or_else [writer_intros]:
  assumes m: "writer_only m" and n: "writer_only n"
  shows "writer_only (or_else m n)"
proof (rule writer_onlyI)
  fix e r e' assume run: "or_else m n e = (r, e')"
  obtain r1 e1 where m1: "m e = (r1, e1)" by fastforce
  from writer_onlyD [OF m m1] have 1: "only_wrote e e1" .
  show "only_wrote e e'"
  proof (cases r1)
    case (Err x)
    with run m1 have "n e1 = (r, e')" by (simp add: or_else_def)
    from only_wrote_trans [OF 1 writer_onlyD [OF n this]] show ?thesis .
  qed (use run m1 1 in \<open>auto simp: or_else_def\<close>)
qed

lemma writer_only_if [writer_intros]:
  "writer_only m \<Longrightarrow> writer_only n \<Longrightarrow> writer_only (if b then m else n)"
  by simp

lemma writer_only_Let [writer_intros]: "(\<And>x. writer_only (f x)) \<Longrightarrow> writer_only (let x = a in f x)"
  by simp

lemma writer_only_case_prod [writer_intros]:
  "(\<And>a b. writer_only (f a b)) \<Longrightarrow> writer_only (case x of (a, b) \<Rightarrow> f a b)"
  by (cases x) simp

lemma writer_only_case_option [writer_intros]:
  "writer_only m \<Longrightarrow> (\<And>a. writer_only (f a)) \<Longrightarrow> writer_only (case x of None \<Rightarrow> m | Some a \<Rightarrow> f a)"
  by (cases x) simp_all

lemma writer_only_for_each [writer_intros]: "(\<And>x. writer_only (f x)) \<Longrightarrow> writer_only (for_each xs f)"
  by (induction xs) (auto intro: writer_intros)

lemma writer_only_enc_write [writer_intros]: "writer_only (enc_write p)"
proof (rule writer_onlyI)
  fix e r e' assume run: "enc_write p e = (r, e')"
  show "only_wrote e e'"
  proof (cases "wfault e (out e) p")
    case None
    with run have "e' = e\<lparr>out := out e @ p, crc := digest_write (crc e) p\<rparr>"
      by (simp add: enc_write_def monad_defs raw_write_def)
    then show ?thesis by (auto simp: only_wrote_def wrote_def)
  next
    case (Some f)
    then obtain n err where f: "wfault e (out e) p = Some (n, err)" by (cases f) auto
    with run have e': "e' = e\<lparr>out := out e @ take n p\<rparr>"
      by (simp add: enc_write_def monad_defs raw_write_def)
    moreover have "\<not> reliable e" using f by (auto simp: reliable_def)
    moreover have "e' = e\<lparr>out := out e @ take n p, crc := crc e\<rparr>" using e' by simp
    ultimately show ?thesis unfolding only_wrote_def wrote_def by fastforce
  qed
qed

lemma writer_only_strings [writer_intros]:
  "writer_only (writeLength v)" "writer_only (writeSimpleString s)" "writer_only (tryWriteIntString s)"
  "writer_only (writeLZFString s)" "writer_only (writeNanString s)" "writer_only (writeString s)"
  "writer_only (writeFloat64 f)"
  unfolding writeLength_def writeSimpleString_def tryWriteIntString_def writeLZFString_def
    writeNanString_def writeString_def writeFloat64_def
  by (intro writer_intros)+

section \<open>Writers over a reliable \<open>io.Writer\<close>\<close>

text \<open>
  \<open>emits c m bs x\<close>: when no write fails, \<open>m\<close> under the compression setting \<open>c\<close> appends exactly the bytes
  \<open>bs\<close> and returns \<open>x\<close>.
\<close>

definition put :: "bytes \<Rightarrow> encoder \<Rightarrow> encoder" where
  "put bs e = e\<lparr>out := out e @ bs, crc := digest_write (crc e) bs\<rparr>"

definition emits :: "bool \<Rightarrow> 'a enc \<Rightarrow> bytes \<Rightarrow> 'a \<Rightarrow> bool" where
  "emits c m bs x \<longleftrightarrow> (\<forall>e. reliable e \<longrightarrow> compress e = c \<longrightarrow> m e = (Ok x, put bs e))"

lemma put_put [simp]: "put cs (put bs e) = put (bs @ cs) e"
  by (simp add: put_def digest_write_append)

lemma put_Nil [simp]: "put [] e = e"
  by (simp add: put_def)

lemma put_fields [simp]:
  "out (put bs e) = out e @ bs" "reliable (put bs e) = reliable e" "compress (put bs e) = compress e"
  "state (put bs e) = state e" "existDB (put bs e) = existDB e" "enc_valkey (put bs e) = enc_valkey e"
  "listZipListOpt (put bs e) = listZipListOpt e" "hashZipListOpt (put bs e) = hashZipListOpt e"
  "zsetZipListOpt (put bs e) = zsetZipListOpt e" "listZipListSize (put bs e) = listZipListSize e"
  "crc (put bs e) = digest_write (crc e) bs"
  by (simp_all add: put_def reliable_def)

lemma emitsI: "(\<And>e. reliable e \<Longrightarrow> compress e = c \<Longrightarrow> m e = (Ok x, put bs e)) \<Longrightarrow> emits c m bs x"
  by (simp add: emits_def)

lemma emitsD: "emits c m bs x \<Longrightarrow> reliable e \<Longrightarrow> compress e = c \<Longrightarrow> m e = (Ok x, put bs e)"
  by (simp add: emits_def)

lemma emits_ret: "emits c (ret x) [] x"
  by (rule emitsI) (simp add: ret_def)

lemma emits_bind:
  assumes "emits c m bs x" and "emits c (f x) cs y"
  shows "emits c (bind m f) (bs @ cs) y"
proof (rule emitsI)
  fix e assume e: "reliable e" "compress e = c"
  show "bind m f e = (Ok y, put (bs @ cs) e)"
    using e emitsD [OF assms(1) e] emitsD [OF assms(2), of "put bs e"] by (simp add: bind_Ok)
qed

lemma emits_seq: "emits c m bs () \<Longrightarrow> emits c n cs y \<Longrightarrow> emits c (seq m n) (bs @ cs) y"
  unfolding seq_def by (rule emits_bind)

lemma emits_seq_eq: "emits c m bs () \<Longrightarrow> emits c n cs y \<Longrightarrow> ds = bs @ cs \<Longrightarrow> emits c (seq m n) ds y"
  by (simp add: emits_seq)

lemma emits_of_result: "r = Ok a \<Longrightarrow> emits c (f a) bs x \<Longrightarrow> emits c (bind (of_result r) f) bs x"
  by (simp add: emits_def bind_def of_result_def)

lemma emits_compress: "emits c (f c) bs x \<Longrightarrow> emits c (bind (gets compress) f) bs x"
  by (simp add: emits_def bind_def gets_def)

lemma emits_enc_write: "emits c (enc_write p) p ()"
  by (rule emitsI)
    (simp add: enc_write_def monad_defs raw_write_def reliable_def put_def)

lemma emits_for_each:
  assumes "\<And>x. x \<in> set xs \<Longrightarrow> emits c (f x) (enc x) ()"
  shows "emits c (for_each xs f) (concat (map enc xs)) ()"
  using assms by (induction xs) (auto intro: emits_ret emits_seq)

definition simple_string_bytes :: "bytes \<Rightarrow> bytes" where
  "simple_string_bytes s = length_bytes (of_nat (length s)) @ s"

definition lzf_string_bytes :: "bytes \<Rightarrow> bytes \<Rightarrow> bytes" where
  "lzf_string_bytes lz s =
     [0xc3] @ length_bytes (of_nat (length lz)) @ length_bytes (of_nat (length s)) @ lz"

text \<open>What \<open>writeNanString\<close> and \<open>writeString\<close> put into the file, under the compression setting.\<close>

definition nan_string_bytes :: "bool \<Rightarrow> bytes \<Rightarrow> bytes" where
  "nan_string_bytes c s =
     (if c \<and> 20 < length s then
        (case Compress s of Ok lz \<Rightarrow> lzf_string_bytes lz s | _ \<Rightarrow> simple_string_bytes s)
      else simple_string_bytes s)"

definition string_bytes :: "bool \<Rightarrow> bytes \<Rightarrow> bytes" where
  "string_bytes c s = (case Option.bind (isEncodableUint32 s) int_string_bytes of
     Some bs \<Rightarrow> bs
   | None \<Rightarrow> nan_string_bytes c s)"

definition short_string :: "bytes \<Rightarrow> bool" where
  "short_string s \<longleftrightarrow> length s < 2 ^ 32"

lemma emits_writeLength: "emits c (writeLength v) (length_bytes v) ()"
  unfolding writeLength_def by (rule emits_enc_write)

lemma emits_writeSimpleString: "emits c (writeSimpleString s) (simple_string_bytes s) ()"
  unfolding writeSimpleString_def simple_string_bytes_def
  by (intro emits_seq emits_writeLength emits_enc_write)

lemma emits_writeLZFString:
  assumes "Compress s = Ok lz"
  shows "emits c (writeLZFString s) (lzf_string_bytes lz s) ()"
  unfolding writeLZFString_def lzf_string_bytes_def
  using assms by (intro emits_of_result [OF assms] emits_seq emits_writeLength emits_enc_write)

lemma emits_or_else_Ok: "emits c m bs () \<Longrightarrow> emits c (or_else m n) bs ()"
  by (simp add: emits_def or_else_def)

lemma writeLZFString_Err: "Compress s = Err x \<Longrightarrow> writeLZFString s e = (Err x, e)"
  by (simp add: writeLZFString_def bind_def of_result_def)

lemma emits_lzf_or_simple:
  assumes "short_string s" and "20 < length s"
  shows "emits c (or_else (writeLZFString s) (writeSimpleString s))
     (case Compress s of Ok lz \<Rightarrow> lzf_string_bytes lz s | _ \<Rightarrow> simple_string_bytes s) ()"
proof (cases "\<exists>lz. Compress s = Ok lz")
  case True
  then obtain lz where lz: "Compress s = Ok lz" by blast
  from emits_or_else_Ok [OF emits_writeLZFString [OF lz]] show ?thesis by (simp add: lz)
next
  case False
  with Compress_cases [of s] assms have err: "Compress s = Err errInsufficientBuffer"
    by (auto simp: short_string_def)
  have "emits c (writeSimpleString s) (simple_string_bytes s) ()" by (rule emits_writeSimpleString)
  then show ?thesis by (simp add: err emits_def or_else_def writeLZFString_Err)
qed

lemma emits_writeNanString: "short_string s \<Longrightarrow> emits c (writeNanString s) (nan_string_bytes c s) ()"
  unfolding writeNanString_def nan_string_bytes_def
  by (rule emits_compress) (auto intro: emits_lzf_or_simple emits_writeSimpleString)

lemma emits_writeString:
  assumes "short_string s"
  shows "emits c (writeString s) (string_bytes c s) ()"
proof (cases "Option.bind (isEncodableUint32 s) int_string_bytes")
  case None
  then have "tryWriteIntString s = ret False"
    by (auto simp: tryWriteIntString_def bind_eq_None_conv split: option.splits)
  then have "writeString s = writeNanString s"
    by (simp add: writeString_def writeNanString_def)
  with None assms show ?thesis by (simp add: string_bytes_def emits_writeNanString)
next
  case (Some bs)
  then have "tryWriteIntString s = seq (enc_write bs) (ret True)"
    by (auto simp: tryWriteIntString_def bind_eq_Some_conv)
  then have "emits c (tryWriteIntString s) (bs @ []) True"
    by (simp only: emits_seq [OF emits_enc_write emits_ret])
  from emits_bind [OF this, of "\<lambda>isInt. if isInt then ret () else _ isInt" "[]" "()"]
  show ?thesis unfolding writeString_def using Some
    by (simp add: string_bytes_def emits_ret)
qed

lemma emits_writeFloat64: "emits c (writeFloat64 f) (le_bytes 8 f) ()"
  unfolding writeFloat64_def by (rule emits_enc_write)

lemmas emits_intros =
  emits_ret emits_seq emits_enc_write emits_writeLength emits_writeSimpleString
  emits_writeNanString emits_writeString emits_writeFloat64

end
