(* ===== verification/Cursor.thy ===== *)
theory Cursor
  imports Strconv
begin

text \<open>
  Reading a byte string in memory through a cursor: the functions \<open>readBytes\<close> and \<open>readByte\<close> of
  \<open>core/utils.go\<close> (the latter is \<open>readBufByte\<close> here, since the decoder's method has the same name), and
  the unchecked indexing the ziplist and zipmap readers use. The state of a computation is the cursor;
  the buffer is an argument. The last part says what it means that such a reader takes one encoding off
  a buffer, whatever stands before and behind it.
\<close>

type_synonym 'a cur = "(nat, 'a) comp"

definition cursor_error :: go_error where
  "cursor_error = ErrMsg ''cursor out of range''"

definition readBytes :: "bytes \<Rightarrow> nat \<Rightarrow> bytes cur" where
  "readBytes buf n cursor =
     (if length buf < cursor + n then (Err cursor_error, cursor)
      else (Ok (take n (drop cursor buf)), cursor + n))"

definition readBufByte :: "bytes \<Rightarrow> byte cur" where
  "readBufByte buf cursor =
     (if length buf \<le> cursor then (Err cursor_error, cursor) else (Ok (buf ! cursor), cursor + 1))"

text \<open>\<open>b := buf[*cursor]; *cursor++\<close> and \<open>*cursor += n\<close>\<close>

definition indexByte :: "bytes \<Rightarrow> byte cur" where
  "indexByte buf cursor =
     (if length buf \<le> cursor then (Panic IndexRange, cursor) else (Ok (buf ! cursor), cursor + 1))"

definition skip :: "nat \<Rightarrow> unit cur" where
  "skip n = modify (\<lambda>cursor. cursor + n)"

text \<open>
  \<open>buf[a:b]\<close>. The capacity of a slice is taken to be its length, as it is for the result of \<open>make\<close>.
\<close>

definition slice :: "bytes \<Rightarrow> nat \<Rightarrow> nat \<Rightarrow> bytes cur" where
  "slice buf a b = (if a \<le> b \<and> b \<le> length buf then ret (take (b - a) (drop a buf)) else panic SliceRange)"

lemma never_panics_cursor [panic_intros]:
  "never_panics (readBytes buf n)" "never_panics (readBufByte buf)" "never_panics (skip n)"
  by (simp_all add: never_panics_def readBytes_def readBufByte_def skip_def modify_def)

section \<open>Readers of one encoding\<close>

definition scans :: "(bytes \<Rightarrow> 'a cur) \<Rightarrow> bytes \<Rightarrow> 'a \<Rightarrow> bool" where
  "scans m bs x \<longleftrightarrow>
     (\<forall>pre suf. m (pre @ bs @ suf) (length pre) = (Ok x, length pre + length bs))"

named_theorems scans_intros \<open>readers over a buffer\<close>

lemma scansI:
  "(\<And>pre suf. m (pre @ bs @ suf) (length pre) = (Ok x, length pre + length bs)) \<Longrightarrow> scans m bs x"
  by (simp add: scans_def)

lemma scansD: "scans m bs x \<Longrightarrow> m (pre @ bs @ suf) (length pre) = (Ok x, length pre + length bs)"
  by (simp add: scans_def)

lemma scans_at:
  assumes "scans m bs x" and "buf = pre @ bs @ suf" and "c = length pre"
  shows "m buf c = (Ok x, c + length bs)"
  using scansD [OF assms(1), of pre suf] assms(2,3) by simp

lemma scans_ret: "scans (\<lambda>buf. ret x) [] x"
  by (rule scansI) (simp add: ret_def)

lemma scans_bind:
  assumes "scans m bs x" and "scans (\<lambda>buf. f buf x) cs y"
  shows "scans (\<lambda>buf. bind (m buf) (f buf)) (bs @ cs) y"
proof (rule scansI)
  fix pre suf
  have 1: "m (pre @ bs @ (cs @ suf)) (length pre) = (Ok x, length pre + length bs)"
    by (rule scansD [OF assms(1)])
  have 2: "f ((pre @ bs) @ cs @ suf) x (length (pre @ bs)) = (Ok y, length (pre @ bs) + length cs)"
    by (rule scansD [OF assms(2)])
  show "bind (m (pre @ (bs @ cs) @ suf)) (f (pre @ (bs @ cs) @ suf)) (length pre)
      = (Ok y, length pre + length (bs @ cs))"
    using 1 2 by (simp add: bind_Ok add.assoc)
qed

lemma scans_bind_eq:
  "scans m bs x \<Longrightarrow> scans (\<lambda>buf. f buf x) cs y \<Longrightarrow> ds = bs @ cs \<Longrightarrow>
   scans (\<lambda>buf. bind (m buf) (f buf)) ds y"
  by (simp add: scans_bind)

lemma scans_bind_ret:
  "scans m bs x \<Longrightarrow> f x = ret y \<Longrightarrow> scans (\<lambda>buf. bind (m buf) f) bs y"
  using scans_bind [of m bs x "\<lambda>buf. f" "[]" y] by (simp add: scans_ret)

lemma scans_wrap_err: "scans m bs x \<Longrightarrow> scans (\<lambda>buf. wrap_err msg (m buf)) bs x"
  by (simp add: scans_def wrap_err_def)

lemma scans_readBufByte: "scans readBufByte [b] b"
  by (rule scansI) (simp add: readBufByte_def nth_append)

lemma scans_indexByte: "scans indexByte [b] b"
  by (rule scansI) (simp add: indexByte_def nth_append)

lemma scans_readBytes: "n = length bs \<Longrightarrow> scans (\<lambda>buf. readBytes buf n) bs bs"
  by (rule scansI) (simp add: readBytes_def)

lemma scans_skip: "n = length bs \<Longrightarrow> scans (\<lambda>buf. skip n) bs ()"
  by (rule scansI) (simp add: skip_def modify_def)

lemma scans_repeat:
  assumes "list_all2 (\<lambda>bs x. scans m bs x) bss xs"
  shows "scans (\<lambda>buf. repeat_comp (length xs) (m buf)) (concat bss) xs"
  using assms
proof (induction rule: list_all2_induct)
  case Nil
  then show ?case by (simp add: scans_ret)
next
  case (Cons bs bss x xs)
  have "scans (\<lambda>buf. bind (repeat_comp (length xs) (m buf)) (\<lambda>ys. ret (x # ys))) (concat bss) (x # xs)"
    by (rule scans_bind_ret [OF Cons.IH]) simp
  with Cons.hyps show ?case
    by (simp add: scans_bind [where f = "\<lambda>buf x. bind (repeat_comp (length xs) (m buf)) (\<lambda>ys. ret (x # ys))"])
qed

text \<open>
  The contract between a function that encodes one item for a buffer and its reader. The encoding may
  depend on a context (in a ziplist, the length of the entry before).
\<close>

locale buffer_codec =
  fixes entry :: "'c \<Rightarrow> 'x \<Rightarrow> bytes"
    and rd :: "bytes \<Rightarrow> 'a cur"
    and val :: "'x \<Rightarrow> 'a"
    and ok :: "'x \<Rightarrow> bool"
  assumes scans_entry: "ok x \<Longrightarrow> scans rd (entry c x) (val x)"
begin

lemma scans_entries:
  assumes "list_all ok xs" and "length cs = length xs"
  shows "scans (\<lambda>buf. repeat_comp (length xs) (rd buf)) (concat (map2 entry cs xs)) (map val xs)"
proof -
  have "list_all2 (scans rd) (map2 entry cs xs) (map val xs)"
    using assms by (auto simp: list_all2_conv_all_nth list_all_length intro: scans_entry)
  from scans_repeat [OF this] show ?thesis by simp
qed

lemma scans_pair:
  assumes "ok x" and "ok y"
  shows "scans (\<lambda>buf. bind (rd buf) (\<lambda>a. bind (rd buf) (\<lambda>b. ret (a, b)))) (entry c x @ entry d y) (val x, val y)"
proof (rule scans_bind [OF scans_entry [OF assms(1)]])
  show "scans (\<lambda>buf. bind (rd buf) (\<lambda>b. ret (val x, b))) (entry d y) (val x, val y)"
    by (rule scans_bind_ret [OF scans_entry [OF assms(2)]]) simp
qed

end

section \<open>Signed integers of a buffer\<close>

lemma sint_of_int_range:
  assumes "- (2 ^ (LENGTH('a) - 1)) \<le> v" and "v < 2 ^ (LENGTH('a) - 1)"
  shows "sint (of_int v :: 'a::len word) = v"
  using assms by (simp add: signed_of_int signed_take_bit_int_eq_self)

text \<open>\<open>int64(int32(binary.LittleEndian.Uint32(append([]byte{0}, bs...))) >> 8)\<close>, for three bytes.\<close>

definition sint24 :: "bytes \<Rightarrow> int" where
  "sint24 bs = sint (le_word (0 # bs) :: u32) div 256"

lemma sint24_le_bytes:
  assumes "-8388608 \<le> v" and "v \<le> 8388607"
  shows "sint24 (take 3 (le_bytes 4 (of_int v :: u32))) = v"
proof -
  let ?w = "of_int v :: u32"
  have "(le_word (0 # take 3 (le_bytes 4 ?w)) :: u32) = push_bit 8 ?w"
  proof (rule bit_word_eqI)
    fix k assume k: "k < LENGTH(32)"
    show "bit (le_word (0 # take 3 (le_bytes 4 ?w)) :: u32) k = bit (push_bit 8 ?w) k"
    proof (cases "k < 8")
      case True
      then show ?thesis by (simp add: bit_simps)
    next
      case False
      then have "(k - 8) div 8 < 3" using k by auto
      with False k show ?thesis
        by (simp add: bit_simps bit_le_word nth_le_bytes)
    qed
  qed
  also have "\<dots> = of_int (256 * v)" by (simp add: push_bit_eq_mult)
  finally show ?thesis
    using assms sint_of_int_range [where 'a = 32, of "256 * v"] by (simp add: sint24_def)
qed

end
