(* ===== verification/StringCodec.thy ===== *)
theory StringCodec
  imports Decoder Encoder Cursor
begin

text \<open>
  What the readers of \<open>core/string.go\<close> make of what its writers wrote: lengths, strings in their
  plain, integer and LZF forms, floats. The contract between a writer and its reader is the locale
  \<open>codec\<close>; every format of the file that is written field by field is an instance of it.
\<close>

section \<open>A writer and its reader\<close>

locale codec =
  fixes wr :: "'x \<Rightarrow> unit enc"
    and bytes_of :: "bool \<Rightarrow> 'x \<Rightarrow> bytes"
    and rd :: "'x dec"
    and ok :: "'x \<Rightarrow> bool"
  assumes emits_wr: "ok x \<Longrightarrow> emits c (wr x) (bytes_of c x) ()"
    and parses_rd: "ok x \<Longrightarrow> parses rd (bytes_of c x) x"
begin

lemma emits_list:
  "list_all ok xs \<Longrightarrow> emits c (for_each xs wr) (concat (map (bytes_of c) xs)) ()"
  by (rule emits_for_each) (simp add: list_all_iff emits_wr)

lemma parses_list:
  "list_all ok xs \<Longrightarrow> parses (repeat_comp (length xs) rd) (concat (map (bytes_of c) xs)) xs"
  by (rule parses_repeat) (simp add: list_all_iff parses_rd)

text \<open>The round trip over the two states.\<close>

lemma roundtrip:
  assumes "ok x" and "reliable e"
  shows "\<exists>bs. wr x e = (Ok (), put bs e) \<and>
    (\<forall>d rest. input d = bs @ rest \<longrightarrow> rd d = (Ok x, advance bs rest d))"
  using emitsD [OF emits_wr [OF assms(1)] assms(2) refl] parsesD [OF parses_rd [OF assms(1)]] by blast

lemma roundtrip_list:
  assumes "list_all ok xs" and "reliable e"
  shows "\<exists>bs. for_each xs wr e = (Ok (), put bs e) \<and>
    (\<forall>d rest. input d = bs @ rest \<longrightarrow> repeat_comp (length xs) rd d = (Ok xs, advance bs rest d))"
  using emitsD [OF emits_list [OF assms(1)] assms(2) refl] parsesD [OF parses_list [OF assms(1)]] by blast

end

section \<open>Lengths\<close>

lemma bit_nat_ge: "bit (n :: nat) k \<Longrightarrow> 2 ^ k \<le> n"
  by (metis bit_iff_odd div_less even_zero linorder_not_le)

lemma upper_bits_clear:
  fixes v :: "'a::len word"
  assumes "unat v < 2 ^ n" and "n \<le> k"
  shows "\<not> bit v k"
proof
  assume k: "bit v k"
  then have "k < LENGTH('a)" by (rule bit_imp_le_length)
  have "bit (unat v) k" using k by (simp add: bit_unsigned_iff)
  then have "2 ^ k \<le> unat v" by (rule bit_nat_ge)
  moreover have "2 ^ n \<le> (2 ^ k :: nat)" using assms(2) by (rule power_increasing) simp
  ultimately show False using assms(1) by linarith
qed

lemma le_mask_bits:
  "v \<le> 63 \<Longrightarrow> 6 \<le> k \<Longrightarrow> \<not> bit v k"
  "v \<le> 16383 \<Longrightarrow> 14 \<le> k \<Longrightarrow> \<not> bit v k"
  "v \<le> 0xffffffff \<Longrightarrow> 32 \<le> k \<Longrightarrow> \<not> bit v k"
  for v :: u64
  using upper_bits_clear [of v 6 k] upper_bits_clear [of v 14 k] upper_bits_clear [of v 32 k]
  by (simp_all add: word_le_nat_alt)

lemma and_0xc0: "drop_bit 6 (b AND 0xc0) = drop_bit 6 (b :: byte)"
proof (rule bit_word_eqI)
  fix k assume "k < LENGTH(8)"
  then consider "k = 0" | "k = 1" | "2 \<le> k" by linarith
  then show "bit (drop_bit 6 (b AND 0xc0)) k = bit (drop_bit 6 b) k"
    by cases (auto simp: bit_simps dest: bit_imp_le_length)
qed

lemma ucast_and_3f: "ucast (b :: byte) AND (0x3f :: u64) = take_bit 6 (ucast b)"
proof -
  have "(0x3f :: u64) = mask 6" by (simp add: mask_eq_exp_minus_1)
  then show ?thesis by (simp add: take_bit_eq_mask)
qed

lemma bit_0x40: "bit (0x40 :: byte) k \<longleftrightarrow> k = 6"
proof (cases "k < 8")
  case True
  then have "k = 0 \<or> k = 1 \<or> k = 2 \<or> k = 3 \<or> k = 4 \<or> k = 5 \<or> k = 6 \<or> k = 7" by linarith
  then show ?thesis by (elim disjE) simp_all
qed (auto dest: bit_imp_le_length)

lemma bit_0x40_u64: "k < 6 \<Longrightarrow> \<not> bit (0x40 :: u64) k"
proof -
  assume "k < 6"
  then have "k = 0 \<or> k = 1 \<or> k = 2 \<or> k = 3 \<or> k = 4 \<or> k = 5" by linarith
  then show ?thesis by (elim disjE) simp_all
qed

lemma len6:
  assumes "v \<le> (63 :: u64)"
  shows "drop_bit 6 (ucast v :: byte) = 0" and "take_bit 6 (ucast (ucast v :: byte) :: u64) = v"
proof -
  note z = le_mask_bits(1) [OF assms]
  show "drop_bit 6 (ucast v :: byte) = 0"
    by (rule bit_word_eqI) (simp add: bit_simps z)
  show "take_bit 6 (ucast (ucast v :: byte) :: u64) = v"
  proof (rule bit_word_eqI)
    fix k assume "k < LENGTH(64)"
    then show "bit (take_bit 6 (ucast (ucast v :: byte) :: u64)) k = bit v k"
      using z [of k] by (cases "k < 6") (simp_all add: bit_simps)
  qed
qed

lemma len14:
  assumes "v \<le> (16383 :: u64)"
  defines "b \<equiv> ucast (drop_bit 8 v) OR 0x40 :: byte"
  shows "drop_bit 6 b = 1"
    and "push_bit 8 (take_bit 6 (ucast b)) OR ucast (ucast v :: byte) = (v :: u64)"
proof -
  note z = le_mask_bits(2) [OF assms(1)]
  show "drop_bit 6 b = 1"
  proof (rule bit_word_eqI)
    fix k assume k: "k < LENGTH(8)"
    show "bit (drop_bit 6 b) k = bit (1 :: byte) k"
      using z [of "14 + k"] by (cases k) (simp_all add: b_def bit_simps bit_0x40)
  qed
  show "push_bit 8 (take_bit 6 (ucast b)) OR ucast (ucast v :: byte) = (v :: u64)"
  proof (rule bit_word_eqI)
    fix k assume k: "k < LENGTH(64)"
    consider "k < 8" | "8 \<le> k" "k < 14" | "14 \<le> k" by linarith
    then show "bit (push_bit 8 (take_bit 6 (ucast b)) OR ucast (ucast v :: byte) :: u64) k = bit v k"
    proof cases
      case 2
      then have "k - 8 < 6" by simp
      then have "\<not> bit (0x40 :: byte) (k - 8)" by (simp only: bit_0x40)
      with 2 \<open>k - 8 < 6\<close> z [of k] bit_0x40_u64 [of "k - 8"] show ?thesis
        by (auto simp: b_def bit_simps)
    qed (use z [of k] k in \<open>simp_all add: b_def bit_simps bit_0x40\<close>)
  qed
qed

lemma len32: "v \<le> (0xffffffff :: u64) \<Longrightarrow> ucast (ucast v :: u32) = v"
proof (rule bit_word_eqI)
  fix k assume "v \<le> 0xffffffff" "k < LENGTH(64)"
  then show "bit (ucast (ucast v :: u32) :: u64) k = bit v k"
    using le_mask_bits(3) [of v k] by (cases "k < 32") (simp_all add: bit_simps)
qed

lemma readLength_first:
  "parses m bs x \<Longrightarrow>
   (let lenType = drop_bit 6 b in
     if lenType = 0 then ret (take_bit 6 (ucast b), False)
     else if lenType = 1 then
       bind (wrap_err ''read len14Bit failed'' readByte) (\<lambda>nextByte.
       ret (push_bit 8 (take_bit 6 (ucast b)) OR ucast nextByte, False))
     else if lenType = 2 then
       (if b = 0x80 then
          bind (wrap_err ''read len32Bit failed'' (readFull 4)) (\<lambda>bs.
          ret (ucast (be_word bs :: u32), False))
        else if b = 0x81 then
          bind (wrap_err ''read len64Bit failed'' (readFull 8)) (\<lambda>bs.
          ret (be_word bs, False))
        else throw (ErrMsg ''illegal length encoding''))
     else ret (take_bit 6 (ucast b), True)) = m \<Longrightarrow>
   parses readLength (b # bs) x"
  unfolding readLength_def and_0xc0 ucast_and_3f
  by (rule parses_bind_eq [where bs = "[b]" and cs = bs, OF parses_wrap_err [OF parses_readByte]]) simp_all

lemma parses_readLength: "parses readLength (length_bytes v) (v, False)"
proof -
  consider "v \<le> 63" | "\<not> v \<le> 63" "v \<le> 16383" | "\<not> v \<le> 63" "\<not> v \<le> 16383" "v \<le> 0xffffffff"
    | "\<not> v \<le> 63" "\<not> v \<le> 16383" "\<not> v \<le> 0xffffffff" by blast
  then show ?thesis
  proof cases
    case 1
    then have "length_bytes v = [ucast v]" by (simp add: length_bytes_def)
    moreover have "parses readLength [ucast v] (v, False)"
      by (rule readLength_first [OF parses_ret]) (simp only: Let_def len6 [OF 1] simp_thms if_True)
    ultimately show ?thesis by simp
  next
    case 2
    define b :: byte where "b = ucast (drop_bit 8 v) OR 0x40"
    have bytes: "length_bytes v = b # [ucast v]" using 2 by (simp add: length_bytes_def b_def)
    note l = len14 [OF 2(2), folded b_def]
    have "parses (bind (wrap_err ''read len14Bit failed'' readByte) (\<lambda>nextByte.
       ret (push_bit 8 (take_bit 6 (ucast b)) OR ucast nextByte, False))) [ucast v] (v, False)"
      by (rule parses_bind_ret [OF parses_wrap_err [OF parses_readByte]]) (simp only: l)
    then show ?thesis unfolding bytes by (rule readLength_first) (simp add: Let_def l(1))
  next
    case 3
    then have bytes: "length_bytes v = 0x80 # be_bytes 4 (ucast v :: u32)" by (simp add: length_bytes_def)
    have "parses (bind (wrap_err ''read len32Bit failed'' (readFull 4)) (\<lambda>bs.
          ret (ucast (be_word bs :: u32), False))) (be_bytes 4 (ucast v :: u32)) (v, False)"
      by (rule parses_bind_ret [OF parses_wrap_err [OF parses_readFull_eq]])
        (simp_all add: be_word_be_bytes len32 [OF 3(3)])
    then show ?thesis unfolding bytes by (rule readLength_first) (simp add: Let_def)
  next
    case 4
    then have bytes: "length_bytes v = 0x81 # be_bytes 8 v" by (simp add: length_bytes_def)
    have "parses (bind (wrap_err ''read len64Bit failed'' (readFull 8)) (\<lambda>bs.
          ret (be_word bs, False))) (be_bytes 8 v) (v, False)"
      by (rule parses_bind_ret [OF parses_wrap_err [OF parses_readFull_eq]])
        (simp_all add: be_word_be_bytes)
    then show ?thesis unfolding bytes by (rule readLength_first) (simp add: Let_def)
  qed
qed

lemma parses_readLen: "parses readLen (length_bytes v) v"
  unfolding readLen_def by (rule parses_bind_ret [OF parses_readLength]) simp

interpretation length_codec: codec writeLength "\<lambda>c. length_bytes" readLen "\<lambda>v. True"
  by unfold_locales (simp_all add: emits_writeLength parses_readLen)

text \<open>The forms of a length are the shortest that hold it.\<close>

lemma length_length_bytes:
  "length (length_bytes v) = (if v \<le> 63 then 1 else if v \<le> 16383 then 2 else if v \<le> 0xffffffff then 5 else 9)"
  by (simp add: length_bytes_def)

section \<open>Strings\<close>

lemma parses_special:
  assumes "parses m bs x"
    and "(if k = (0 :: u64) then bind readByte (\<lambda>b. ret (itoa (sint b)))
        else if k = 1 then bind readInt16 (\<lambda>b. ret (itoa (sint b)))
        else if k = 2 then bind readInt32 (\<lambda>b. ret (itoa (sint b)))
        else if k = 3 then readLZF
        else throw (ErrMsg ''Unknown string encode type '')) = m"
    and "drop_bit 6 (b :: byte) = 3" and "take_bit 6 (ucast b) = k"
  shows "parses readString (b # bs) x"
proof -
  have "parses readLength [b] (k, True)"
    by (rule readLength_first [OF parses_ret]) (simp add: Let_def assms(3,4))
  then show ?thesis unfolding readString_def
    by (rule parses_bind_eq [of _ "[b]"]) (use assms(1,2) in simp_all)
qed

lemma parses_int_string:
  assumes "int_string_bytes v = Some bs"
  shows "parses readString bs (itoa v)"
proof -
  consider "-128 \<le> v" "v \<le> 127" "bs = [0xc0, of_int v]"
    | "-32768 \<le> v" "v \<le> 32767" "bs = 0xc1 # le_bytes 2 (of_int v :: u16)"
    | "-2147483648 \<le> v" "v \<le> 2147483647" "bs = 0xc2 # le_bytes 4 (of_int v :: u32)"
    using assms by (auto simp: int_string_bytes_def split: if_splits)
  then show ?thesis
  proof cases
    case 1
    then have "sint (of_int v :: byte) = v" by (intro sint_of_int_range) simp_all
    then have "parses (bind readByte (\<lambda>b. ret (itoa (sint b)))) [of_int v] (itoa v)"
      by (intro parses_bind_ret [OF parses_readByte]) simp
    then show ?thesis unfolding 1(3) by (rule parses_special) simp_all
  next
    case 2
    then have s: "sint (of_int v :: u16) = v" by (intro sint_of_int_range) simp_all
    have "parses readInt16 (le_bytes 2 (of_int v :: u16)) (of_int v)" unfolding readInt16_def
      by (rule parses_bind_ret [OF parses_wrap_err [OF parses_readFull_eq]]) (simp_all add: le_word_le_bytes)
    then have "parses (bind readInt16 (\<lambda>b. ret (itoa (sint b)))) (le_bytes 2 (of_int v :: u16)) (itoa v)"
      by (rule parses_bind_ret) (simp only: s)
    then show ?thesis unfolding 2(3) by (rule parses_special) simp_all
  next
    case 3
    then have s: "sint (of_int v :: u32) = v" by (intro sint_of_int_range) simp_all
    have "parses readInt32 (le_bytes 4 (of_int v :: u32)) (of_int v)" unfolding readInt32_def
      by (rule parses_bind_ret [OF parses_wrap_err [OF parses_readFull_eq]]) (simp_all add: le_word_le_bytes)
    then have "parses (bind readInt32 (\<lambda>b. ret (itoa (sint b)))) (le_bytes 4 (of_int v :: u32)) (itoa v)"
      by (rule parses_bind_ret) (simp only: s)
    then show ?thesis unfolding 3(3) by (rule parses_special) simp_all
  qed
qed

lemma u64_length:
  assumes "n < 2 ^ 32"
  shows "uint (of_nat n :: u64) = int n" "sint (of_nat n :: u64) = int n" "unat (of_nat n :: u64) = n"
proof -
  have n: "n < 2 ^ 63" using assms by simp
  then show "unat (of_nat n :: u64) = n" by (intro unat_of_nat_small) simp
  then show "uint (of_nat n :: u64) = int n" by (simp only: uint_nat)
  show "sint (of_nat n :: u64) = int n"
    using sint_of_int_range [where 'a = 64, of "int n"] n by simp
qed

lemma parses_simple_string:
  assumes "short_string s"
  shows "parses readString (simple_string_bytes s) s"
proof -
  have n: "length s < 2 ^ 32" using assms by (simp add: short_string_def)
  note l = u64_length [OF n]
  show ?thesis unfolding readString_def simple_string_bytes_def
  proof (rule parses_bind [OF parses_readLength])
    have "parses (seq (make_check 1 (uint (of_nat (length s) :: u64))) (readFull (unat (of_nat (length s) :: u64)))) s s"
      unfolding l(1,3) by (rule parses_make_check [OF _ _ parses_readFull]) (use n in \<open>simp_all add: max_alloc_def\<close>)
    then show "parses (case (of_nat (length s) :: u64, False) of (n, special) \<Rightarrow>
      if special then
       (if n = 0 then bind readByte (\<lambda>b. ret (itoa (sint b)))
        else if n = 1 then bind readInt16 (\<lambda>b. ret (itoa (sint b)))
        else if n = 2 then bind readInt32 (\<lambda>b. ret (itoa (sint b)))
        else if n = 3 then readLZF
        else throw (ErrMsg ''Unknown string encode type ''))
      else seq (make_check 1 (uint n)) (readFull (unat n))) s s" by simp
  qed
qed

lemma parses_lzf_string:
  assumes lz: "Compress s = Ok lz" and s: "short_string s" "20 < length s"
  shows "parses readString (lzf_string_bytes lz s) s"
proof -
  have n: "length s < 2 ^ 32" using s by (simp add: short_string_def)
  have c: "lzf_tokens lz s" "length lz < length s" using Compress_cases [of s] n s(2) lz by auto
  have "length lz < 2 ^ 32" using c(2) n by simp
  note l = u64_length [OF this] and m = u64_length [OF n]
  have dec: "Decompress lz (int (length lz)) (int (length s)) = Ok s"
    using n s(2) by (intro Decompress_tokens [OF c(1)]) (auto simp: max_alloc_def)
  have "parses readLZF (length_bytes (of_nat (length lz)) @ length_bytes (of_nat (length s)) @ lz) s"
    unfolding readLZF_def
  proof (intro parses_bind [OF parses_readLen])
    have "parses (bind (readFull (length lz)) (\<lambda>val.
        of_result (Decompress val (int (length lz)) (int (length s))))) lz s"
      by (rule parses_bind_eq [OF parses_readFull]) (use parses_of_result [OF dec] in simp_all)
    then show "parses (seq (make_check 1 (uint (of_nat (length lz) :: u64)))
       (bind (readFull (unat (of_nat (length lz) :: u64))) (\<lambda>val.
        of_result (Decompress val (sint (of_nat (length lz) :: u64)) (sint (of_nat (length s) :: u64)))))) lz s"
      unfolding l m
      by (intro parses_make_check) (use \<open>length lz < 2 ^ 32\<close> in \<open>simp_all add: max_alloc_def\<close>)
  qed
  then show ?thesis unfolding lzf_string_bytes_def append_Cons append_Nil
    by (rule parses_special) simp_all
qed

lemma parses_nan_string:
  assumes "short_string s"
  shows "parses readString (nan_string_bytes c s) s"
proof (cases "\<exists>lz. c \<and> 20 < length s \<and> Compress s = Ok lz")
  case True
  with assms show ?thesis by (auto simp: nan_string_bytes_def intro: parses_lzf_string)
next
  case False
  then have "nan_string_bytes c s = simple_string_bytes s"
    by (auto simp: nan_string_bytes_def split: result.split)
  with assms show ?thesis by (simp add: parses_simple_string)
qed

lemma parses_string:
  assumes "short_string s"
  shows "parses readString (string_bytes c s) s"
proof (cases "Option.bind (isEncodableUint32 s) int_string_bytes")
  case None
  then have "string_bytes c s = nan_string_bytes c s" by (simp add: string_bytes_def)
  with assms show ?thesis by (simp add: parses_nan_string)
next
  case (Some bs)
  then obtain v where v: "isEncodableUint32 s = Some v" "int_string_bytes v = Some bs"
    by (auto simp: bind_eq_Some_conv)
  have "itoa v = s" using v(1) by (simp add: isEncodableUint32_def itoa_is_encodable)
  with parses_int_string [OF v(2)] have "parses readString bs s" by simp
  with Some show ?thesis by (simp add: string_bytes_def)
qed

interpretation string_codec: codec writeString string_bytes readString short_string
  by unfold_locales (simp_all add: emits_writeString parses_string)

interpretation nan_string_codec: codec writeNanString nan_string_bytes readString short_string
  by unfold_locales (simp_all add: emits_writeNanString parses_nan_string)

section \<open>Floats\<close>

lemma parses_readFloat: "parses readFloat (le_bytes 8 f) f"
  unfolding readFloat_def
  by (rule parses_bind_ret [OF parses_readFull_eq]) (simp_all add: le_word_le_bytes)

interpretation float_codec: codec writeFloat64 "\<lambda>c. le_bytes 8" readFloat "\<lambda>f. True"
  by unfold_locales (simp_all add: emits_writeFloat64 parses_readFloat)

end
