(* ===== verification/Ziplist.thy ===== *)
theory Ziplist
  imports StringCodec
begin

text \<open>
  Ziplists (\<open>core/ziplist.go\<close>, \<open>writeZipList\<close> of \<open>core/list.go\<close>): the reader of one entry and of a whole
  list, the encoder of one entry and of a whole list, and what the reader makes of what the encoder
  wrote. Entries of more than 16383 bytes are outside the round trip: the encoder gives them a
  length field the reader does not understand, which is a theorem below.
\<close>

section \<open>Reading\<close>

definition zipBigPrevLen :: byte where "zipBigPrevLen = 0xfe"
definition zipInt04B :: byte where "zipInt04B = 0x0f"
definition zipInt08B :: byte where "zipInt08B = 0xfe"
definition zipInt16B :: byte where "zipInt16B = 0xc0"
definition zipInt24B :: byte where "zipInt24B = 0xf0"
definition zipInt32B :: byte where "zipInt32B = 0xd0"
definition zipInt64B :: byte where "zipInt64B = 0xe0"

lemmas zip_constants = zipBigPrevLen_def zipInt04B_def zipInt08B_def zipInt16B_def zipInt24B_def
  zipInt32B_def zipInt64B_def

definition readZipListLength :: "bytes \<Rightarrow> nat cur" where
  "readZipListLength buf =
     bind (gets (\<lambda>cursor. cursor)) (\<lambda>cursor.
     bind (slice buf (cursor + 8) (cursor + 10)) (\<lambda>bs.
     seq (skip 10) (
     ret (unat (le_word bs :: u16)))))"

text \<open>The two switches over the header byte, after the length of the previous entry.\<close>

definition readZipListBody :: "bytes \<Rightarrow> byte \<Rightarrow> bytes cur" where
  "readZipListBody buf header =
    (let typ = drop_bit 6 header in
     if typ = 0 then readBytes buf (unat (header AND 0x3f))
     else if typ = 1 then
       bind (indexByte buf) (\<lambda>b.
       readBytes buf (unat (push_bit 8 (ucast (header AND 0x3f)) OR ucast b :: u64)))
     else if typ = 2 then
       bind (readBytes buf 4) (\<lambda>lenBytes.
       readBytes buf (unat (be_word lenBytes :: u32)))
     else if header = zipInt08B then
       bind (readBufByte buf) (\<lambda>b. ret (itoa (sint b)))
     else if header = zipInt16B then
       bind (readBytes buf 2) (\<lambda>bs. ret (itoa (sint (le_word bs :: u16))))
     else if header = zipInt32B then
       bind (readBytes buf 4) (\<lambda>bs. ret (itoa (sint (le_word bs :: u32))))
     else if header = zipInt64B then
       bind (readBytes buf 8) (\<lambda>bs. ret (itoa (sint (le_word bs :: u64))))
     else if header = zipInt24B then
       bind (readBytes buf 3) (\<lambda>bs. ret (itoa (sint24 bs)))
     else if drop_bit 4 header = zipInt04B then
       ret (itoa (uint (header AND 0x0f) - 1))
     else throw (ErrMsg ''unknown entry header''))"

definition readZipListEntry :: "bytes \<Rightarrow> bytes cur" where
  "readZipListEntry buf =
     bind (indexByte buf) (\<lambda>prevLen.
     seq (if prevLen = zipBigPrevLen then skip 4 else ret ()) (
     bind (indexByte buf) (readZipListBody buf)))"

text \<open>A reader over the string just read, with a cursor of its own that starts at 0.\<close>

definition in_buffer :: "'a cur \<Rightarrow> 'a dec" where
  "in_buffer m = of_result (fst (m 0))"

definition ziplist_entries :: "bytes \<Rightarrow> bytes list cur" where
  "ziplist_entries buf = bind (readZipListLength buf) (\<lambda>n. repeat_comp n (readZipListEntry buf))"

definition readZipList :: "bytes list dec" where
  "readZipList = bind readString (\<lambda>buf. in_buffer (ziplist_entries buf))"

lemma consumes_in_buffer [consumes_intros]: "consumes (in_buffer m)"
  unfolding in_buffer_def by (rule consumes_of_result)

lemma consumes_readZipList [consumes_intros]: "consumes readZipList"
  unfolding readZipList_def by (intro consumes_intros)

section \<open>Writing\<close>

definition zip_prev_len :: "u32 \<Rightarrow> bytes" where
  "zip_prev_len prevLen = (if prevLen < 0xfe then [ucast prevLen] else 0xfe # le_bytes 4 prevLen)"

definition zip_int :: "int \<Rightarrow> bytes" where
  "zip_int intVal =
     (if 0 \<le> intVal \<and> intVal \<le> 12 then [0xf0 OR of_int (intVal + 1)]
      else if -128 \<le> intVal \<and> intVal \<le> 127 then [zipInt08B, of_int intVal]
      else if -8388608 \<le> intVal \<and> intVal \<le> 8388607 then
        zipInt24B # take 3 (le_bytes 4 (of_int intVal :: u32))
      else if -2147483648 \<le> intVal \<and> intVal \<le> 2147483647 then
        zipInt32B # le_bytes 4 (of_int intVal :: u32)
      else zipInt64B # le_bytes 8 (of_int intVal :: u64))"

definition encodeZipListEntry :: "u32 \<Rightarrow> bytes \<Rightarrow> bytes result" where
  "encodeZipListEntry prevLen v =
     (case isEncodableUint64 v of
        Some intVal \<Rightarrow> Ok (zip_prev_len prevLen @ zip_int intVal)
      | None \<Rightarrow>
          if length v \<le> 63 then Ok (zip_prev_len prevLen @ of_nat (length v) # v)
          else if length v \<le> 16383 then
            Ok (zip_prev_len prevLen @
                [of_nat (length v div 256) OR 0x40, of_nat (length v)] @ v)
          else if length v \<le> 4294967295 then
            Ok (zip_prev_len prevLen @
                0x80 # le_bytes 4 (of_nat (length v) :: u32) @ [0, 0, 0, 0] @ v)
          else Panic (PanicValue ''too large string''))"

text \<open>The loop of \<open>writeZipList\<close>, over the variables \<open>buf\<close>, \<open>zlBytes\<close>, \<open>zlTail\<close> and \<open>prevLen\<close>.\<close>

record zl_state =
  zl_buf :: bytes
  zlBytes :: int
  zlTail :: int
  prevLen :: u32

fun zl_loop :: "bytes list \<Rightarrow> zl_state \<Rightarrow> zl_state result" where
  "zl_loop [] st = Ok st"
| "zl_loop (v # vs) st =
     rbind (encodeZipListEntry (prevLen st) v) (\<lambda>entry.
     zl_loop vs \<lparr>zl_buf = zl_buf st @ entry,
       zlBytes = zlBytes st + int (length entry),
       zlTail = (if vs \<noteq> [] then zlTail st + int (length entry) else zlTail st),
       prevLen = of_nat (length entry)\<rparr>)"

definition ziplist_encode :: "bytes list \<Rightarrow> bytes result" where
  "ziplist_encode vs =
     rbind (zl_loop vs \<lparr>zl_buf = replicate 10 0, zlBytes = 11, zlTail = 10, prevLen = 0\<rparr>) (\<lambda>st.
     Ok (le_bytes 4 (of_int (zlBytes st) :: u32) @ le_bytes 4 (of_int (zlTail st) :: u32) @
         le_bytes 2 (of_nat (length vs) :: u16) @ drop 10 (zl_buf st @ [0xff])))"

definition writeZipList :: "bytes list \<Rightarrow> unit enc" where
  "writeZipList vs = bind (of_result (ziplist_encode vs)) writeNanString"

lemma writer_only_writeZipList [writer_intros]: "writer_only (writeZipList vs)"
  unfolding writeZipList_def by (intro writer_intros)

section \<open>One entry\<close>

text \<open>What the encoder produces for an entry that the reader can read back.\<close>

definition zl_ok :: "bytes \<Rightarrow> bool" where
  "zl_ok v \<longleftrightarrow> length v \<le> 16383"

definition zl_body :: "bytes \<Rightarrow> bytes" where
  "zl_body v =
     (case isEncodableUint64 v of
        Some intVal \<Rightarrow> zip_int intVal
      | None \<Rightarrow>
          if length v \<le> 63 then of_nat (length v) # v
          else [of_nat (length v div 256) OR 0x40, of_nat (length v)] @ v)"

definition zl_entry :: "u32 \<Rightarrow> bytes \<Rightarrow> bytes" where
  "zl_entry p v = zip_prev_len p @ zl_body v"

lemma encode_zl_entry: "zl_ok v \<Longrightarrow> encodeZipListEntry p v = Ok (zl_entry p v)"
  by (auto simp: encodeZipListEntry_def zl_entry_def zl_body_def zl_ok_def split: option.splits)

lemma ucast_small_u32: "p < (0xfe :: u32) \<Longrightarrow> (ucast p :: byte) \<noteq> 0xfe"
proof
  assume "p < 0xfe" and "(ucast p :: byte) = 0xfe"
  then have "unat p < 254" and "unat (ucast p :: byte) = 254"
    by (simp_all add: word_less_nat_alt)
  moreover have "unat (ucast p :: byte) = unat p mod 256"
    by (simp add: unsigned_ucast_eq take_bit_nat_def)
  ultimately have "unat p < 254" "unat p mod 256 = 254" by simp_all
  then show False by simp
qed

text \<open>The length of the previous entry is skipped, in either form.\<close>

lemma readZipListEntry_skip_prev:
  assumes "buf = pre @ zip_prev_len p @ h # rest"
  shows "readZipListEntry buf (length pre) =
    readZipListBody buf h (length pre + length (zip_prev_len p) + 1)"
proof (cases "p < 0xfe")
  case True
  with assms show ?thesis using ucast_small_u32 [OF True]
    by (simp add: readZipListEntry_def zip_prev_len_def zipBigPrevLen_def indexByte_def seq_def
        bind_def ret_def nth_append)
next
  case False
  have "(0xfe # le_bytes 4 p @ h # rest) ! 5 = h" by (simp add: nth_append)
  with assms False show ?thesis
    by (simp add: readZipListEntry_def zip_prev_len_def zipBigPrevLen_def indexByte_def seq_def
        bind_def skip_def modify_def nth_append)
qed

lemma scans_zip_entry:
  assumes "scans (\<lambda>buf. readZipListBody buf h) bs x"
  shows "scans readZipListEntry (zip_prev_len p @ h # bs) x"
proof (rule scansI)
  fix pre suf
  have "readZipListEntry (pre @ (zip_prev_len p @ h # bs) @ suf) (length pre) =
      readZipListBody (pre @ (zip_prev_len p @ h # bs) @ suf) h (length pre + length (zip_prev_len p) + 1)"
    by (rule readZipListEntry_skip_prev [where rest = "bs @ suf"]) simp
  also have "\<dots> = (Ok x, length pre + length (zip_prev_len p) + 1 + length bs)"
    by (rule scans_at [OF assms, where pre = "pre @ zip_prev_len p @ [h]" and suf = suf]) simp_all
  finally show "readZipListEntry (pre @ (zip_prev_len p @ h # bs) @ suf) (length pre) =
      (Ok x, length pre + length (zip_prev_len p @ h # bs))" by simp
qed

text \<open>Headers of strings, and the reader on each kind of header.\<close>

lemma and_3f: "(h :: byte) AND 0x3f = take_bit 6 h"
  by (simp add: take_bit_eq_mask mask_eq_exp_minus_1)

lemma len6_header:
  assumes "n \<le> 63"
  shows "drop_bit 6 (of_nat n :: byte) = 0" and "unat ((of_nat n :: byte) AND 0x3f) = n"
proof -
  have u: "unat (of_nat n :: byte) = n" using assms by (intro unat_of_nat_byte) simp
  have "unat (drop_bit 6 (of_nat n :: byte)) = 0" unfolding unat_drop_bit_eq u
    using assms by (simp add: drop_bit_eq_div)
  then show "drop_bit 6 (of_nat n :: byte) = 0" by (simp only: unat_eq_zero)
  show "unat ((of_nat n :: byte) AND 0x3f) = n"
    using assms by (simp add: and_3f unsigned_take_bit_eq u take_bit_nat_eq_self)
qed

lemma len14_header:
  assumes "n \<le> 16383"
  defines "b \<equiv> of_nat (n div 256) OR 0x40 :: byte"
  shows "drop_bit 6 b = 1"
    and "unat (push_bit 8 (ucast (b AND 0x3f)) OR ucast (of_nat n :: byte) :: u64) = n"
proof -
  have v: "unat (of_nat n :: u64) = n" using assms by (intro unat_of_nat_small) simp
  then have le: "(of_nat n :: u64) \<le> 16383" using assms(1) by (simp add: word_le_nat_alt)
  have lo: "(ucast (of_nat n :: u64) :: byte) = of_nat n"
    by (rule bit_word_eqI) (simp add: bit_simps)
  have hi: "(ucast (drop_bit 8 (of_nat n :: u64)) :: byte) = of_nat (n div 256)"
  proof (rule bit_word_eqI)
    fix k assume k: "k < LENGTH(8)"
    have "n div 256 = drop_bit 8 n" by (simp add: drop_bit_eq_div)
    then show "bit (ucast (drop_bit 8 (of_nat n :: u64)) :: byte) k = bit (of_nat (n div 256) :: byte) k"
      using k by (simp only: bit_simps) (simp add: bit_of_nat_word)
  qed
  have b: "b = ucast (drop_bit 8 (of_nat n :: u64)) OR 0x40" by (simp add: b_def hi)
  show "drop_bit 6 b = 1" unfolding b by (rule len14 [OF le])
  have "ucast (b AND 0x3f) = take_bit 6 (ucast b :: u64)"
    by (simp add: and_3f) (rule bit_word_eqI, auto simp: bit_simps)
  then have "push_bit 8 (ucast (b AND 0x3f)) OR ucast (of_nat n :: byte) = (of_nat n :: u64)"
    using len14(2) [OF le] by (simp add: b lo)
  then show "unat (push_bit 8 (ucast (b AND 0x3f)) OR ucast (of_nat n :: byte) :: u64) = n"
    by (simp add: v)
qed

lemma scans_zip_int:
  assumes "0 \<le> v" and "v < 9223372036854775808"
  shows "\<exists>h bs. zip_int v = h # bs \<and> scans (\<lambda>buf. readZipListBody buf h) bs (itoa v)"
proof -
  consider "v \<le> 12" | "12 < v" "v \<le> 127" | "127 < v" "v \<le> 8388607" | "8388607 < v" "v \<le> 2147483647"
    | "2147483647 < v" by linarith
  then show ?thesis
  proof cases
    case 1
    then have "v = 0 \<or> v = 1 \<or> v = 2 \<or> v = 3 \<or> v = 4 \<or> v = 5 \<or> v = 6 \<or> v = 7 \<or> v = 8 \<or> v = 9 \<or>
      v = 10 \<or> v = 11 \<or> v = 12" using assms by presburger
    then have "readZipListBody buf (0xf0 OR of_int (v + 1)) = ret (itoa v)" for buf
      by (elim disjE) (simp_all add: readZipListBody_def zip_constants)
    then show ?thesis using 1 assms by (simp add: zip_int_def scans_ret)
  next
    case 2
    then have s: "sint (of_int v :: byte) = v" by (intro sint_of_int_range) simp_all
    have "scans (\<lambda>buf. readZipListBody buf zipInt08B) [of_int v] (itoa v)"
      by (simp add: readZipListBody_def zip_constants)
        (rule scans_bind_ret [OF scans_readBufByte], simp add: s)
    then show ?thesis using 2 by (simp add: zip_int_def)
  next
    case 3
    then have s: "sint24 (take 3 (le_bytes 4 (of_int v :: u32))) = v" by (intro sint24_le_bytes) simp_all
    have "scans (\<lambda>buf. readZipListBody buf zipInt24B) (take 3 (le_bytes 4 (of_int v :: u32))) (itoa v)"
      by (simp add: readZipListBody_def zip_constants)
        (rule scans_bind_ret [OF scans_readBytes], simp_all add: s)
    then show ?thesis using 3 by (simp add: zip_int_def)
  next
    case 4
    then have s: "sint (of_int v :: u32) = v" by (intro sint_of_int_range) simp_all
    have "scans (\<lambda>buf. readZipListBody buf zipInt32B) (le_bytes 4 (of_int v :: u32)) (itoa v)"
      by (simp add: readZipListBody_def zip_constants)
        (rule scans_bind_ret [OF scans_readBytes], simp_all add: le_word_le_bytes s)
    then show ?thesis using 4 by (simp add: zip_int_def)
  next
    case 5
    then have s: "sint (of_int v :: u64) = v" using assms by (intro sint_of_int_range) simp_all
    have "scans (\<lambda>buf. readZipListBody buf zipInt64B) (le_bytes 8 (of_int v :: u64)) (itoa v)"
      by (simp add: readZipListBody_def zip_constants)
        (rule scans_bind_ret [OF scans_readBytes], simp_all add: le_word_le_bytes s)
    then show ?thesis using 5 by (simp add: zip_int_def)
  qed
qed

lemma scans_zl_body:
  assumes "zl_ok v"
  shows "\<exists>h bs. zl_body v = h # bs \<and> scans (\<lambda>buf. readZipListBody buf h) bs v"
proof (cases "isEncodableUint64 v")
  case (Some i)
  then have "itoa i = v" "0 \<le> i" "i < 2 ^ (64 - 1)"
    using itoa_is_encodable [of 64 v i] is_encodable_range [of 64 v i] by (simp_all add: isEncodableUint64_def)
  with scans_zip_int [of i] Some show ?thesis by (simp add: zl_body_def)
next
  case None
  show ?thesis
  proof (cases "length v \<le> 63")
    case True
    note l = len6_header [OF True]
    have "scans (\<lambda>buf. readZipListBody buf (of_nat (length v))) v v"
      by (simp only: readZipListBody_def Let_def l simp_thms if_True) (rule scans_readBytes, rule refl)
    with None True show ?thesis by (simp add: zl_body_def)
  next
    case False
    have n: "length v \<le> 16383" using assms by (simp add: zl_ok_def)
    define b :: byte where "b = of_nat (length v div 256) OR 0x40"
    note l = len14_header [OF n, folded b_def]
    have "scans (\<lambda>buf. bind (indexByte buf) (\<lambda>b'.
       readBytes buf (unat (push_bit 8 (ucast (b AND 0x3f)) OR ucast b' :: u64)))) ([of_nat (length v)] @ v) v"
      by (rule scans_bind [OF scans_indexByte]) (simp only: l, rule scans_readBytes, rule refl)
    then have "scans (\<lambda>buf. readZipListBody buf b) (of_nat (length v) # v) v"
      by (simp add: readZipListBody_def Let_def l(1))
    with None False show ?thesis by (simp add: zl_body_def b_def)
  qed
qed

lemma scans_zl_entry: "zl_ok v \<Longrightarrow> scans readZipListEntry (zl_entry p v) v"
  using scans_zl_body [of v] scans_zip_entry unfolding zl_entry_def by fastforce

interpretation zip_entry: buffer_codec zl_entry readZipListEntry "\<lambda>v. v" zl_ok
  by unfold_locales (rule scans_zl_entry)

section \<open>A whole list\<close>

fun zl_prevs :: "u32 \<Rightarrow> bytes list \<Rightarrow> u32 list" where
  "zl_prevs p [] = []"
| "zl_prevs p (v # vs) = p # zl_prevs (of_nat (length (zl_entry p v))) vs"

definition zl_entries :: "u32 \<Rightarrow> bytes list \<Rightarrow> bytes list" where
  "zl_entries p vs = map2 zl_entry (zl_prevs p vs) vs"

definition ziplist_bytes :: "bytes list \<Rightarrow> bytes" where
  "ziplist_bytes vs =
     (let es = zl_entries 0 vs in
      le_bytes 4 (of_nat (11 + length (concat es)) :: u32) @
      le_bytes 4 (of_nat (10 + length (concat (butlast es))) :: u32) @
      le_bytes 2 (of_nat (length vs) :: u16) @ concat es @ [0xff])"

lemma length_zl_prevs [simp]: "length (zl_prevs p vs) = length vs"
  by (induction vs arbitrary: p) simp_all

lemma zl_entries_simps [simp]:
  "zl_entries p [] = []"
  "zl_entries p (v # vs) = zl_entry p v # zl_entries (of_nat (length (zl_entry p v))) vs"
  by (simp_all add: zl_entries_def)

lemma length_zl_entries [simp]: "length (zl_entries p vs) = length vs"
  by (simp add: zl_entries_def)

lemma zl_entries_eq_Nil [simp]: "zl_entries p vs = [] \<longleftrightarrow> vs = []"
  by (cases vs) simp_all

lemma last_zl_entries: "vs \<noteq> [] \<Longrightarrow> \<exists>q. last (zl_entries p vs) = zl_entry q (last vs)"
  by (induction vs arbitrary: p) auto

lemma zl_loop_ok:
  "list_all zl_ok vs \<Longrightarrow> zl_loop vs st = Ok
     \<lparr>zl_buf = zl_buf st @ concat (zl_entries (prevLen st) vs),
      zlBytes = zlBytes st + int (length (concat (zl_entries (prevLen st) vs))),
      zlTail = zlTail st + int (length (concat (butlast (zl_entries (prevLen st) vs)))),
      prevLen = (if vs = [] then prevLen st else of_nat (length (last (zl_entries (prevLen st) vs))))\<rparr>"
  by (induction vs arbitrary: st) (auto simp: encode_zl_entry)

lemma ziplist_encode_ok: "list_all zl_ok vs \<Longrightarrow> ziplist_encode vs = Ok (ziplist_bytes vs)"
  by (simp add: ziplist_encode_def zl_loop_ok ziplist_bytes_def Let_def)

lemma length_zip_prev_len: "length (zip_prev_len p) \<le> 5"
  by (simp add: zip_prev_len_def)

lemma length_zl_body: "zl_ok v \<Longrightarrow> length (zl_body v) \<le> 16385"
  by (auto simp: zl_body_def zl_ok_def zip_int_def split: option.splits)

lemma length_zl_entry: "zl_ok v \<Longrightarrow> length (zl_entry p v) \<le> 16390"
  using length_zip_prev_len [of p] length_zl_body [of v] by (simp add: zl_entry_def)

lemma length_zl_entries_bound:
  "list_all zl_ok vs \<Longrightarrow> length (concat (zl_entries p vs)) \<le> 16390 * length vs"
proof (induction vs arbitrary: p)
  case (Cons v vs)
  show ?case
    using length_zl_entry [of v p] Cons.IH [of "of_nat (length (zl_entry p v))"] Cons.prems by simp
qed simp

lemma length_ziplist_bytes: "length (ziplist_bytes vs) = 11 + length (concat (zl_entries 0 vs))"
  by (simp add: ziplist_bytes_def Let_def)

definition zl_ok_list :: "bytes list \<Rightarrow> bool" where
  "zl_ok_list vs \<longleftrightarrow> list_all zl_ok vs \<and> length vs < 65536"

lemma short_ziplist: "zl_ok_list vs \<Longrightarrow> short_string (ziplist_bytes vs)"
  using length_zl_entries_bound [of vs 0]
  by (simp add: zl_ok_list_def short_string_def length_ziplist_bytes)

lemma readZipListLength_ok:
  assumes "length hd8 = 8" and "n < 65536"
  shows "readZipListLength (hd8 @ le_bytes 2 (of_nat n :: u16) @ rest) 0 = (Ok n, 10)"
  using assms
  by (simp add: readZipListLength_def gets_def slice_def skip_def modify_def seq_def bind_def ret_def
      le_word_le_bytes unat_of_nat_small del: unsigned_of_nat)

lemma ziplist_entries_ok:
  assumes "zl_ok_list vs"
  shows "ziplist_entries (ziplist_bytes vs) 0 = (Ok vs, 10 + length (concat (zl_entries 0 vs)))"
proof -
  let ?es = "concat (zl_entries 0 vs)"
  define h where "h = le_bytes 4 (of_nat (11 + length ?es) :: u32) @
    le_bytes 4 (of_nat (10 + length (concat (butlast (zl_entries 0 vs)))) :: u32)"
  define g where "g = le_bytes 2 (of_nat (length vs) :: u16)"
  have bytes: "ziplist_bytes vs = (h @ g) @ ?es @ [0xff]"
    by (simp add: ziplist_bytes_def Let_def h_def g_def)
  have "length h = 8" by (simp add: h_def)
  then have 1: "readZipListLength (ziplist_bytes vs) 0 = (Ok (length vs), 10)"
    unfolding bytes g_def append_assoc using assms by (intro readZipListLength_ok) (auto simp: zl_ok_list_def)
  have "scans (\<lambda>buf. repeat_comp (length vs) (readZipListEntry buf)) ?es vs"
    using zip_entry.scans_entries [of vs "zl_prevs 0 vs"] assms by (simp add: zl_ok_list_def zl_entries_def)
  from scans_at [OF this bytes, of 10] \<open>length h = 8\<close>
  have "repeat_comp (length vs) (readZipListEntry (ziplist_bytes vs)) 10 = (Ok vs, 10 + length ?es)"
    by (simp add: g_def)
  with 1 show ?thesis by (simp add: ziplist_entries_def bind_Ok)
qed

text \<open>A reader over a buffer, behind the string that holds the buffer.\<close>

lemma parses_in_buffer:
  assumes "parses readString bs buf" and "m buf 0 = (Ok x, c)"
  shows "parses (bind readString (\<lambda>buf. in_buffer (m buf))) bs x"
  using parses_bind [OF assms(1), of "\<lambda>buf. in_buffer (m buf)" "[]" x] assms(2)
  by (simp add: in_buffer_def parses_of_result)

lemma emits_writeZipList:
  assumes "zl_ok_list vs"
  shows "emits c (writeZipList vs) (nan_string_bytes c (ziplist_bytes vs)) ()"
  unfolding writeZipList_def
  using assms by (intro emits_of_result [OF ziplist_encode_ok] emits_writeNanString short_ziplist)
    (simp_all add: zl_ok_list_def)

lemma parses_readZipList:
  assumes "zl_ok_list vs"
  shows "parses readZipList (nan_string_bytes c (ziplist_bytes vs)) vs"
  unfolding readZipList_def
  by (rule parses_in_buffer [where m = ziplist_entries,
        OF parses_nan_string [OF short_ziplist [OF assms]] ziplist_entries_ok [OF assms]])

interpretation ziplist_codec: codec writeZipList "\<lambda>c vs. nan_string_bytes c (ziplist_bytes vs)" readZipList zl_ok_list
  by unfold_locales (simp_all add: emits_writeZipList parses_readZipList)

section \<open>Properties\<close>

text \<open>
  C24. Ziplist round trip: a list of at most 65535 entries of at most 16383 bytes each, written by
  \<open>writeZipList\<close> over a writer that does not fail, is read back by \<open>readZipList\<close> as the same list,
  whatever follows it in the file, with or without compression.
\<close>

theorem ziplist_roundtrip:
  assumes "\<forall>v \<in> set vs. length v \<le> 16383" and "length vs < 65536" and "reliable e"
  shows "\<exists>bs. writeZipList vs e = (Ok (), put bs e) \<and>
    (\<forall>d rest. input d = bs @ rest \<longrightarrow> readZipList d = (Ok vs, advance bs rest d))"
  using assms by (intro ziplist_codec.roundtrip) (simp_all add: zl_ok_list_def zl_ok_def list_all_iff)

lemma ziplist_roundtrip_witness:
  "\<exists>bs. writeZipList [ascii ''a'', ascii ''12'', []] (NewEncoder (\<lambda>h p. None)) =
      (Ok (), put bs (NewEncoder (\<lambda>h p. None))) \<and>
    (\<forall>d rest. input d = bs @ rest \<longrightarrow>
       readZipList d = (Ok [ascii ''a'', ascii ''12'', []], advance bs rest d))"
  by (rule ziplist_roundtrip) (simp_all add: ascii_def reliable_def NewEncoder_def)

text \<open>
  C33. The header of an encoded ziplist is right: the first field is the number of bytes of the whole, at
  the offset in the second field stands the last entry, the list ends with 0xff. So the list can be
  walked from its end, as the format promises.
\<close>

theorem ziplist_layout:
  assumes "\<forall>v \<in> set vs. length v \<le> 16383" and "length vs < 65536" and "vs \<noteq> []"
  shows "\<exists>buf. ziplist_encode vs = Ok buf \<and>
    unat (le_word (take 4 buf) :: u32) = length buf \<and>
    fst (readZipListEntry buf (unat (le_word (take 4 (drop 4 buf)) :: u32))) = Ok (last vs) \<and>
    last buf = 0xff"
proof -
  have ok: "list_all zl_ok vs" using assms(1) by (simp add: list_all_iff zl_ok_def)
  let ?es = "zl_entries 0 vs"
  have bound: "length (concat ?es) < 2 ^ 32 - 11"
    using length_zl_entries_bound [OF ok, of 0] assms(2) by simp
  have split: "concat ?es = concat (butlast ?es) @ last ?es"
    using assms(3) by (metis append_butlast_last_id concat.simps(1,2) concat_append append_Nil2 zl_entries_eq_Nil)
  define h where "h = le_bytes 4 (of_nat (11 + length (concat ?es)) :: u32)"
  define t where "t = le_bytes 4 (of_nat (10 + length (concat (butlast ?es))) :: u32)"
  define g where "g = le_bytes 2 (of_nat (length vs) :: u16)"
  have bytes: "ziplist_bytes vs = h @ t @ g @ concat ?es @ [0xff]"
    by (simp add: ziplist_bytes_def Let_def h_def t_def g_def)
  have len: "length h = 4" "length t = 4" "length g = 2" by (simp_all add: h_def t_def g_def)
  have hv: "unat (le_word h :: u32) = 11 + length (concat ?es)"
    unfolding h_def using bound by (simp only: le_word_le_bytes len_of_numeral_defs) (intro unat_of_nat_small, simp)
  have tv: "unat (le_word t :: u32) = 10 + length (concat (butlast ?es))"
    unfolding t_def using bound split by (simp only: le_word_le_bytes len_of_numeral_defs) (intro unat_of_nat_small, simp)
  have last_entry: "\<exists>p. last ?es = zl_entry p (last vs)"
    using assms(3) by (rule last_zl_entries)
  have "zl_ok (last vs)" using ok assms(3) by (simp add: list_all_iff)
  with last_entry have "scans readZipListEntry (last ?es) (last vs)" by (auto intro: scans_zl_entry)
  from scans_at [OF this, of "ziplist_bytes vs" "h @ t @ g @ concat (butlast ?es)" "[0xff]"]
  have "fst (readZipListEntry (ziplist_bytes vs) (10 + length (concat (butlast ?es)))) = Ok (last vs)"
    using len by (simp add: bytes split)
  moreover have "take 4 (ziplist_bytes vs) = h" "take 4 (drop 4 (ziplist_bytes vs)) = t"
    using len by (simp_all add: bytes)
  ultimately show ?thesis
    using hv tv ok by (simp add: ziplist_encode_ok length_ziplist_bytes) (simp add: bytes)
qed

lemma ziplist_layout_witness:
  "\<exists>buf. ziplist_encode [ascii ''a'', ascii ''12''] = Ok buf \<and>
    unat (le_word (take 4 buf) :: u32) = length buf \<and>
    fst (readZipListEntry buf (unat (le_word (take 4 (drop 4 buf)) :: u32))) = Ok (last [ascii ''a'', ascii ''12'']) \<and>
    last buf = 0xff"
  by (rule ziplist_layout) (simp_all add: ascii_def)

text \<open>
  C37. The bound of the round trip is sharp: the encoding of an entry of more than 16383 bytes (its length in
  eight bytes, little endian) is never read back, because the reader expects four bytes, big endian.
  Whatever stands around the entry, the reader fails or stops elsewhere than at its end.
\<close>

theorem ziplist_long_entry_lost:
  assumes "16383 < length v" and "length v < 2 ^ 32" and "isEncodableUint64 v = None"
  shows "\<exists>entry. encodeZipListEntry p v = Ok entry \<and>
    (\<forall>pre suf. readZipListEntry (pre @ entry @ suf) (length pre) \<noteq> (Ok v, length pre + length entry))"
proof -
  define L where "L = le_bytes 4 (of_nat (length v) :: u32)"
  define entry where "entry = zip_prev_len p @ 0x80 # L @ [0, 0, 0, 0] @ v"
  have enc: "encodeZipListEntry p v = Ok entry"
    using assms by (simp add: encodeZipListEntry_def entry_def L_def)
  have "readZipListEntry (pre @ entry @ suf) (length pre) \<noteq> (Ok v, length pre + length entry)" for pre suf
  proof
    assume run: "readZipListEntry (pre @ entry @ suf) (length pre) = (Ok v, length pre + length entry)"
    let ?buf = "pre @ entry @ suf" and ?c = "length pre + length (zip_prev_len p) + 1"
    have buf: "?buf = pre @ zip_prev_len p @ 0x80 # (L @ [0, 0, 0, 0] @ v @ suf)"
      by (simp add: entry_def)
    have "readZipListBody ?buf 0x80 ?c = (Ok v, length pre + length entry)"
      using run readZipListEntry_skip_prev [OF buf] by simp
    moreover have "readBytes ?buf 4 ?c = (Ok L, ?c + 4)"
      using scansD [OF scans_readBytes, of 4 L "pre @ zip_prev_len p @ [0x80]"]
      by (simp add: buf L_def)
    ultimately have "readBytes ?buf (unat (be_word L :: u32)) (?c + 4) = (Ok v, length pre + length entry)"
      by (simp add: readZipListBody_def bind_Ok)
    then have "length v = unat (be_word L :: u32)"
      and "?c + 4 + unat (be_word L :: u32) = length pre + length entry"
      by (auto simp: readBytes_def split: if_splits)
    then show False by (simp add: entry_def L_def)
  qed
  with enc show ?thesis by blast
qed

lemma ziplist_long_entry_lost_witness:
  "\<exists>entry. encodeZipListEntry 0 (replicate 16384 97) = Ok entry \<and>
    (\<forall>pre suf. readZipListEntry (pre @ entry @ suf) (length pre) \<noteq>
      (Ok (replicate 16384 97), length pre + length entry))"
proof (rule ziplist_long_entry_lost)
  show "isEncodableUint64 (replicate 16384 97) = None"
    by (simp add: isEncodableUint64_def is_encodable_uint_def list_all_iff is_digit_byte_def)
qed simp_all

end
