(* ===== verification/Listpack.thy ===== *)
theory Listpack
  imports Ziplist
begin

text \<open>
  Listpacks: the readers of \<open>core/listpack.go\<close>, and the encoders of integers, strings, back lengths and
  whole listpacks that \<open>core/stream.go\<close> uses. The integers and strings on which the encoders and the
  reader agree are characterised exactly; on the others the code loses the value, and the
  theorems say so.
\<close>

section \<open>Reading\<close>

text \<open>
  An entry is the pair \<open>str, intval\<close> of the code, of which \<open>str == nil\<close> tells which one counts, and
  the length of encoding, content and back length.
\<close>

datatype lp_value = LpStr bytes | LpInt int

definition readListPackLength :: "bytes \<Rightarrow> nat cur" where
  "readListPackLength buf =
     bind (gets (\<lambda>cursor. cursor)) (\<lambda>cursor.
     bind (slice buf (cursor + 4) (cursor + 6)) (\<lambda>bs.
     seq (skip 6) (
     ret (unat (le_word bs :: u16)))))"

definition getBackLen :: "u32 \<Rightarrow> u32" where
  "getBackLen elementLen =
     (if elementLen \<le> 127 then 1
      else if elementLen < 0x3fff then 2
      else if elementLen < 0x1fffff then 3
      else if elementLen < 0xfffffff then 4
      else 5)"

text \<open>\<open>backlen := getBackLen(contentLen); *cursor += int(backlen); return ..., contentLen + backlen, nil\<close>\<close>

definition lp_done :: "lp_value \<Rightarrow> u32 \<Rightarrow> (lp_value \<times> u32) cur" where
  "lp_done v contentLen =
     seq (skip (unat (getBackLen contentLen))) (ret (v, contentLen + getBackLen contentLen))"

text \<open>The switches over the header byte.\<close>

definition readListPackBody :: "bytes \<Rightarrow> byte \<Rightarrow> (lp_value \<times> u32) cur" where
  "readListPackBody buf header =
    (let typ = drop_bit 6 header in
     if typ = 0 \<or> typ = 1 then lp_done (LpInt (sint header)) 1
     else if typ = 2 then
       (let strLen = unat (header AND 0x3f) in
        bind (readBytes buf strLen) (\<lambda>s. lp_done (LpStr s) (of_nat (1 + strLen))))
     else if drop_bit 4 header = 12 \<or> drop_bit 4 header = 13 then
       bind (readBufByte buf) (\<lambda>next.
       let v = (push_bit 8 (ucast header AND 0x1f) OR ucast next) :: u64;
           v' = (if 4096 \<le> v then - (8191 - v) - 1 else v) in
       lp_done (LpInt (sint v')) 2)
     else if drop_bit 4 header = 14 then
       bind (readBufByte buf) (\<lambda>b1.
       let strLen = be_word [header AND 0x0f, b1] :: u16 in
       bind (readBytes buf (unat strLen)) (\<lambda>s. lp_done (LpStr s) (ucast (2 + strLen))))
     else if header AND 0x0f = 0 then
       bind (readBytes buf 4) (\<lambda>lenBytes.
       let strLen = unat (le_word lenBytes :: u32) in
       bind (readBytes buf strLen) (\<lambda>s. lp_done (LpStr s) (of_nat (1 + 4 + strLen))))
     else if header AND 0x0f = 1 then
       bind (readBytes buf 2) (\<lambda>bs. lp_done (LpInt (sint (le_word bs :: u16))) 3)
     else if header AND 0x0f = 2 then
       bind (readBytes buf 3) (\<lambda>bs. lp_done (LpInt (sint24 bs)) 4)
     else if header AND 0x0f = 3 then
       bind (readBytes buf 4) (\<lambda>bs. lp_done (LpInt (sint (le_word bs :: u32))) 5)
     else if header AND 0x0f = 4 then
       bind (readBytes buf 8) (\<lambda>bs. lp_done (LpInt (sint (le_word bs :: u64))) 9)
     else if header AND 0x0f = 15 then throw (ErrMsg ''unexpected end'')
     else throw (ErrMsg ''unknown entry header''))"

definition readListPackEntry :: "bytes \<Rightarrow> (lp_value \<times> u32) cur" where
  "readListPackEntry buf = bind (readBufByte buf) (readListPackBody buf)"

fun lp_string :: "lp_value \<Rightarrow> bytes" where
  "lp_string (LpStr s) = s"
| "lp_string (LpInt i) = itoa i"

definition readListPackEntryAsString :: "bytes \<Rightarrow> bytes cur" where
  "readListPackEntryAsString buf =
     bind (wrap_err ''read from failed'' (readListPackEntry buf)) (\<lambda>(v, n). ret (lp_string v))"

definition readListPackEntryAsInt :: "bytes \<Rightarrow> int cur" where
  "readListPackEntryAsInt buf =
     bind (wrap_err ''read from failed'' (readListPackEntry buf)) (\<lambda>(v, n).
       case v of LpStr s \<Rightarrow> throw (ErrMsg '' is not a integer'') | LpInt i \<Rightarrow> ret i)"

definition listpack_entries :: "bytes \<Rightarrow> (bytes list \<times> nat list) cur" where
  "listpack_entries buf =
     bind (readListPackLength buf) (\<lambda>n.
     bind (repeat_comp n (bind (readListPackEntry buf) (\<lambda>(v, len). ret (lp_string v, unat len)))) (\<lambda>xs.
     ret (map fst xs, map snd xs)))"

definition readListPack :: "(bytes list \<times> nat list) dec" where
  "readListPack = bind readString (\<lambda>buf. in_buffer (listpack_entries buf))"

lemma consumes_readListPack [consumes_intros]: "consumes readListPack"
  unfolding readListPack_def by (intro consumes_intros)

section \<open>Encoding\<close>

definition encodeBacklen :: "u32 \<Rightarrow> bytes" where
  "encodeBacklen elementLen =
     (if elementLen \<le> 127 then [ucast elementLen]
      else if elementLen < 0x3fff then
        [ucast (0x80 OR drop_bit 8 elementLen), ucast (elementLen AND 0xff)]
      else if elementLen < 0x1fffff then
        [ucast (0xc0 OR drop_bit 16 elementLen), ucast (drop_bit 8 elementLen AND 0xff),
         ucast (elementLen AND 0xff)]
      else if elementLen < 0xfffffff then
        [ucast (0xe0 OR drop_bit 24 elementLen), ucast (drop_bit 16 elementLen AND 0xff),
         ucast (drop_bit 8 elementLen AND 0xff), ucast (elementLen AND 0xff)]
      else
        [0xf0, ucast (drop_bit 24 elementLen AND 0xff), ucast (drop_bit 16 elementLen AND 0xff),
         ucast (drop_bit 8 elementLen AND 0xff), ucast (elementLen AND 0xff)])"

definition encodeListPackInt :: "int \<Rightarrow> bytes" where
  "encodeListPackInt v =
     (if -127 \<le> v \<and> v \<le> 127 then [of_int v]
      else if -8191 \<le> v \<and> v \<le> 8191 then
        (let uval = (if v < 0 then of_int (8191 + v + 1) else of_int v) :: u16 in
         [ucast (0xc0 OR drop_bit 8 uval), ucast (uval AND 0xff)])
      else if -32767 \<le> v \<and> v \<le> 32767 then 0xf1 # le_bytes 2 (of_int v :: u16)
      else if -8388607 \<le> v \<and> v \<le> 8388607 then 0xf2 # take 3 (le_bytes 4 (of_int v :: u32))
      else if -2147483647 \<le> v \<and> v \<le> 2147483647 then 0xf3 # le_bytes 4 (of_int v :: u32)
      else 0xf4 # le_bytes 8 (of_int v :: u64))"

definition encodeListPackString :: "bytes \<Rightarrow> bytes" where
  "encodeListPackString s =
     (if length s \<le> 63 then (0x80 OR of_nat (length s)) # s
      else if length s < 4096 then
        [0xe0 OR of_nat (length s div 256), of_nat (length s)] @ s
      else 0xf0 # le_bytes 4 (of_nat (length s) :: u32) @ s)"

text \<open>
  \<open>listpackEntry\<close> is a pair of an integer and a string of which the string counts unless it is empty.
\<close>

record listpack_entry =
  intVal :: int
  strVal :: bytes

definition lp_encode :: "listpack_entry \<Rightarrow> bytes" where
  "lp_encode en = (if strVal en \<noteq> [] then encodeListPackString (strVal en) else encodeListPackInt (intVal en))"

text \<open>
  The two loops: the first appends the encodings and collects their sizes, the second walks backwards,
  cuts the encodings out of the joint buffer again and puts each with its back length in front.
\<close>

fun lp_first_pass :: "listpack_entry list \<Rightarrow> bytes \<Rightarrow> nat list \<Rightarrow> bytes \<times> nat list" where
  "lp_first_pass [] listpackData entrySizes = (listpackData, entrySizes)"
| "lp_first_pass (en # ens) listpackData entrySizes =
     lp_first_pass ens (listpackData @ lp_encode en) (entrySizes @ [length (lp_encode en)])"

fun lp_second_pass :: "bytes \<Rightarrow> nat list \<Rightarrow> nat \<Rightarrow> bytes \<Rightarrow> bytes" where
  "lp_second_pass listpackData entrySizes 0 finalListpack = finalListpack"
| "lp_second_pass listpackData entrySizes (Suc i) finalListpack =
     (let backlen = encodeBacklen (of_nat (entrySizes ! i));
          entryStart = sum_list (take i entrySizes);
          entry = take (entrySizes ! i) (drop entryStart listpackData) in
      lp_second_pass listpackData entrySizes i (entry @ backlen @ finalListpack))"

definition buildListpackWithBacklen :: "listpack_entry list \<Rightarrow> bytes" where
  "buildListpackWithBacklen ens =
     (case lp_first_pass ens [] [] of (listpackData, entrySizes) \<Rightarrow>
      let finalListpack = lp_second_pass listpackData entrySizes (length ens) [] in
      le_bytes 4 (of_nat (length finalListpack + 6) :: u32) @ le_bytes 2 (of_nat (length ens) :: u16) @
      finalListpack)"

section \<open>Header bytes\<close>

lemma push_or_add:
  fixes x :: "'a::len word"
  assumes "unat x < 2 ^ n"
  shows "push_bit n a OR x = push_bit n a + x"
proof (rule disjunctive_add [symmetric])
  show "\<not> bit (push_bit n a) k \<or> \<not> bit x k" for k
    using upper_bits_clear [OF assms, of k] by (auto simp: bit_simps)
qed

lemma or_headers:
  fixes x :: byte
  shows "unat x < 64 \<Longrightarrow> 0xc0 OR x = 0xc0 + x"
    and "unat x < 64 \<Longrightarrow> 0x80 OR x = 0x80 + x"
    and "unat x < 32 \<Longrightarrow> 0xe0 OR x = 0xe0 + x"
  using push_or_add [of x 6 3] push_or_add [of x 6 2] push_or_add [of x 5 7] by simp_all

lemma unat_header: "m + n < 256 \<Longrightarrow> unat (of_nat m + of_nat n :: byte) = m + n"
  using unat_of_nat_byte [of "m + n"] by simp

lemma drop_bit_of_nat_byte: "n < 256 \<Longrightarrow> drop_bit k (of_nat n :: byte) = of_nat (n div 2 ^ k)"
proof (rule unsigned_word_eqI [where 'a = nat])
  assume n: "n < 256"
  then have "n div 2 ^ k < 256" by (meson div_le_dividend order_le_less_trans)
  then show "unat (drop_bit k (of_nat n :: byte)) = unat (of_nat (n div 2 ^ k) :: byte)"
    using n by (simp only: unat_drop_bit_eq unat_of_nat_byte) (simp add: drop_bit_eq_div)
qed

lemma take_bit_of_nat_byte: "n < 256 \<Longrightarrow> take_bit k (of_nat n :: byte) = of_nat (n mod 2 ^ k)"
proof (rule unsigned_word_eqI [where 'a = nat])
  assume n: "n < 256"
  then have "n mod 2 ^ k < 256" by (meson mod_less_eq_dividend order_le_less_trans)
  then show "unat (take_bit k (of_nat n :: byte)) = unat (of_nat (n mod 2 ^ k) :: byte)"
    using n by (simp only: unsigned_take_bit_eq unat_of_nat_byte) (simp add: take_bit_nat_def)
qed

lemma and_masks:
  "(h :: 'a::len word) AND 0x0f = take_bit 4 h" "h AND 0x1f = take_bit 5 h" "h AND 0x3f = take_bit 6 h"
  "h AND 0xff = take_bit 8 h"
  by (simp_all add: take_bit_eq_mask mask_eq_exp_minus_1)

section \<open>One entry\<close>

lemma length_encodeBacklen: "length (encodeBacklen k) = unat (getBackLen k)"
  by (simp add: encodeBacklen_def getBackLen_def)

lemma scans_lp_done: "scans (\<lambda>buf. lp_done v k) (encodeBacklen k) (v, k + getBackLen k)"
  unfolding lp_done_def seq_def
  by (rule scans_bind_ret [OF scans_skip]) (simp_all add: length_encodeBacklen)

lemma scans_then_done:
  assumes "scans m bs x" and "\<And>buf. f buf x = lp_done v k"
  shows "scans (\<lambda>buf. bind (m buf) (f buf)) (bs @ encodeBacklen k) (v, k + getBackLen k)"
  by (rule scans_bind [OF assms(1)]) (simp add: assms(2) scans_lp_done)

definition lp_reads :: "bytes \<Rightarrow> lp_value \<Rightarrow> bool" where
  "lp_reads enc v \<longleftrightarrow> (let k = of_nat (length enc) in
     scans readListPackEntry (enc @ encodeBacklen k) (v, k + getBackLen k))"

lemma lp_readsI:
  assumes "scans (\<lambda>buf. readListPackBody buf h) (bs @ encodeBacklen k) (v, k + getBackLen k)"
    and "k = of_nat (Suc (length bs))"
  shows "lp_reads (h # bs) v"
proof -
  have "scans readListPackEntry (h # bs @ encodeBacklen k) (v, k + getBackLen k)"
    unfolding readListPackEntry_def
    by (rule scans_bind_eq [where x = h and f = readListPackBody, OF scans_readBufByte assms(1)]) simp
  then show ?thesis using assms(2) by (simp add: lp_reads_def)
qed

text \<open>The integers that survive: all but those whose sign or top bit the encoder loses.\<close>

definition lp_int_ok :: "int \<Rightarrow> bool" where
  "lp_int_ok v \<longleftrightarrow> -9223372036854775808 \<le> v \<and> v < 9223372036854775808 \<and>
     \<not> (-127 \<le> v \<and> v \<le> -1) \<and> \<not> (4096 \<le> v \<and> v \<le> 8191) \<and> \<not> (-8191 \<le> v \<and> v \<le> -4097)"

lemma lp_int7:
  assumes "0 \<le> v" and "v \<le> 127"
  shows "lp_reads [of_int v] (LpInt v)"
proof -
  obtain n where n: "v = int n" "n \<le> 127" using assms by (metis nat_0_le nat_le_iff of_nat_numeral)
  then have "drop_bit 6 (of_nat n :: byte) = of_nat (n div 64)" using drop_bit_of_nat_byte [of n 6] by simp
  moreover have "n div 64 = 0 \<or> n div 64 = 1" using n(2) by linarith
  ultimately have "drop_bit 6 (of_nat n :: byte) = 0 \<or> drop_bit 6 (of_nat n :: byte) = 1" by auto
  moreover have "sint (of_int v :: byte) = v" using assms by (intro sint_of_int_range) simp_all
  ultimately have body: "readListPackBody buf (of_int v) = lp_done (LpInt v) 1" for buf
    by (simp add: readListPackBody_def n(1))
  show ?thesis
    by (rule lp_readsI) (use scans_lp_done in \<open>simp_all add: body\<close>)
qed

text \<open>The thirteen bits that the header of an int13 carries.\<close>

definition int13_bytes :: "nat \<Rightarrow> bytes" where
  "int13_bytes n = [of_nat (192 + n div 256), of_nat (n mod 256)]"

lemma int13_header:
  assumes "unat (u :: u16) = n" and "n < 8192"
  shows "[ucast (0xc0 OR drop_bit 8 u), ucast (u AND 0xff)] = int13_bytes n"
proof -
  have hi: "unat (ucast (drop_bit 8 u) :: byte) = n div 256"
    unfolding unsigned_ucast_eq unat_drop_bit_eq assms(1)
    using assms(2) by (simp add: drop_bit_eq_div take_bit_nat_eq_self)
  then have x: "(ucast (drop_bit 8 u) :: byte) = of_nat (n div 256)"
    by (metis of_nat_unat ucast_id)
  have "(ucast (0xc0 OR drop_bit 8 u) :: byte) = 0xc0 OR ucast (drop_bit 8 u)"
    by (rule bit_word_eqI) (simp add: bit_simps)
  also have "\<dots> = 0xc0 + ucast (drop_bit 8 u)" using hi assms(2) by (intro or_headers) simp
  finally have 1: "(ucast (0xc0 OR drop_bit 8 u) :: byte) = of_nat (192 + n div 256)" by (simp add: x)
  have "unat (ucast (u AND 0xff) :: byte) = unat (of_nat (n mod 256) :: byte)"
    unfolding and_masks unsigned_ucast_eq unsigned_take_bit_eq assms(1)
    using unat_of_nat_byte [of "n mod 256"] by (simp add: take_bit_nat_def del: unsigned_of_nat)
  then have "(ucast (u AND 0xff) :: byte) = of_nat (n mod 256)" by (rule unsigned_word_eqI)
  with 1 show ?thesis by (simp add: int13_bytes_def)
qed

lemma int13_div: "m < 32 \<Longrightarrow> (192 + m) mod 32 = m" "m < 32 \<Longrightarrow> (192 + m) div 64 = 3"
    "m < 32 \<Longrightarrow> (192 + m) div 16 = 12 \<or> (192 + m) div 16 = 13" for m :: nat
proof -
  assume m: "m < 32"
  have "(32 * 6 + m) mod 32 = m" using m by (simp only: mod_mult_self4 mod_less)
  then show "(192 + m) mod 32 = m" by simp
  show "(192 + m) div 64 = 3" using m by (intro div_nat_eqI) simp_all
  show "(192 + m) div 16 = 12 \<or> (192 + m) div 16 = 13"
  proof (cases "m < 16")
    case True
    then have "(192 + m) div 16 = 12" by (intro div_nat_eqI) simp_all
    then show ?thesis ..
  next
    case False
    with m have "(192 + m) div 16 = 13" by (intro div_nat_eqI) simp_all
    then show ?thesis ..
  qed
qed

lemma int13_value:
  assumes "n < 8192"
  defines "h \<equiv> of_nat (192 + n div 256) :: byte" and "b \<equiv> of_nat (n mod 256) :: byte"
  shows "push_bit 8 (ucast h AND 0x1f) OR ucast b = (of_nat n :: u64)"
proof -
  have h: "unat h = 192 + n div 256" unfolding h_def using assms(1) by (intro unat_of_nat_byte) simp
  have b: "unat b = n mod 256" unfolding b_def by (intro unat_of_nat_byte) simp
  have "unat (ucast h AND 0x1f :: u64) = n div 256"
    unfolding and_masks unsigned_take_bit_eq unsigned_ucast_eq h
    unfolding take_bit_nat_def using int13_div(1) [of "n div 256"] assms(1) by simp
  then have hi: "(ucast h AND 0x1f :: u64) = of_nat (n div 256)" by (metis of_nat_unat ucast_id)
  have lo: "(ucast b :: u64) = of_nat (n mod 256)" by (metis b of_nat_unat)
  have "unat (ucast b :: u64) < 2 ^ 8"
    unfolding unsigned_ucast_eq b by (rule le_less_trans [OF take_bit_nat_less_eq_self]) simp
  then have "push_bit 8 (ucast h AND 0x1f) OR ucast b = push_bit 8 (ucast h AND 0x1f) + (ucast b :: u64)"
    by (rule push_or_add)
  also have "\<dots> = of_nat (n div 256 * 256 + n mod 256)" by (simp only: hi lo push_bit_eq_mult of_nat_add of_nat_mult) simp
  finally show ?thesis by (simp only: div_mult_mod_eq)
qed

definition int13_val :: "nat \<Rightarrow> int" where
  "int13_val n = (if 4096 \<le> n then int n - 8192 else int n)"

text \<open>What the reader makes of an int13, whatever the writer meant by it.\<close>

lemma lp_int13:
  assumes "n < 8192"
  shows "lp_reads (int13_bytes n) (LpInt (int13_val n))"
proof -
  define h b :: byte where "h = of_nat (192 + n div 256)" and "b = of_nat (n mod 256)"
  have d: "192 + n div 256 < 256" using assms by simp
  have ty: "drop_bit 6 h = 3" unfolding h_def drop_bit_of_nat_byte [OF d]
    using int13_div(2) [of "n div 256"] assms by simp
  then have ty01: "\<not> (drop_bit 6 h = 0 \<or> drop_bit 6 h = 1)" and ty2: "drop_bit 6 h \<noteq> 2" by simp_all
  have hi: "drop_bit 4 h = 12 \<or> drop_bit 4 h = 13"
  proof -
    have "(192 + n div 256) div 16 = 12 \<or> (192 + n div 256) div 16 = 13"
      using assms by (intro int13_div) simp
    then show ?thesis unfolding h_def drop_bit_of_nat_byte [OF d] by auto
  qed
  note v = int13_value [OF assms, folded h_def b_def]
  have un: "unat (of_nat n :: u64) = n" using assms by (intro unat_of_nat_small) simp
  have ge: "4096 \<le> (of_nat n :: u64) \<longleftrightarrow> 4096 \<le> n" by (simp add: word_le_nat_alt un del: unsigned_of_nat)
  have "sint (- (8191 - of_nat n) - 1 :: u64) = int n - 8192"
  proof -
    have "(- (8191 - of_nat n) - 1 :: u64) = of_int (int n - 8192)" by simp
    moreover have "sint (of_int (int n - 8192) :: u64) = int n - 8192"
      using assms by (intro sint_of_int_range) simp_all
    ultimately show ?thesis by simp
  qed
  moreover have "sint (of_nat n :: u64) = int n" using u64_length(2) [of n] assms by simp
  ultimately have val: "sint (if 4096 \<le> (of_nat n :: u64) then - (8191 - of_nat n) - 1 else of_nat n :: u64) = int13_val n"
    by (simp add: ge int13_val_def)
  have "scans (\<lambda>buf. readListPackBody buf h) ([b] @ encodeBacklen 2) (LpInt (int13_val n), 2 + getBackLen 2)"
    unfolding readListPackBody_def Let_def if_not_P [OF ty01] if_not_P [OF ty2] if_P [OF hi]
    by (rule scans_then_done [OF scans_readBufByte]) (simp only: v val)
  from lp_readsI [OF this] show ?thesis by (simp add: int13_bytes_def h_def b_def)
qed

lemma lp_int_wide:
  assumes "-9223372036854775808 \<le> v" and "v < 9223372036854775808" and "\<not> (-8191 \<le> v \<and> v \<le> 8191)"
  shows "lp_reads (encodeListPackInt v) (LpInt v)"
proof -
  have na: "\<not> (-127 \<le> v \<and> v \<le> 127)" using assms(3) by linarith
  note enc = encodeListPackInt_def if_not_P [OF na] if_not_P [OF assms(3)]
  consider "-32767 \<le> v" "v \<le> 32767" | "\<not> (-32767 \<le> v \<and> v \<le> 32767)" "-8388607 \<le> v" "v \<le> 8388607"
    | "\<not> (-8388607 \<le> v \<and> v \<le> 8388607)" "-2147483647 \<le> v" "v \<le> 2147483647"
    | "\<not> (-2147483647 \<le> v \<and> v \<le> 2147483647)" by blast
  then show ?thesis
  proof cases
    case 1
    then have s: "sint (of_int v :: u16) = v" by (intro sint_of_int_range) simp_all
    have "scans (\<lambda>buf. readListPackBody buf 0xf1) (le_bytes 2 (of_int v :: u16) @ encodeBacklen 3) (LpInt v, 3 + getBackLen 3)"
      by (simp add: readListPackBody_def)
        (rule scans_then_done [OF scans_readBytes], simp_all add: le_word_le_bytes s)
    from lp_readsI [OF this] show ?thesis by (simp only: enc if_P [OF conjI [OF 1]]) simp
  next
    case 2
    then have s: "sint24 (take 3 (le_bytes 4 (of_int v :: u32))) = v" by (intro sint24_le_bytes) simp_all
    have "scans (\<lambda>buf. readListPackBody buf 0xf2) (take 3 (le_bytes 4 (of_int v :: u32)) @ encodeBacklen 4) (LpInt v, 4 + getBackLen 4)"
      by (simp add: readListPackBody_def)
        (rule scans_then_done [OF scans_readBytes], simp_all add: s)
    from lp_readsI [OF this] show ?thesis by (simp only: enc if_not_P [OF 2(1)] if_P [OF conjI [OF 2(2,3)]]) simp
  next
    case 3
    then have o16: "\<not> (-32767 \<le> v \<and> v \<le> 32767)" by linarith
    have s: "sint (of_int v :: u32) = v" using 3 by (intro sint_of_int_range) simp_all
    have "scans (\<lambda>buf. readListPackBody buf 0xf3) (le_bytes 4 (of_int v :: u32) @ encodeBacklen 5) (LpInt v, 5 + getBackLen 5)"
      by (simp add: readListPackBody_def)
        (rule scans_then_done [OF scans_readBytes], simp_all add: le_word_le_bytes s)
    from lp_readsI [OF this] show ?thesis by (simp only: enc if_not_P [OF o16] if_not_P [OF 3(1)] if_P [OF conjI [OF 3(2,3)]]) simp
  next
    case 4
    then have o16: "\<not> (-32767 \<le> v \<and> v \<le> 32767)" and o24: "\<not> (-8388607 \<le> v \<and> v \<le> 8388607)"
      by linarith+
    have s: "sint (of_int v :: u64) = v" using assms by (intro sint_of_int_range) simp_all
    have "scans (\<lambda>buf. readListPackBody buf 0xf4) (le_bytes 8 (of_int v :: u64) @ encodeBacklen 9) (LpInt v, 9 + getBackLen 9)"
      by (simp add: readListPackBody_def)
        (rule scans_then_done [OF scans_readBytes], simp_all add: le_word_le_bytes s)
    from lp_readsI [OF this] show ?thesis
      by (simp only: enc if_not_P [OF o16] if_not_P [OF o24] if_not_P [OF 4]) simp
  qed
qed

definition int13_code :: "int \<Rightarrow> nat" where
  "int13_code v = nat (if v < 0 then 8192 + v else v)"

lemma encode_int13:
  assumes "\<not> (-127 \<le> v \<and> v \<le> 127)" and "-8191 \<le> v" and "v \<le> 8191"
  shows "encodeListPackInt v = int13_bytes (int13_code v)"
proof -
  define n where "n = int13_code v"
  have n: "n < 8192" using assms by (auto simp: n_def int13_code_def)
  have "(if v < 0 then of_int (8191 + v + 1) else of_int v :: u16) = of_nat n"
    using assms by (simp add: n_def int13_code_def)
  moreover have "unat (of_nat n :: u16) = n" using n by (intro unat_of_nat_small) simp
  ultimately have "[ucast (0xc0 OR drop_bit 8 (if v < 0 then of_int (8191 + v + 1) else of_int v :: u16)),
      ucast ((if v < 0 then of_int (8191 + v + 1) else of_int v :: u16) AND 0xff)] = int13_bytes n"
    using n by (simp only: int13_header)
  with assms show ?thesis by (auto simp: encodeListPackInt_def Let_def n_def)
qed

lemma lp_int:
  assumes "lp_int_ok v"
  shows "lp_reads (encodeListPackInt v) (LpInt v)"
proof -
  consider "0 \<le> v" "v \<le> 127" | "\<not> (-127 \<le> v \<and> v \<le> 127)" "-8191 \<le> v" "v \<le> 8191"
    | "\<not> (-8191 \<le> v \<and> v \<le> 8191)"
    using assms unfolding lp_int_ok_def by linarith
  then show ?thesis
  proof cases
    case 1
    then show ?thesis using lp_int7 by (simp add: encodeListPackInt_def)
  next
    case 2
    then have "int13_code v < 8192" "int13_val (int13_code v) = v"
      using assms by (auto simp: int13_code_def int13_val_def lp_int_ok_def)
    with lp_int13 [of "int13_code v"] encode_int13 [OF 2] show ?thesis by simp
  next
    case 3
    with assms show ?thesis by (intro lp_int_wide) (auto simp: lp_int_ok_def)
  qed
qed

text \<open>Strings: all that are not too long for the length field.\<close>

lemma lp_string6:
  assumes "length s \<le> 63"
  shows "lp_reads ((0x80 OR of_nat (length s)) # s) (LpStr s)"
proof -
  define h :: byte where "h = 0x80 OR of_nat (length s)"
  have "unat (of_nat (length s) :: byte) = length s" using assms by (intro unat_of_nat_byte) simp
  then have h: "h = of_nat (128 + length s)" using assms or_headers(2) [of "of_nat (length s)"] by (simp add: h_def)
  have d: "128 + length s < 256" using assms by simp
  have "(128 + length s) div 64 = 2" using assms by (intro div_nat_eqI) simp_all
  then have ty: "drop_bit 6 h = 2" unfolding h drop_bit_of_nat_byte [OF d] by simp
  then have ty01: "\<not> (drop_bit 6 h = 0 \<or> drop_bit 6 h = 1)" by simp
  have "(64 * 2 + length s) mod 64 = length s" using assms by (simp only: mod_mult_self4 mod_less)
  then have len: "unat (h AND 0x3f) = length s" unfolding and_masks h take_bit_of_nat_byte [OF d]
    using assms by (simp add: unat_of_nat_byte del: unsigned_of_nat)
  have "scans (\<lambda>buf. readListPackBody buf h) (s @ encodeBacklen (of_nat (1 + length s)))
      (LpStr s, of_nat (1 + length s) + getBackLen (of_nat (1 + length s)))"
    unfolding readListPackBody_def Let_def if_not_P [OF ty01] if_P [OF ty] len
    by (rule scans_then_done [OF scans_readBytes]) simp_all
  from lp_readsI [OF this] show ?thesis by (simp add: h_def)
qed

lemma lp_string12:
  assumes "length s < 4096"
  shows "lp_reads ([0xe0 OR of_nat (length s div 256), of_nat (length s)] @ s) (LpStr s)"
proof -
  define h :: byte where "h = 0xe0 OR of_nat (length s div 256)"
  define b :: byte where "b = of_nat (length s)"
  have m: "length s div 256 < 16" using assms by simp
  then have "unat (of_nat (length s div 256) :: byte) = length s div 256" by (intro unat_of_nat_byte) simp
  then have h: "h = of_nat (224 + length s div 256)"
    using m or_headers(3) [of "of_nat (length s div 256)"] by (simp add: h_def)
  have d: "224 + length s div 256 < 256" using m by simp
  have "(224 + length s div 256) div 64 = 3" "(224 + length s div 256) div 16 = 14"
    using m by (intro div_nat_eqI, simp_all)+
  then have ty: "drop_bit 6 h = 3" and hi: "drop_bit 4 h = 14" unfolding h drop_bit_of_nat_byte [OF d] by simp_all
  then have ty01: "\<not> (drop_bit 6 h = 0 \<or> drop_bit 6 h = 1)" and ty2: "drop_bit 6 h \<noteq> 2"
    and h12: "\<not> (drop_bit 4 h = 12 \<or> drop_bit 4 h = 13)" by simp_all
  have "(16 * 14 + length s div 256) mod 16 = length s div 256" using m by (simp only: mod_mult_self4 mod_less)
  then have lo: "h AND 0x0f = of_nat (length s div 256)" unfolding and_masks h take_bit_of_nat_byte [OF d] by simp
  have len: "be_word [h AND 0x0f, b] = (of_nat (length s) :: u16)"
  proof (rule bit_word_eqI)
    fix k assume k: "k < LENGTH(16)"
    have dv: "length s div 256 = drop_bit 8 (length s)" by (simp add: drop_bit_eq_div)
    show "bit (be_word [h AND 0x0f, b] :: u16) k = bit (of_nat (length s) :: u16) k"
      unfolding lo b_def be_word_def dv using k
      by (cases "k < 8") (auto simp: bit_simps bit_of_nat_word)
  qed
  have un: "unat (of_nat (length s) :: u16) = length s" using assms by (intro unat_of_nat_small) simp
  have cl: "ucast (2 + of_nat (length s) :: u16) = (of_nat (2 + length s) :: u32)"
  proof -
    have "unat (of_nat (2 + length s) :: u16) = 2 + length s" using assms by (intro unat_of_nat_small) simp
    then show ?thesis by (metis of_nat_add of_nat_numeral of_nat_unat)
  qed
  have body: "scans (\<lambda>buf. readListPackBody buf h) ([b] @ s @ encodeBacklen (of_nat (2 + length s)))
      (LpStr s, of_nat (2 + length s) + getBackLen (of_nat (2 + length s)))"
    unfolding readListPackBody_def Let_def if_not_P [OF ty01] if_not_P [OF ty2] if_not_P [OF h12] if_P [OF hi]
    by (rule scans_bind [OF scans_readBufByte], unfold len un, rule scans_then_done [OF scans_readBytes])
      (simp_all only: cl)
  have "scans (\<lambda>buf. readListPackBody buf h) ((b # s) @ encodeBacklen (of_nat (2 + length s)))
      (LpStr s, of_nat (2 + length s) + getBackLen (of_nat (2 + length s)))"
    using body by simp
  from lp_readsI [OF this] show ?thesis by (simp add: h_def b_def)
qed

lemma lp_string32:
  assumes "length s < 2 ^ 32"
  shows "lp_reads (0xf0 # le_bytes 4 (of_nat (length s) :: u32) @ s) (LpStr s)"
proof -
  let ?k = "of_nat (1 + 4 + length s) :: u32"
  have un: "unat (of_nat (length s) :: u32) = length s" using assms by (intro unat_of_nat_small) simp
  have "scans (\<lambda>buf. bind (readBytes buf 4) (\<lambda>lenBytes.
       let strLen = unat (le_word lenBytes :: u32) in
       bind (readBytes buf strLen) (\<lambda>s. lp_done (LpStr s) (of_nat (1 + 4 + strLen)))))
     (le_bytes 4 (of_nat (length s) :: u32) @ s @ encodeBacklen ?k) (LpStr s, ?k + getBackLen ?k)"
  proof (rule scans_bind [OF scans_readBytes])
    have le: "(le_word (le_bytes 4 (of_nat (length s) :: u32)) :: u32) = of_nat (length s)"
      by (simp add: le_word_le_bytes)
    show "scans (\<lambda>buf. let strLen = unat (le_word (le_bytes 4 (of_nat (length s) :: u32)) :: u32) in
       bind (readBytes buf strLen) (\<lambda>s. lp_done (LpStr s) (of_nat (1 + 4 + strLen))))
      (s @ encodeBacklen ?k) (LpStr s, ?k + getBackLen ?k)"
      unfolding Let_def le un by (rule scans_then_done [OF scans_readBytes]) simp_all
  qed simp
  then have "scans (\<lambda>buf. readListPackBody buf 0xf0) ((le_bytes 4 (of_nat (length s) :: u32) @ s) @ encodeBacklen ?k)
      (LpStr s, ?k + getBackLen ?k)"
    by (simp add: readListPackBody_def)
  from lp_readsI [OF this] show ?thesis by simp
qed

lemma lp_string_ok:
  assumes "length s < 2 ^ 32"
  shows "lp_reads (encodeListPackString s) (LpStr s)"
  using assms lp_string6 [of s] lp_string12 [of s] lp_string32 [of s] by (simp add: encodeListPackString_def)

section \<open>A whole listpack\<close>

definition lp_value_of :: "listpack_entry \<Rightarrow> lp_value" where
  "lp_value_of en = (if strVal en \<noteq> [] then LpStr (strVal en) else LpInt (intVal en))"

definition lp_entry_ok :: "listpack_entry \<Rightarrow> bool" where
  "lp_entry_ok en \<longleftrightarrow> (if strVal en \<noteq> [] then length (strVal en) < 2 ^ 32 else lp_int_ok (intVal en))"

definition lp_item :: "listpack_entry \<Rightarrow> bytes" where
  "lp_item en = lp_encode en @ encodeBacklen (of_nat (length (lp_encode en)))"

definition lp_entry_len :: "listpack_entry \<Rightarrow> u32" where
  "lp_entry_len en = (let k = of_nat (length (lp_encode en)) in k + getBackLen k)"

lemma scans_lp_item:
  assumes "lp_entry_ok en"
  shows "scans readListPackEntry (lp_item en) (lp_value_of en, lp_entry_len en)"
proof -
  have "lp_reads (lp_encode en) (lp_value_of en)"
    using assms by (auto simp: lp_entry_ok_def lp_encode_def lp_value_of_def lp_int lp_string_ok)
  then show ?thesis by (simp add: lp_reads_def lp_item_def lp_entry_len_def Let_def)
qed

interpretation lp: buffer_codec "\<lambda>c :: unit. lp_item" readListPackEntry "\<lambda>en. (lp_value_of en, lp_entry_len en)" lp_entry_ok
  by unfold_locales (rule scans_lp_item)

lemma lp_first_pass_eq:
  "lp_first_pass ens d ss = (d @ concat (map lp_encode ens), ss @ map (\<lambda>en. length (lp_encode en)) ens)"
  by (induction ens d ss rule: lp_first_pass.induct) simp_all

lemma lp_second_pass_eq:
  assumes "i \<le> length ens"
  shows "lp_second_pass (concat (map lp_encode ens)) (map (\<lambda>en. length (lp_encode en)) ens) i acc =
    concat (map lp_item (take i ens)) @ acc"
  using assms
proof (induction i arbitrary: acc)
  case (Suc i)
  then have i: "i < length ens" by simp
  have "ens = take i ens @ ens ! i # drop (Suc i) ens" using i by (simp add: id_take_nth_drop)
  then have "concat (map lp_encode ens) =
      concat (map lp_encode (take i ens)) @ lp_encode (ens ! i) @ concat (map lp_encode (drop (Suc i) ens))"
    by (metis concat.simps(2) concat_append list.simps(9) map_append)
  moreover have "sum_list (take i (map (\<lambda>en. length (lp_encode en)) ens)) = length (concat (map lp_encode (take i ens)))"
    by (simp add: take_map length_concat comp_def)
  ultimately have "take (length (lp_encode (ens ! i))) (drop (sum_list (take i (map (\<lambda>en. length (lp_encode en)) ens)))
      (concat (map lp_encode ens))) = lp_encode (ens ! i)" by simp
  then have "lp_second_pass (concat (map lp_encode ens)) (map (\<lambda>en. length (lp_encode en)) ens) (Suc i) acc =
    lp_second_pass (concat (map lp_encode ens)) (map (\<lambda>en. length (lp_encode en)) ens) i (lp_item (ens ! i) @ acc)"
    using i by (simp add: lp_item_def)
  also have "\<dots> = concat (map lp_item (take (Suc i) ens)) @ acc"
    using Suc.IH [of "lp_item (ens ! i) @ acc"] i by (simp add: take_Suc_conv_app_nth)
  finally show ?case .
qed simp

text \<open>
  The two passes lay the entries out one after the other, each in front of its back length.
\<close>

lemma buildListpack_eq:
  "buildListpackWithBacklen ens =
     le_bytes 4 (of_nat (length (concat (map lp_item ens)) + 6) :: u32) @
     le_bytes 2 (of_nat (length ens) :: u16) @ concat (map lp_item ens)"
  using lp_second_pass_eq [of "length ens" ens "[]"]
  by (simp add: buildListpackWithBacklen_def lp_first_pass_eq Let_def)

text \<open>Readers over a listpack: behind the six bytes of the header, whatever is read there.\<close>

lemma readListPackLength_ok:
  assumes "length h = 4" and "n < 65536"
  shows "readListPackLength (h @ le_bytes 2 (of_nat n :: u16) @ rest) 0 = (Ok n, 6)"
  using assms
  by (simp add: readListPackLength_def gets_def slice_def skip_def modify_def seq_def bind_def ret_def
      le_word_le_bytes unat_of_nat_small del: unsigned_of_nat)

lemma listpack_read:
  assumes "scans m (concat (map lp_item ens)) x" and "length ens < 65536"
  shows "bind (readListPackLength (buildListpackWithBacklen ens)) (\<lambda>n. m (buildListpackWithBacklen ens)) 0 =
    (Ok x, 6 + length (concat (map lp_item ens)))"
proof -
  define h where "h = le_bytes 4 (of_nat (length (concat (map lp_item ens)) + 6) :: u32)"
  have h: "length h = 4" by (simp add: h_def)
  have eq: "buildListpackWithBacklen ens = h @ le_bytes 2 (of_nat (length ens) :: u16) @ concat (map lp_item ens)"
    by (simp add: buildListpack_eq h_def)
  have "readListPackLength (buildListpackWithBacklen ens) 0 = (Ok (length ens), 6)"
    unfolding eq by (rule readListPackLength_ok [OF h assms(2)])
  moreover have "m (buildListpackWithBacklen ens) 6 = (Ok x, 6 + length (concat (map lp_item ens)))"
    using scans_at [OF assms(1), of "buildListpackWithBacklen ens" "h @ le_bytes 2 (of_nat (length ens) :: u16)" "[]" 6] h
    by (simp add: eq)
  ultimately show ?thesis by (simp add: bind_Ok)
qed

lemma scans_as_string:
  "lp_entry_ok en \<Longrightarrow> scans readListPackEntryAsString (lp_item en) (lp_string (lp_value_of en))"
  unfolding readListPackEntryAsString_def
  by (rule scans_bind_ret [OF scans_wrap_err [OF scans_lp_item]]) simp_all

lemma scans_as_int:
  "lp_int_ok i \<Longrightarrow> scans readListPackEntryAsInt (lp_item \<lparr>intVal = i, strVal = []\<rparr>) i"
  unfolding readListPackEntryAsInt_def
  by (rule scans_bind_ret [OF scans_wrap_err [OF scans_lp_item]])
    (simp_all add: lp_entry_ok_def lp_value_of_def)

lemma scans_listpack_items:
  assumes "list_all lp_entry_ok ens"
  shows "scans (\<lambda>buf. repeat_comp (length ens) (bind (readListPackEntry buf) (\<lambda>(v, len). ret (lp_string v, unat len))))
    (concat (map lp_item ens)) (map (\<lambda>en. (lp_string (lp_value_of en), unat (lp_entry_len en))) ens)"
proof -
  have "scans (\<lambda>buf. bind (readListPackEntry buf) (\<lambda>(v, len). ret (lp_string v, unat len)))
      (lp_item en) (lp_string (lp_value_of en), unat (lp_entry_len en))" if "lp_entry_ok en" for en
    by (rule scans_bind_ret [OF scans_lp_item [OF that]]) simp
  then have "list_all2 (scans (\<lambda>buf. bind (readListPackEntry buf) (\<lambda>(v, len). ret (lp_string v, unat len))))
      (map lp_item ens) (map (\<lambda>en. (lp_string (lp_value_of en), unat (lp_entry_len en))) ens)"
    using assms by (auto simp: list_all2_conv_all_nth list_all_length)
  from scans_repeat [OF this] show ?thesis by simp
qed

section \<open>Properties\<close>

text \<open>
  C25. A listpack of fewer than 65536 entries built by the encoder is read back entry by entry, strings as they are and
  integers as their decimal form, with the size of encoding, content and back length that the memory profiler uses,
  provided that every entry is one the encoder has an encoding for (\<open>lp_entry_ok\<close>): a string of less than 2^32
  bytes, or an integer other than those that \<open>listpack_int_iff\<close> shows to be lost (-127 to -1, 4096 to 8191 and -8191
  to -4097).
\<close>

theorem listpack_roundtrip:
  assumes "list_all lp_entry_ok ens" and "length ens < 65536"
  shows "fst (listpack_entries (buildListpackWithBacklen ens) 0) =
    Ok (map (\<lambda>en. lp_string (lp_value_of en)) ens, map (\<lambda>en. unat (lp_entry_len en)) ens)"
proof -
  let ?m = "\<lambda>buf. repeat_comp (length ens) (bind (readListPackEntry buf) (\<lambda>(v, len). ret (lp_string v, unat len)))"
  let ?xs = "map (\<lambda>en. (lp_string (lp_value_of en), unat (lp_entry_len en))) ens"
  have "scans (\<lambda>buf. bind (?m buf) (\<lambda>xs. ret (map fst xs, map snd xs))) (concat (map lp_item ens))
      (map fst ?xs, map snd ?xs)"
    by (rule scans_bind_ret [OF scans_listpack_items [OF assms(1)]]) simp
  note r = listpack_read [OF this assms(2)]
  have n: "readListPackLength (buildListpackWithBacklen ens) 0 = (Ok (length ens), 6)"
    unfolding buildListpack_eq by (rule readListPackLength_ok) (simp_all add: assms(2))
  show ?thesis using r n by (simp add: listpack_entries_def bind_Ok comp_def)
qed

lemma listpack_roundtrip_witness:
  "fst (listpack_entries (buildListpackWithBacklen
      [\<lparr>intVal = 300, strVal = []\<rparr>, \<lparr>intVal = 0, strVal = ascii ''ab''\<rparr>]) 0) =
   Ok ([lp_string (LpInt 300), ascii ''ab''], [3, 4])"
proof -
  let ?ens = "[\<lparr>intVal = 300, strVal = []\<rparr>, \<lparr>intVal = 0, strVal = ascii ''ab''\<rparr>]"
  have "list_all lp_entry_ok ?ens" by (simp add: lp_entry_ok_def lp_int_ok_def ascii_def)
  from listpack_roundtrip [OF this] show ?thesis
    by (simp add: lp_value_of_def lp_entry_len_def lp_encode_def encodeListPackInt_def
        encodeListPackString_def getBackLen_def ascii_def Let_def)
qed

text \<open>What becomes of the small negative integers: the header byte is one of another kind of entry.\<close>

definition lp_lost :: "int \<Rightarrow> bool" where
  "lp_lost v \<longleftrightarrow> (case fst (readListPackEntry [of_int v, 1] 0) of Ok (LpInt i, k) \<Rightarrow> i \<noteq> v | _ \<Rightarrow> True)"

lemma lp_lost_64: "list_all lp_lost [-64..-1]"
  by code_simp

lemma lp_done_str_not_int: "bind m (\<lambda>s. lp_done (LpStr s) k) c \<noteq> (Ok (LpInt i, n), c')"
  by (auto simp: bind_def lp_done_def seq_def skip_def modify_def ret_def split: result.splits prod.splits)

lemma lp_lost_127:
  assumes "-127 \<le> v" and "v \<le> -65"
  shows "readListPackEntry [of_int v, 1] 0 \<noteq> (Ok (LpInt i, n), c)"
proof -
  define m where "m = nat (256 + v)"
  have m: "129 \<le> m" "m \<le> 191" using assms by (auto simp: m_def)
  have "(of_int v :: byte) = of_int (256 + v)" by simp
  also have "\<dots> = of_nat m" using assms by (simp add: m_def)
  finally have h: "(of_int v :: byte) = of_nat m" .
  have "m div 64 = 2" using m by (intro div_nat_eqI) simp_all
  moreover have "m < 256" using m by simp
  ultimately have ty: "drop_bit 6 (of_int v :: byte) = 2" by (simp add: h drop_bit_of_nat_byte)
  have "readListPackEntry [of_int v, 1] 0 = readListPackBody [of_int v, 1] (of_int v) 1"
    by (simp add: readListPackEntry_def bind_def readBufByte_def)
  also have "\<dots> \<noteq> (Ok (LpInt i, n), c)"
    unfolding readListPackBody_def Let_def using ty lp_done_str_not_int by simp
  finally show ?thesis .
qed

lemma lp_small_negative_lost:
  assumes "-127 \<le> v" and "v \<le> -1"
  shows "readListPackEntry [of_int v, 1] 0 \<noteq> (Ok (LpInt v, n), c)"
proof (cases "v \<le> -65")
  case True
  with assms show ?thesis using lp_lost_127 by blast
next
  case False
  with assms have "lp_lost v" using lp_lost_64 by (simp add: list_all_iff)
  then show ?thesis by (auto simp: lp_lost_def)
qed

text \<open>
  C31. Exactly which 64-bit integers survive: the encoder and the reader agree on all but -127 to -1 (the
  header byte of another kind of entry), 4096 to 8191 and -8191 to -4097 (beyond the signed 13 bits that the
  reader expects).
\<close>

theorem listpack_int_iff:
  assumes "-9223372036854775808 \<le> v" and "v < 9223372036854775808"
  shows "(\<forall>pre suf. \<exists>n c.
     readListPackEntry (pre @ lp_item \<lparr>intVal = v, strVal = []\<rparr> @ suf) (length pre) = (Ok (LpInt v, n), c)) \<longleftrightarrow>
   \<not> (-127 \<le> v \<and> v \<le> -1) \<and> \<not> (4096 \<le> v \<and> v \<le> 8191) \<and> \<not> (-8191 \<le> v \<and> v \<le> -4097)"
    (is "?reads \<longleftrightarrow> ?ok")
proof
  assume ?ok
  with assms have "lp_entry_ok \<lparr>intVal = v, strVal = []\<rparr>" by (simp add: lp_entry_ok_def lp_int_ok_def)
  from scansD [OF scans_lp_item [OF this]] show ?reads by (fastforce simp: lp_value_of_def)
next
  assume r: ?reads
  have 1: "\<not> (-127 \<le> v \<and> v \<le> -1)"
  proof
    assume v: "-127 \<le> v \<and> v \<le> -1"
    then have "lp_item \<lparr>intVal = v, strVal = []\<rparr> = [of_int v, 1]"
      by (simp add: lp_item_def lp_encode_def encodeListPackInt_def encodeBacklen_def)
    with r [rule_format, of "[]" "[]"] v show False by (auto simp: lp_small_negative_lost)
  qed
  have 2: "int13_val (int13_code v) = v" if v: "\<not> (-127 \<le> v \<and> v \<le> 127)" "-8191 \<le> v" "v \<le> 8191"
  proof -
    have n: "int13_code v < 8192" using v by (auto simp: int13_code_def)
    have "lp_item \<lparr>intVal = v, strVal = []\<rparr> =
        int13_bytes (int13_code v) @ encodeBacklen (of_nat (length (int13_bytes (int13_code v))))"
      by (simp add: lp_item_def lp_encode_def encode_int13 [OF v])
    with lp_int13 [OF n] obtain k where
      "scans readListPackEntry (lp_item \<lparr>intVal = v, strVal = []\<rparr>) (LpInt (int13_val (int13_code v)), k)"
      by (auto simp: lp_reads_def Let_def)
    from scansD [OF this, of "[]" "[]"] r [rule_format, of "[]" "[]"] show ?thesis by auto
  qed
  show ?ok
    using 1 2 by (auto simp: int13_code_def int13_val_def split: if_splits)
qed

lemma listpack_int_iff_witness:
  "\<not> (\<forall>pre suf. \<exists>n c.
     readListPackEntry (pre @ lp_item \<lparr>intVal = -10, strVal = []\<rparr> @ suf) (length pre) = (Ok (LpInt (-10), n), c))"
  using listpack_int_iff [of "-10"] by simp

text \<open>
  An empty string is no string to \<open>buildListpackWithBacklen\<close>: it is written as the integer in the other half
  of the entry, and read back as its decimal form \<open>0\<close>.
\<close>

lemma listpack_empty_string_lost:
  "fst (listpack_entries (buildListpackWithBacklen [\<lparr>intVal = 0, strVal = []\<rparr>]) 0) = Ok ([ascii ''0''], [2])"
  by code_simp

text \<open>
  C36. The reader of a listpack entry never panics, whatever the buffer and the cursor: every access is checked
  and a truncated or unknown entry is an error. (The ziplist reader has unchecked accesses.)
\<close>

theorem readListPackEntry_no_panic: "fst (readListPackEntry buf cursor) \<noteq> Panic p"
proof -
  have "never_panics (lp_done v k)" for v k
    unfolding lp_done_def by (intro panic_intros)
  then have "never_panics (readListPackEntry buf)"
    unfolding readListPackEntry_def readListPackBody_def by (intro panic_intros)
  then show ?thesis by (simp add: never_panics_def)
qed

end
