(* ===== verification/ObjectWriter.thy ===== *)
theory ObjectWriter
  imports Encoder
begin

text \<open>
  What all \<open>Write...Object\<close> methods share: the state check and the options first, then a body that writes
  type byte, key and content, then the new state. The locale \<open>object_writer\<close> is the contract the
  encoder's state machine needs of each of them.
\<close>

definition write_object :: "write_option list \<Rightarrow> unit enc \<Rightarrow> unit enc" where
  "write_object options body =
     seq (beforeWriteObject options) (seq body (set_state writtenObjectState))"

definition WriteStringObject :: "bytes \<Rightarrow> bytes \<Rightarrow> write_option list \<Rightarrow> unit enc" where
  "WriteStringObject key v options =
     write_object options (seq (enc_write [typeString]) (seq (writeString key) (writeString v)))"

section \<open>What an object call may do to the encoder\<close>

definition rank :: "enc_state \<Rightarrow> nat" where
  "rank s = (case s of startState \<Rightarrow> 0 | writtenHeaderState \<Rightarrow> 1 | writtenAuxState \<Rightarrow> 1
     | writtenDBHeaderState \<Rightarrow> 2 | writtenTTLState \<Rightarrow> 3 | writtenObjectState \<Rightarrow> 3 | writtenEndState \<Rightarrow> 4)"

text \<open>
  \<open>object_call e r e'\<close>: refused in a state that allows no object, with the encoder unchanged; else the
  output has only grown, and the state is the one for objects after a success, the old one or the
  one for a time to live after a failure.
\<close>

definition object_call :: "encoder \<Rightarrow> unit result \<Rightarrow> encoder \<Rightarrow> bool" where
  "object_call e r e' \<longleftrightarrow>
     (if validateStateChange writtenObjectState e then
        existDB e' = existDB e \<and> compress e' = compress e \<and> wfault e' = wfault e \<and>
        enc_valkey e' = enc_valkey e \<and> wrote e e' \<and>
        (if r = Ok () then state e' = writtenObjectState
         else state e' = state e \<or> state e' = writtenTTLState)
      else e' = e \<and> (\<exists>x. r = Err x))"

locale object_writer =
  fixes wr :: "write_option list \<Rightarrow> unit enc"
  assumes object_call: "wr options e = (r, e') \<Longrightarrow> object_call e r e'"
begin

lemma refused:
  assumes "state e \<notin> {writtenDBHeaderState, writtenTTLState, writtenObjectState}"
  shows "\<exists>x. wr options e = (Err x, e)"
proof -
  obtain r e' where run: "wr options e = (r, e')" by fastforce
  have "\<not> validateStateChange writtenObjectState e"
    using assms by (cases "state e") (simp_all add: validateStateChange_def stateChanges_def)
  with object_call [OF run] run show ?thesis by (auto simp: object_call_def)
qed

lemma accepted:
  assumes "wr options e = (Ok u, e')"
  shows "state e \<in> {writtenDBHeaderState, writtenTTLState, writtenObjectState}"
    and "state e' = writtenObjectState" and "existDB e' = existDB e"
proof -
  have v: "validateStateChange writtenObjectState e"
    using object_call [OF assms] by (auto simp: object_call_def split: if_splits)
  then show "state e \<in> {writtenDBHeaderState, writtenTTLState, writtenObjectState}"
    by (cases "state e") (simp_all add: validateStateChange_def stateChanges_def)
  show "state e' = writtenObjectState" "existDB e' = existDB e"
    using object_call [OF assms] v by (auto simp: object_call_def)
qed

end

section \<open>The contract holds\<close>

text \<open>What \<open>writeTTL\<close> and the loop over the options may do.\<close>

definition ttl_call :: "encoder \<Rightarrow> unit result \<Rightarrow> encoder \<Rightarrow> bool" where
  "ttl_call e r e' \<longleftrightarrow> existDB e' = existDB e \<and> compress e' = compress e \<and> wfault e' = wfault e \<and>
     enc_valkey e' = enc_valkey e \<and> wrote e e' \<and>
     (state e' = state e \<or> state e' = writtenTTLState)"

lemma ttl_call_refl: "ttl_call e r e"
  by (simp add: ttl_call_def wrote_refl)

lemma ttl_call_only_wrote: "only_wrote e e' \<Longrightarrow> ttl_call e r e'"
  by (auto simp: ttl_call_def dest: only_wroteD)

lemma ttl_call_trans: "ttl_call e r e1 \<Longrightarrow> ttl_call e1 r' e2 \<Longrightarrow> ttl_call e r' e2"
  by (auto simp: ttl_call_def intro: wrote_trans)

lemma check_state_cases:
  "check_state s msg e = (if validateStateChange s e then (Ok (), e) else (Err (ErrMsg msg), e))"
  by (simp add: check_state_def bind_def gets_def guard_def ret_def throw_def)

lemma writeTTL_call:
  assumes "writeTTL t e = (r, e')"
  shows "ttl_call e r e'"
proof -
  define m where "m = seq (enc_write [opCodeExpireTimeMs]) (enc_write (le_bytes 8 t))"
  have m: "writer_only m" unfolding m_def by (intro writer_intros)
  have eq: "writeTTL t = seq (check_state writtenTTLState ''cannot write string object at state: '')
      (seq m (set_state writtenTTLState))"
    unfolding writeTTL_def m_def seq_def by (simp add: bind_assoc)
  obtain r1 e1 where m1: "m e = (r1, e1)" by fastforce
  have w: "only_wrote e e1" by (rule writer_onlyD [OF m m1])
  show ?thesis
    using assms m1 only_wroteD [OF w]
    by (cases r1)
      (auto simp: eq seq_def bind_def check_state_cases set_state_def modify_def ttl_call_def split: if_splits)
qed

lemma options_call:
  "for_each options (\<lambda>opt. case opt of TTLOption o1 \<Rightarrow> writeTTL o1 | _ \<Rightarrow> ret ()) e = (r, e') \<Longrightarrow> ttl_call e r e'"
proof (induction options arbitrary: e)
  case Nil
  then show ?case by (simp add: ret_def ttl_call_refl)
next
  case (Cons opt options)
  let ?m = "case opt of TTLOption o1 \<Rightarrow> writeTTL o1 | _ \<Rightarrow> ret ()"
  obtain r1 e1 where m1: "?m e = (r1, e1)" by fastforce
  have 1: "ttl_call e r1 e1"
    using m1 by (cases opt) (auto simp: ret_def ttl_call_refl dest: writeTTL_call)
  show ?case
  proof (cases r1)
    case (Ok u)
    with Cons.prems m1 have "for_each options (\<lambda>opt. case opt of TTLOption o1 \<Rightarrow> writeTTL o1 | _ \<Rightarrow> ret ()) e1 = (r, e')"
      by (simp add: seq_def bind_def)
    from ttl_call_trans [OF 1 Cons.IH [OF this]] show ?thesis .
  qed (use Cons.prems m1 1 in \<open>auto simp: seq_def bind_def ttl_call_def\<close>)
qed

lemma write_object_call:
  assumes body: "writer_only body" and run: "write_object options body e = (r, e')"
  shows "object_call e r e'"
proof (cases "validateStateChange writtenObjectState e")
  case False
  then show ?thesis using run
    by (auto simp: write_object_def beforeWriteObject_def seq_def bind_def check_state_cases object_call_def)
next
  case True
  let ?opts = "for_each options (\<lambda>opt. case opt of TTLOption o1 \<Rightarrow> writeTTL o1 | _ \<Rightarrow> ret ())"
  obtain r1 e1 where o1: "?opts e = (r1, e1)" by fastforce
  obtain r2 e2 where b2: "body e1 = (r2, e2)" by fastforce
  have 1: "ttl_call e r1 e1" by (rule options_call [OF o1])
  have 2: "ttl_call e1 r2 e2" by (rule ttl_call_only_wrote [OF writer_onlyD [OF body b2]])
  have before: "beforeWriteObject options e = (r1, e1)"
    using True o1 by (cases r1) (simp_all add: beforeWriteObject_def seq_def bind_def check_state_cases)
  show ?thesis
  proof (cases r1)
    case (Ok u)
    then have run2: "seq body (set_state writtenObjectState) e1 = (r, e')"
      using run before by (simp add: write_object_def seq_def bind_def)
    note 12 = ttl_call_trans [OF 1 2]
    show ?thesis
      using run2 b2 12 True
      by (cases r2) (auto simp: seq_def bind_def set_state_def modify_def object_call_def ttl_call_def)
  qed (use run before 1 True in \<open>auto simp: write_object_def seq_def bind_def object_call_def ttl_call_def\<close>)
qed

interpretation string_writer: object_writer "WriteStringObject key v"
  by (unfold_locales, unfold WriteStringObject_def)
    (rule write_object_call [rotated], assumption, intro writer_intros)

section \<open>Over a reliable writer\<close>

text \<open>With no option, or with one time to live, the object is written and nothing else changes.\<close>

definition ttl_bytes :: "u64 option \<Rightarrow> bytes" where
  "ttl_bytes t = (case t of None \<Rightarrow> [] | Some ms \<Rightarrow> opCodeExpireTimeMs # le_bytes 8 ms)"

definition ttl_options :: "u64 option \<Rightarrow> write_option list" where
  "ttl_options t = (case t of None \<Rightarrow> [] | Some ms \<Rightarrow> [WithTTL ms])"

definition object_state :: "enc_state \<Rightarrow> u64 option \<Rightarrow> bool" where
  "object_state s t \<longleftrightarrow> s = writtenDBHeaderState \<or> s = writtenObjectState \<or> (s = writtenTTLState \<and> t = None)"

lemma beforeWriteObject_reliable:
  assumes "reliable e" and "object_state (state e) t"
  shows "\<exists>s. beforeWriteObject (ttl_options t) e = (Ok (), (put (ttl_bytes t) e)\<lparr>state := s\<rparr>)"
proof (cases t)
  case None
  then have "beforeWriteObject (ttl_options t) e = (Ok (), (put (ttl_bytes t) e)\<lparr>state := state e\<rparr>)"
    using assms by (auto simp: beforeWriteObject_def seq_def bind_def check_state_cases ttl_options_def
        ttl_bytes_def object_state_def validateStateChange_def stateChanges_def ret_def)
  then show ?thesis by blast
next
  case (Some ms)
  have "emits (compress e) (seq (enc_write [opCodeExpireTimeMs]) (enc_write (le_bytes 8 ms)))
      ([opCodeExpireTimeMs] @ le_bytes 8 ms) ()"
    by (intro emits_seq emits_enc_write)
  from emitsD [OF this assms(1) refl]
  have w: "seq (enc_write [opCodeExpireTimeMs]) (enc_write (le_bytes 8 ms)) e = (Ok (), put (ttl_bytes t) e)"
    by (simp add: ttl_bytes_def Some)
  have "writeTTL ms e = (Ok (), (put (ttl_bytes t) e)\<lparr>state := writtenTTLState\<rparr>)"
  proof -
    have "validateStateChange writtenTTLState e"
      using assms(2) Some by (auto simp: object_state_def validateStateChange_def stateChanges_def)
    moreover have "seq (enc_write [opCodeExpireTimeMs]) (seq (enc_write (le_bytes 8 ms)) (set_state writtenTTLState)) e
        = (Ok (), (put (ttl_bytes t) e)\<lparr>state := writtenTTLState\<rparr>)"
    proof -
      have "seq (enc_write [opCodeExpireTimeMs]) (seq (enc_write (le_bytes 8 ms)) (set_state writtenTTLState)) =
          seq (seq (enc_write [opCodeExpireTimeMs]) (enc_write (le_bytes 8 ms))) (set_state writtenTTLState)"
        unfolding seq_def by (simp add: bind_assoc)
      then show ?thesis using w by (simp add: seq_def bind_def set_state_def modify_def)
    qed
    ultimately show ?thesis by (simp add: writeTTL_def seq_Ok check_state_cases)
  qed
  then have "beforeWriteObject (ttl_options t) e = (Ok (), (put (ttl_bytes t) e)\<lparr>state := writtenTTLState\<rparr>)"
    using assms Some by (auto simp: beforeWriteObject_def seq_def bind_def check_state_cases ttl_options_def
        WithTTL_def object_state_def validateStateChange_def stateChanges_def ret_def)
  then show ?thesis by blast
qed

text \<open>
  \<open>emits_in k m bs x\<close>: like \<open>emits\<close>, under all the settings of the encoder, on which the choice of
  an encoding depends.
\<close>

type_synonym enc_cfg = "bool \<times> zip_list_opt option \<times> zip_list_opt option \<times> zip_list_opt option \<times> int \<times> bool"

definition cfg :: "encoder \<Rightarrow> enc_cfg" where
  "cfg e = (compress e, listZipListOpt e, hashZipListOpt e, zsetZipListOpt e, listZipListSize e, enc_valkey e)"

definition emits_in :: "enc_cfg \<Rightarrow> 'a enc \<Rightarrow> bytes \<Rightarrow> 'a \<Rightarrow> bool" where
  "emits_in k m bs x \<longleftrightarrow> (\<forall>e. reliable e \<longrightarrow> cfg e = k \<longrightarrow> m e = (Ok x, put bs e))"

lemma cfg_put [simp]: "cfg (put bs e) = cfg e"
  by (simp add: cfg_def)

lemma emits_inD: "emits_in k m bs x \<Longrightarrow> reliable e \<Longrightarrow> cfg e = k \<Longrightarrow> m e = (Ok x, put bs e)"
  by (simp add: emits_in_def)

lemma emits_in_emits: "emits (fst k) m bs x \<Longrightarrow> emits_in k m bs x"
  by (auto simp: emits_in_def cfg_def emits_def)

lemma emits_in_gets:
  "(\<And>e. cfg e = k \<Longrightarrow> f e = v) \<Longrightarrow> emits_in k (g v) bs x \<Longrightarrow> emits_in k (bind (gets f) g) bs x"
  by (simp add: emits_in_def bind_def gets_def)

lemma emits_in_bind:
  assumes "emits_in k m bs x" and "emits_in k (f x) cs y"
  shows "emits_in k (bind m f) (bs @ cs) y"
  unfolding emits_in_def
proof (intro allI impI)
  fix e assume e: "reliable e" "cfg e = k"
  show "bind m f e = (Ok y, put (bs @ cs) e)"
    using e emits_inD [OF assms(1) e] emits_inD [OF assms(2), of "put bs e"] by (simp add: bind_Ok)
qed

lemma write_object_reliable:
  assumes "reliable e" and "object_state (state e) t"
    and body: "emits_in (cfg e) body bs ()"
  shows "write_object (ttl_options t) body e = (Ok (), (put (ttl_bytes t @ bs) e)\<lparr>state := writtenObjectState\<rparr>)"
proof -
  obtain s where b: "beforeWriteObject (ttl_options t) e = (Ok (), (put (ttl_bytes t) e)\<lparr>state := s\<rparr>)"
    using beforeWriteObject_reliable [OF assms(1,2)] by blast
  have "body ((put (ttl_bytes t) e)\<lparr>state := s\<rparr>) = (Ok (), put bs ((put (ttl_bytes t) e)\<lparr>state := s\<rparr>))"
    using assms(1) by (intro emits_inD [OF body]) (simp_all add: reliable_def put_def cfg_def)
  then have "write_object (ttl_options t) body e =
      (Ok (), (put bs ((put (ttl_bytes t) e)\<lparr>state := s\<rparr>))\<lparr>state := writtenObjectState\<rparr>)"
    using b by (simp add: write_object_def seq_def bind_def set_state_def modify_def)
  then show ?thesis by (simp add: put_def digest_write_append)
qed

end
