(* ===== verification/ListObj.thy ===== *)
theory ListObj
  imports Listpack ObjectWriter
begin

text \<open>
  Lists (\<open>core/list.go\<close>): the readers of a plain list, a quicklist of ziplists and a quicklist of plain
  and listpack nodes, and \<open>WriteListObject\<close> with its two encodings. The pages of a quicklist are shown
  to partition the list.
\<close>

section \<open>Reading\<close>

text \<open>\<open>for i := 0; i < int(size); i++\<close>: a size of 2^63 and more is negative there.\<close>

definition readList :: "bytes list dec" where
  "readList =
     bind readLen (\<lambda>size64.
     seq (make_check 24 (sint size64)) (
     repeat_comp (nat (sint size64)) readString))"

definition readQuickList :: "(bytes list \<times> detail) dec" where
  "readQuickList =
     bind readLen (\<lambda>n.
     bind (repeat_comp (nat (sint n)) readZipList) (\<lambda>pages.
     ret (concat pages, QuicklistDetail pages)))"

definition quicklist2_node :: "bytes list \<times> nat list \<times> nat list list \<Rightarrow> (bytes list \<times> nat list \<times> nat list list) dec" where
  "quicklist2_node acc =
     (case acc of (entries, encs, sizes) \<Rightarrow>
      bind readLen (\<lambda>container.
      if unat container = QuicklistNodeContainerPlain then
        bind readString (\<lambda>entry. ret (entries @ [entry], encs @ [QuicklistNodeContainerPlain], sizes))
      else if unat container = QuicklistNodeContainerPacked then
        bind readListPack (\<lambda>(page, lengths).
        ret (entries @ page, encs @ [QuicklistNodeContainerPacked], sizes @ [lengths]))
      else throw (ErrMsg ''unknown quicklist node type'')))"

definition readQuickList2 :: "(bytes list \<times> detail) dec" where
  "readQuickList2 =
     bind readLen (\<lambda>n.
     bind (iter_comp (nat (sint n)) quicklist2_node ([], [], [])) (\<lambda>(entries, encs, sizes).
     ret (entries, Quicklist2Detail encs sizes)))"

lemma consumes_lists [consumes_intros]:
  "consumes readList" "consumes readQuickList" "consumes (quicklist2_node acc)" "consumes readQuickList2"
proof -
  show n: "consumes (quicklist2_node acc)" for acc unfolding quicklist2_node_def by (intro consumes_intros)
  show "consumes readList" "consumes readQuickList" "consumes readQuickList2"
    unfolding readList_def readQuickList_def readQuickList2_def
    by (intro consumes_intros | rule n)+
qed

section \<open>Writing\<close>

definition tryWriteListZipList :: "bytes \<Rightarrow> bytes list \<Rightarrow> bool enc" where
  "tryWriteListZipList key vs =
     bind (gets listZipListOpt) (\<lambda>opt.
     if getMaxEntries opt < int (length vs) then ret False
     else if \<exists>v \<in> set vs. getMaxValue opt < int (length v) then ret False
     else
     seq (enc_write [typeListZipList]) (
     seq (writeString key) (
     seq (writeZipList vs) (
     ret True))))"

text \<open>The loop that cuts the values into pages, over \<open>pages\<close>, \<open>curPage\<close> and \<open>pageSize\<close>.\<close>

fun page_loop :: "int \<Rightarrow> bytes list \<Rightarrow> bytes list list \<times> bytes list \<times> int \<Rightarrow> bytes list list \<times> bytes list \<times> int" where
  "page_loop limit [] st = st"
| "page_loop limit (v # vs) (pages, curPage, pageSize) =
     (if limit \<le> pageSize + int (length v) then page_loop limit vs (pages @ [curPage @ [v]], [], 0)
      else page_loop limit vs (pages, curPage @ [v], pageSize + int (length v)))"

definition quicklist_pages :: "int \<Rightarrow> bytes list \<Rightarrow> bytes list list" where
  "quicklist_pages limit vs =
     (case page_loop limit vs ([], [], 0) of (pages, curPage, pageSize) \<Rightarrow>
      if curPage \<noteq> [] then pages @ [curPage] else pages)"

definition writeQuickList :: "bytes \<Rightarrow> bytes list \<Rightarrow> unit enc" where
  "writeQuickList key vs =
     bind (gets listZipListSize) (\<lambda>limit.
     let pages = quicklist_pages limit vs in
     seq (enc_write [typeListQuickList]) (
     seq (writeString key) (
     seq (writeLength (of_nat (length pages))) (
     for_each pages writeZipList))))"

definition list_body :: "bytes \<Rightarrow> bytes list \<Rightarrow> unit enc" where
  "list_body key vs =
     bind (tryWriteListZipList key vs) (\<lambda>ok.
     if ok then ret () else writeQuickList key vs)"

definition WriteListObject :: "bytes \<Rightarrow> bytes list \<Rightarrow> write_option list \<Rightarrow> unit enc" where
  "WriteListObject key vs options = write_object options (list_body key vs)"

lemma writer_only_list_body [writer_intros]: "writer_only (list_body key vs)"
  unfolding list_body_def tryWriteListZipList_def writeQuickList_def by (intro writer_intros)

interpretation list_writer: object_writer "WriteListObject key vs"
  by (unfold_locales, unfold WriteListObject_def)
    (rule write_object_call [rotated], assumption, intro writer_intros)

section \<open>The pages\<close>

definition page_size :: "bytes list \<Rightarrow> int" where
  "page_size vs = int (length (concat vs))"

text \<open>A page is full with its last value, and was not before.\<close>

definition full_page :: "int \<Rightarrow> bytes list \<Rightarrow> bool" where
  "full_page limit p \<longleftrightarrow> p \<noteq> [] \<and> limit \<le> page_size p \<and> page_size (butlast p) < limit"

lemma page_loop_inv:
  assumes "page_loop limit vs (pages, cur, sz) = (pages', cur', sz')"
    and "0 < limit" and "sz = page_size cur" and "sz < limit" and "list_all (full_page limit) pages"
  shows "concat pages' @ cur' = concat pages @ cur @ vs \<and> list_all (full_page limit) pages' \<and>
    page_size cur' < limit"
  using assms
proof (induction vs arbitrary: pages cur sz)
  case Nil
  then show ?case by simp
next
  case (Cons v vs)
  show ?case
  proof (cases "limit \<le> sz + int (length v)")
    case True
    then have "full_page limit (cur @ [v])" using Cons.prems by (simp add: full_page_def page_size_def)
    with True Cons.prems Cons.IH [of "pages @ [cur @ [v]]" "[]" 0] show ?thesis by (simp add: page_size_def)
  next
    case False
    with Cons.prems Cons.IH [of pages "cur @ [v]" "sz + int (length v)"] show ?thesis
      by (simp add: page_size_def)
  qed
qed

lemma quicklist_pages_props:
  assumes "0 < limit"
  shows "concat (quicklist_pages limit vs) = vs"
    and "quicklist_pages limit vs \<noteq> [] \<Longrightarrow> list_all (full_page limit) (butlast (quicklist_pages limit vs))"
    and "p \<in> set (quicklist_pages limit vs) \<Longrightarrow> p \<noteq> [] \<and> page_size (butlast p) < limit"
proof -
  obtain pages cur sz where l: "page_loop limit vs ([], [], 0) = (pages, cur, sz)" by (metis prod_cases3)
  from page_loop_inv [OF l assms] assms
  have inv: "concat pages @ cur = vs" "list_all (full_page limit) pages" "page_size cur < limit"
    by (simp_all add: page_size_def)
  show "concat (quicklist_pages limit vs) = vs" using inv(1) by (auto simp: quicklist_pages_def l)
  show "quicklist_pages limit vs \<noteq> [] \<Longrightarrow> list_all (full_page limit) (butlast (quicklist_pages limit vs))"
    using inv(2) by (auto simp: quicklist_pages_def l list_all_iff dest: in_set_butlastD)
  have "page_size (butlast cur) \<le> page_size cur"
    by (cases cur rule: rev_cases) (simp_all add: page_size_def)
  with inv show "p \<in> set (quicklist_pages limit vs) \<Longrightarrow> p \<noteq> [] \<and> page_size (butlast p) < limit"
    by (auto simp: quicklist_pages_def l list_all_iff full_page_def split: if_splits)
qed

text \<open>
  C26. \<open>writeQuickList\<close> cuts a list into pages without losing or reordering a value: the pages, one after the
  other, are the list; no page is empty; every page but the last reaches the size limit with its
  last value, and none had reached it before.
\<close>

theorem quicklist_pages_partition:
  assumes "0 < limit"
  shows "concat (quicklist_pages limit vs) = vs \<and>
    (\<forall>p \<in> set (quicklist_pages limit vs). p \<noteq> [] \<and> page_size (butlast p) < limit) \<and>
    (\<forall>p \<in> set (butlast (quicklist_pages limit vs)). limit \<le> page_size p)"
proof -
  have "\<forall>p \<in> set (butlast (quicklist_pages limit vs)). limit \<le> page_size p"
    using quicklist_pages_props(2) [OF assms, of vs]
    by (cases "quicklist_pages limit vs = []") (auto simp: list_all_iff full_page_def)
  then show ?thesis using quicklist_pages_props(1,3) [OF assms] by blast
qed

lemma quicklist_pages_partition_witness:
  "concat (quicklist_pages 3 [ascii ''ab'', ascii ''cd'', ascii ''e'']) = [ascii ''ab'', ascii ''cd'', ascii ''e''] \<and>
   quicklist_pages 3 [ascii ''ab'', ascii ''cd'', ascii ''e''] = [[ascii ''ab'', ascii ''cd''], [ascii ''e'']]"
  using quicklist_pages_partition [of 3 "[ascii ''ab'', ascii ''cd'', ascii ''e'']"]
  by (simp add: quicklist_pages_def ascii_def)

section \<open>What is read back\<close>

lemma parses_readList:
  assumes "list_all short_string vs" and "length vs < 2 ^ 32"
  shows "parses readList (length_bytes (of_nat (length vs)) @ concat (map (string_bytes c) vs)) vs"
  unfolding readList_def
proof (rule parses_bind [OF parses_readLen])
  show "parses (seq (make_check 24 (sint (of_nat (length vs) :: u64)))
      (repeat_comp (nat (sint (of_nat (length vs) :: u64))) readString)) (concat (map (string_bytes c) vs)) vs"
    using u64_length(2) [OF assms(2)] assms
    by (intro parses_make_check) (simp_all add: max_alloc_def string_codec.parses_list)
qed

text \<open>
  The lists that survive: the bounds of the ziplist, for the list as one ziplist or for each page of its
  quicklist.
\<close>

definition list_ok :: "zip_list_opt option \<Rightarrow> int \<Rightarrow> bytes list \<Rightarrow> bool" where
  "list_ok lo limit vs \<longleftrightarrow> list_all zl_ok vs \<and> length vs < 2 ^ 32 \<and>
     (length vs < 65536 \<or> (getMaxEntries lo < 65536 \<and> limit < 65536 \<and> [] \<notin> set vs))"

lemma length_le_concat: "[] \<notin> set ps \<Longrightarrow> length ps \<le> length (concat ps)"
proof (induction ps)
  case (Cons p ps)
  then have "Suc 0 \<le> length p" "length ps \<le> length (concat ps)" by (auto simp: Suc_le_eq)
  then have "Suc 0 + length ps \<le> length p + length (concat ps)" by (rule add_le_mono)
  then show ?case by simp
qed simp

lemma page_ok:
  assumes "list_ok lo limit vs" and "0 < limit" and p: "p \<in> set (quicklist_pages limit vs)"
  shows "zl_ok_list p"
proof -
  note pg = quicklist_pages_props(1,3) [OF assms(2)]
  obtain qs rs where "quicklist_pages limit vs = qs @ p # rs" using p by (meson split_list)
  then have vs: "vs = concat qs @ p @ concat rs" using pg(1) [of vs] by simp
  have "length p < 65536"
  proof (cases "length vs < 65536")
    case False
    with assms(1) vs have ne: "[] \<notin> set p" and limit: "limit < 65536" by (auto simp: list_ok_def)
    from ne have "[] \<notin> set (butlast p)" by (auto dest: in_set_butlastD)
    from length_le_concat [OF this] have "int (length (butlast p)) \<le> page_size (butlast p)"
      by (simp add: page_size_def)
    with pg(2) [OF p] limit show ?thesis by (cases p rule: rev_cases) auto
  qed (simp add: vs)
  with vs assms(1) show ?thesis by (simp add: zl_ok_list_def list_ok_def)
qed

lemma length_pages: "0 < limit \<Longrightarrow> length (quicklist_pages limit vs) \<le> length vs"
  using length_le_concat [of "quicklist_pages limit vs"] quicklist_pages_props(1,3) [of limit] by metis

definition quicklist_content :: "bool \<Rightarrow> bytes list list \<Rightarrow> bytes" where
  "quicklist_content c pages =
     length_bytes (of_nat (length pages)) @ concat (map (\<lambda>p. nan_string_bytes c (ziplist_bytes p)) pages)"

lemma parses_readQuickList:
  assumes "list_all zl_ok_list pages" and "length pages < 2 ^ 32"
  shows "parses readQuickList (quicklist_content c pages) (concat pages, QuicklistDetail pages)"
  unfolding readQuickList_def quicklist_content_def
proof (rule parses_bind [OF parses_readLen])
  show "parses (bind (repeat_comp (nat (sint (of_nat (length pages) :: u64))) readZipList) (\<lambda>pages.
      ret (concat pages, QuicklistDetail pages)))
     (concat (map (\<lambda>p. nan_string_bytes c (ziplist_bytes p)) pages)) (concat pages, QuicklistDetail pages)"
    unfolding u64_length(2) [OF assms(2)] nat_int
    by (rule parses_bind_ret [OF ziplist_codec.parses_list [OF assms(1)]]) simp
qed

lemma list_body_emits:
  assumes key: "short_string key" and vs: "list_ok lo limit vs" and limit: "0 < limit"
    and k: "k = (c, lo, ho, zo, limit, vk)"
  shows "\<exists>typ content. emits_in k (list_body key vs) (typ # string_bytes c key @ content) () \<and>
    (typ = typeListZipList \<and> parses readZipList content vs \<or>
     typ = typeListQuickList \<and> (\<exists>pages. parses readQuickList content (vs, QuicklistDetail pages)))"
proof (cases "getMaxEntries lo < int (length vs) \<or> (\<exists>v \<in> set vs. getMaxValue lo < int (length v))")
  case False
  then have ok: "zl_ok_list vs" using vs by (auto simp: zl_ok_list_def list_ok_def)
  have "emits c (seq (enc_write [typeListZipList]) (seq (writeString key) (seq (writeZipList vs) (ret True))))
      ([typeListZipList] @ string_bytes c key @ nan_string_bytes c (ziplist_bytes vs) @ []) True"
    by (intro emits_intros emits_writeZipList key ok)
  then have "emits_in k (tryWriteListZipList key vs)
      (typeListZipList # string_bytes c key @ nan_string_bytes c (ziplist_bytes vs)) True"
    unfolding tryWriteListZipList_def using False
    by (intro emits_in_gets [where v = lo]) (auto simp: cfg_def k intro!: emits_in_emits)
  from emits_in_bind [OF this, of "\<lambda>ok. if ok then ret () else writeQuickList key vs" "[]" "()"]
  have "emits_in k (list_body key vs)
      (typeListZipList # string_bytes c key @ nan_string_bytes c (ziplist_bytes vs)) ()"
    by (simp add: list_body_def emits_in_emits emits_ret)
  then show ?thesis using parses_readZipList [OF ok] by blast
next
  case True
  let ?pages = "quicklist_pages limit vs"
  have pages: "list_all zl_ok_list ?pages" "length ?pages < 2 ^ 32" "concat ?pages = vs"
    using page_ok [OF vs limit] length_pages [OF limit, of vs] vs quicklist_pages_props(1) [OF limit]
    by (auto simp: list_all_iff list_ok_def)
  have no: "emits_in k (tryWriteListZipList key vs) [] False"
    unfolding tryWriteListZipList_def using True
    by (intro emits_in_gets [where v = lo]) (auto simp: cfg_def k intro!: emits_in_emits emits_ret)
  have "emits c (let pages = ?pages in seq (enc_write [typeListQuickList]) (seq (writeString key)
      (seq (writeLength (of_nat (length pages))) (for_each pages writeZipList))))
      ([typeListQuickList] @ string_bytes c key @ length_bytes (of_nat (length ?pages)) @
        concat (map (\<lambda>p. nan_string_bytes c (ziplist_bytes p)) ?pages)) ()"
    unfolding Let_def by (intro emits_intros ziplist_codec.emits_list key pages)
  then have "emits_in k (writeQuickList key vs)
      (typeListQuickList # string_bytes c key @ quicklist_content c ?pages) ()"
    unfolding writeQuickList_def quicklist_content_def
    by (intro emits_in_gets [where v = limit]) (auto simp: cfg_def k intro!: emits_in_emits)
  with emits_in_bind [OF no, of "\<lambda>ok. if ok then ret () else writeQuickList key vs"]
  have "emits_in k (list_body key vs) (typeListQuickList # string_bytes c key @ quicklist_content c ?pages) ()"
    by (simp add: list_body_def)
  then show ?thesis using parses_readQuickList [OF pages(1,2)] pages(3) by auto
qed

end
