(* ===== verification/SetObj.thy ===== *)
theory SetObj
  imports ListObj "HOL-Library.Multiset"
begin

text \<open>
  Sets (\<open>core/set.go\<close>): the readers of a plain set, an intset and a listpack, and \<open>WriteSetObject\<close>, which
  writes an intset, sorted, when every member is a decimal number of 64 bits, and a plain set otherwise.
\<close>

section \<open>Reading\<close>

definition readSet :: "bytes list dec" where
  "readSet =
     bind readLen (\<lambda>size64.
     seq (make_check 24 (sint size64)) (
     repeat_comp (nat (sint size64)) readString))"

definition intset_member :: "nat \<Rightarrow> bytes \<Rightarrow> bytes" where
  "intset_member intSize intBytes =
     (if intSize = 2 then itoa (sint (le_word intBytes :: u16))
      else if intSize = 4 then itoa (sint (le_word intBytes :: u32))
      else itoa (sint (le_word intBytes :: u64)))"

definition intset_members :: "bytes \<Rightarrow> (bytes list \<times> detail) cur" where
  "intset_members buf =
     bind (slice buf 0 4) (\<lambda>sizeBytes.
     let intSize = unat (le_word sizeBytes :: u32) in
     if intSize \<noteq> 2 \<and> intSize \<noteq> 4 \<and> intSize \<noteq> 8 then throw (ErrMsg ''unknown intset encoding'')
     else
       bind (slice buf 4 8) (\<lambda>lenBytes.
       let cardinality = unat (le_word lenBytes :: u32) in
       seq (skip 8) (
       bind (repeat_comp cardinality (bind (readBytes buf intSize) (\<lambda>bs. ret (intset_member intSize bs)))) (\<lambda>result.
       ret (result, IntsetDetail (length buf))))))"

definition readIntSet :: "(bytes list \<times> detail) dec" where
  "readIntSet = bind readString (\<lambda>buf. in_buffer (intset_members buf))"

definition listpack_set :: "bytes \<Rightarrow> (bytes list \<times> detail) cur" where
  "listpack_set buf =
     bind (bind (readListPackLength buf) (\<lambda>n. repeat_comp n (readListPackEntryAsString buf))) (\<lambda>vs.
     ret (vs, ListpackDetail (length buf)))"

definition readListPackSet :: "(bytes list \<times> detail) dec" where
  "readListPackSet = bind readString (\<lambda>buf. in_buffer (listpack_set buf))"

lemma consumes_sets [consumes_intros]: "consumes readSet" "consumes readIntSet" "consumes readListPackSet"
  unfolding readSet_def readIntSet_def readListPackSet_def by (intro consumes_intros)+

section \<open>Writing\<close>

definition writeSetEncoding :: "bytes \<Rightarrow> bytes list \<Rightarrow> unit enc" where
  "writeSetEncoding key vs =
     seq (enc_write [typeSet]) (
     seq (writeString key) (
     seq (writeLength (of_nat (length vs))) (
     for_each vs writeString)))"

definition maxInt64 :: int where "maxInt64 = 9223372036854775807"
definition minInt64 :: int where "minInt64 = -9223372036854775808"

text \<open>The loop over the members: all of them as integers, or nothing at the first that is none.\<close>

fun int_list :: "bytes list \<Rightarrow> int list option" where
  "int_list [] = Some []"
| "int_list (v # vs) =
     (case isEncodableUint64 v of
        None \<Rightarrow> None
      | Some intV \<Rightarrow> map_option (Cons intV) (int_list vs))"

definition intset_size :: "int list \<Rightarrow> nat" where
  "intset_size intList =
     (let mn = foldl min maxInt64 intList; mx = foldl max minInt64 intList in
      if -32768 \<le> mn \<and> mx \<le> 32767 then 2
      else if -2147483648 \<le> mn \<and> mx \<le> 2147483647 then 4
      else 8)"

definition intset_entry :: "nat \<Rightarrow> int \<Rightarrow> bytes" where
  "intset_entry intSize v =
     (if intSize = 2 then le_bytes 2 (of_int v :: u16)
      else if intSize = 4 then le_bytes 4 (of_int v :: u32)
      else le_bytes 8 (of_int v :: u64))"

definition intset_bytes :: "int list \<Rightarrow> bytes" where
  "intset_bytes intList =
     (let intSize = intset_size intList in
      le_bytes 4 (of_nat intSize :: u32) @ le_bytes 4 (of_nat (length intList) :: u32) @
      concat (map (intset_entry intSize) (sort intList)))"

definition tryWriteIntSetEncoding :: "bytes \<Rightarrow> bytes list \<Rightarrow> bool enc" where
  "tryWriteIntSetEncoding key vs =
     (case int_list vs of
        None \<Rightarrow> ret False
      | Some intList \<Rightarrow>
          seq (enc_write [typeSetIntSet]) (
          seq (writeString key) (
          seq (writeNanString (intset_bytes intList)) (
          ret True))))"

definition set_body :: "bytes \<Rightarrow> bytes list \<Rightarrow> unit enc" where
  "set_body key vs =
     bind (tryWriteIntSetEncoding key vs) (\<lambda>ok.
     if ok then ret () else writeSetEncoding key vs)"

definition WriteSetObject :: "bytes \<Rightarrow> bytes list \<Rightarrow> write_option list \<Rightarrow> unit enc" where
  "WriteSetObject key vs options = write_object options (set_body key vs)"

lemma writer_only_set_body [writer_intros]: "writer_only (set_body key vs)"
  unfolding set_body_def tryWriteIntSetEncoding_def writeSetEncoding_def by (intro writer_intros)

interpretation set_writer: object_writer "WriteSetObject key vs"
  by (unfold_locales, unfold WriteSetObject_def)
    (rule write_object_call [rotated], assumption, intro writer_intros)

section \<open>The intset\<close>

lemma int_list_Some: "int_list vs = Some is \<Longrightarrow>
    map itoa is = vs \<and> length is = length vs \<and> (\<forall>i \<in> set is. 0 \<le> i \<and> i \<le> maxInt64)"
proof (induction vs arbitrary: "is")
  case (Cons v vs)
  then obtain i js where i: "isEncodableUint64 v = Some i" "int_list vs = Some js" "is = i # js"
    by (auto split: option.splits)
  have "itoa i = v" "0 \<le> i" "i < 2 ^ (64 - 1)"
    using i(1) itoa_is_encodable [of 64 v i] is_encodable_range [of 64 v i] by (simp_all add: isEncodableUint64_def)
  with Cons.IH [OF i(2)] i(3) show ?case by (simp add: maxInt64_def)
qed simp

lemma foldl_min_le: "x \<in> insert a (set xs) \<Longrightarrow> foldl min a xs \<le> (x :: int)"
proof (induction xs arbitrary: a x)
  case (Cons y ys)
  have "foldl min (min a y) ys \<le> min a y" by (rule Cons.IH) simp
  then show ?case using Cons.IH [of x "min a y"] Cons.prems by auto
qed simp

lemma foldl_max_ge: "x \<in> insert a (set xs) \<Longrightarrow> (x :: int) \<le> foldl max a xs"
proof (induction xs arbitrary: a x)
  case (Cons y ys)
  have "max a y \<le> foldl max (max a y) ys" by (rule Cons.IH) simp
  then show ?case using Cons.IH [of x "max a y"] Cons.prems by auto
qed simp

text \<open>The member size that is chosen holds every member.\<close>

definition fits :: "nat \<Rightarrow> int \<Rightarrow> bool" where
  "fits intSize v \<longleftrightarrow>
     (if intSize = 2 then -32768 \<le> v \<and> v \<le> 32767
      else if intSize = 4 then -2147483648 \<le> v \<and> v \<le> 2147483647
      else minInt64 \<le> v \<and> v \<le> maxInt64)"

lemma intset_size_cases: "intset_size is = 2 \<or> intset_size is = 4 \<or> intset_size is = 8"
  by (simp add: intset_size_def Let_def)

lemma intset_size_fits:
  assumes "v \<in> set is" and "minInt64 \<le> v" and "v \<le> maxInt64"
  shows "fits (intset_size is) v"
  using foldl_min_le [of v maxInt64 "is"] foldl_max_ge [of v minInt64 "is"] assms
  by (auto simp: intset_size_def fits_def Let_def)

lemma length_intset_entry: "n = 2 \<or> n = 4 \<or> n = 8 \<Longrightarrow> length (intset_entry n v) = n"
  by (auto simp: intset_entry_def)

lemma intset_member_entry: "fits n v \<Longrightarrow> intset_member n (intset_entry n v) = itoa v"
  using sint_of_int_range [where 'a = 16, of v] sint_of_int_range [where 'a = 32, of v]
    sint_of_int_range [where 'a = 64, of v]
  by (auto simp: intset_member_def intset_entry_def fits_def le_word_le_bytes minInt64_def maxInt64_def
      split: if_splits)

lemma intset_buffer_codec:
  assumes "n = 2 \<or> n = 4 \<or> n = 8"
  shows "buffer_codec (\<lambda>c :: unit. intset_entry n) (\<lambda>buf. bind (readBytes buf n) (\<lambda>bs. ret (intset_member n bs)))
    itoa (fits n)"
proof
  fix v c assume "fits n v"
  then show "scans (\<lambda>buf. bind (readBytes buf n) (\<lambda>bs. ret (intset_member n bs))) (intset_entry n v) (itoa v)"
    by (intro scans_bind_ret [OF scans_readBytes]) (simp_all add: length_intset_entry [OF assms] intset_member_entry)
qed

lemma map2_replicate: "length cs = length xs \<Longrightarrow> map2 (\<lambda>c. f) cs xs = map f xs"
  by (induction cs xs rule: list_induct2) simp_all

lemma length_intset_entries:
  "n = 2 \<or> n = 4 \<or> n = 8 \<Longrightarrow> length (concat (map (intset_entry n) vs)) = n * length vs"
  by (induction vs) (simp_all add: length_intset_entry)

lemma length_intset_bytes: "length (intset_bytes is) \<le> 8 + 8 * length is"
  using length_intset_entries [OF intset_size_cases, of "is" "sort is"] intset_size_cases [of "is"]
  by (auto simp: intset_bytes_def Let_def)

lemma intset_members_ok:
  assumes "\<forall>v \<in> set is. minInt64 \<le> v \<and> v \<le> maxInt64" and len: "length is < 2 ^ 32"
  shows "intset_members (intset_bytes is) 0 =
    (Ok (map itoa (sort is), IntsetDetail (length (intset_bytes is))),
     8 + length (concat (map (intset_entry (intset_size is)) (sort is))))"
proof -
  define n where "n = intset_size is"
  have n: "n = 2 \<or> n = 4 \<or> n = 8" unfolding n_def by (rule intset_size_cases)
  let ?es = "concat (map (intset_entry n) (sort is))"
  define s l where "s = le_bytes 4 (of_nat n :: u32)" and "l = le_bytes 4 (of_nat (length is) :: u32)"
  have sl: "length s = 4" "length l = 4" by (simp_all add: s_def l_def)
  have bytes: "intset_bytes is = (s @ l) @ ?es @ []" by (simp add: intset_bytes_def Let_def n_def s_def l_def)
  have sv: "unat (le_word s :: u32) = n" and lv: "unat (le_word l :: u32) = length is"
    using n len by (auto simp: s_def l_def le_word_le_bytes unat_of_nat_small simp del: unsigned_of_nat)
  have "list_all (fits n) (sort is)"
    using assms(1) intset_size_fits [of _ "is"] by (simp add: list_all_iff n_def)
  from buffer_codec.scans_entries [OF intset_buffer_codec [OF n] this, of "replicate (length is) ()"]
  have "scans (\<lambda>buf. repeat_comp (length is) (bind (readBytes buf n) (\<lambda>bs. ret (intset_member n bs)))) ?es
      (map itoa (sort is))" by (simp add: map2_replicate)
  from scans_at [OF this bytes, of 8] sl
  have "repeat_comp (length is) (bind (readBytes (intset_bytes is) n) (\<lambda>bs. ret (intset_member n bs))) 8
      = (Ok (map itoa (sort is)), 8 + length ?es)" by simp
  moreover have "slice (intset_bytes is) 0 4 0 = (Ok s, 0)" "slice (intset_bytes is) 4 8 0 = (Ok l, 0)"
    using sl by (simp_all add: slice_def bytes ret_def)
  ultimately show ?thesis unfolding n_def [symmetric]
    using n by (auto simp: intset_members_def bind_Ok sv lv skip_def seq_def modify_def ret_def)
qed

section \<open>What is read back\<close>

lemma parses_readSet:
  assumes "list_all short_string vs" and "length vs < 2 ^ 32"
  shows "parses readSet (length_bytes (of_nat (length vs)) @ concat (map (string_bytes c) vs)) vs"
  using parses_readList [OF assms] by (simp add: readList_def readSet_def)

definition set_ok :: "bytes list \<Rightarrow> bool" where
  "set_ok vs \<longleftrightarrow> list_all short_string vs \<and> length vs < 2 ^ 28"

lemma parses_readIntSet:
  assumes "int_list vs = Some is" and "set_ok vs"
  shows "parses readIntSet (nan_string_bytes c (intset_bytes is))
    (map itoa (sort is), IntsetDetail (length (intset_bytes is)))"
proof -
  note il = int_list_Some [OF assms(1)]
  have "short_string (intset_bytes is)"
    using length_intset_bytes [of "is"] il assms(2) by (simp add: short_string_def set_ok_def)
  moreover have "\<forall>v \<in> set is. minInt64 \<le> v \<and> v \<le> maxInt64" using il by (auto simp: minInt64_def)
  ultimately show ?thesis unfolding readIntSet_def
    using il assms(2) by (intro parses_in_buffer [where m = intset_members, OF parses_nan_string intset_members_ok])
      (auto simp: set_ok_def)
qed

lemma set_body_emits:
  assumes key: "short_string key" and vs: "set_ok vs"
  shows "\<exists>typ content. emits c (set_body key vs) (typ # string_bytes c key @ content) () \<and>
    (typ = typeSet \<and> parses readSet content vs \<or>
     typ = typeSetIntSet \<and> (\<exists>ms n. parses readIntSet content (ms, IntsetDetail n) \<and> mset ms = mset vs))"
proof (cases "int_list vs")
  case None
  let ?content = "length_bytes (of_nat (length vs)) @ concat (map (string_bytes c) vs)"
  have ok: "list_all short_string vs" "length vs < 2 ^ 32" using vs by (simp_all add: set_ok_def)
  have "emits c (writeSetEncoding key vs) ([typeSet] @ string_bytes c key @ ?content) ()"
    unfolding writeSetEncoding_def by (intro emits_intros string_codec.emits_list key ok)
  then have "emits c (set_body key vs) (typeSet # string_bytes c key @ ?content) ()"
    by (simp add: set_body_def tryWriteIntSetEncoding_def None)
  with parses_readSet [OF ok] show ?thesis by blast
next
  case (Some "is")
  note il = int_list_Some [OF Some]
  have short: "short_string (intset_bytes is)"
    using length_intset_bytes [of "is"] il vs by (simp add: short_string_def set_ok_def)
  let ?content = "nan_string_bytes c (intset_bytes is)"
  have "emits c (tryWriteIntSetEncoding key vs) ([typeSetIntSet] @ string_bytes c key @ ?content @ []) True"
    unfolding tryWriteIntSetEncoding_def Some option.case by (intro emits_intros key short)
  from emits_bind [OF this, of "\<lambda>ok. if ok then ret () else writeSetEncoding key vs" "[]" "()"]
  have "emits c (set_body key vs) (typeSetIntSet # string_bytes c key @ ?content) ()"
    by (simp add: set_body_def emits_ret)
  moreover have "mset (map itoa (sort is)) = mset vs"
    using il by (metis mset_map mset_sort)
  ultimately show ?thesis using parses_readIntSet [OF Some vs] by blast
qed

lemma foldl_min_bound: "l \<le> a \<Longrightarrow> \<forall>v \<in> set xs. l \<le> v \<Longrightarrow> l \<le> foldl min a (xs :: int list)"
  by (induction xs arbitrary: a) auto

lemma foldl_max_bound: "a \<le> u \<Longrightarrow> \<forall>v \<in> set xs. v \<le> u \<Longrightarrow> foldl max a (xs :: int list) \<le> u"
  by (induction xs arbitrary: a) auto

lemma intset_size_least:
  assumes "n \<in> {2, 4, 8}" and "\<forall>v \<in> set is. fits n v"
  shows "intset_size is \<le> n"
proof -
  have "l \<le> foldl min maxInt64 is" if "\<forall>v \<in> set is. l \<le> v" "l \<le> maxInt64" for l
    using that foldl_min_bound by blast
  moreover have "foldl max minInt64 is \<le> u" if "\<forall>v \<in> set is. v \<le> u" "minInt64 \<le> u" for u
    using that foldl_max_bound by blast
  ultimately show ?thesis
    using assms by (auto simp: intset_size_def fits_def Let_def minInt64_def maxInt64_def)
qed

text \<open>
  C27. Intset round trip: a set all of whose members are decimal numbers is written with the smallest of the
  three member sizes (2, 4 and 8 bytes) that holds them all, and read back as the same multiset of strings, in
  increasing order of the numbers.
\<close>

theorem intset_roundtrip:
  assumes "int_list vs = Some is" and "length vs < 2 ^ 28"
  shows "\<exists>ms c. intset_members (intset_bytes is) 0 = (Ok (ms, IntsetDetail (length (intset_bytes is))), c) \<and>
    mset ms = mset vs \<and> (\<exists>js. ms = map itoa js \<and> sorted js) \<and>
    (\<forall>v \<in> set is. fits (intset_size is) v) \<and> intset_size is \<in> {2, 4, 8} \<and>
    (\<forall>n \<in> {2, 4, 8}. (\<forall>v \<in> set is. fits n v) \<longrightarrow> intset_size is \<le> n)"
proof -
  note il = int_list_Some [OF assms(1)]
  have rng: "\<forall>v \<in> set is. minInt64 \<le> v \<and> v \<le> maxInt64" using il by (auto simp: minInt64_def)
  then have "intset_members (intset_bytes is) 0 =
    (Ok (map itoa (sort is), IntsetDetail (length (intset_bytes is))),
     8 + length (concat (map (intset_entry (intset_size is)) (sort is))))"
    using il assms(2) by (intro intset_members_ok) auto
  moreover have "mset (map itoa (sort is)) = mset vs" using il by (metis mset_map mset_sort)
  moreover have "\<forall>v \<in> set is. fits (intset_size is) v" using rng intset_size_fits by blast
  moreover have "intset_size is \<in> {2, 4, 8}" by (simp add: intset_size_def Let_def)
  moreover have "\<forall>n \<in> {2, 4, 8}. (\<forall>v \<in> set is. fits n v) \<longrightarrow> intset_size is \<le> n"
    using intset_size_least by blast
  ultimately show ?thesis using sorted_sort by blast
qed

lemma intset_roundtrip_witness:
  "int_list [ascii ''70000'', ascii ''5''] = Some [70000, 5] \<and>
   (\<exists>ms c. intset_members (intset_bytes [70000, 5]) 0 = (Ok (ms, IntsetDetail (length (intset_bytes [70000, 5]))), c) \<and>
     mset ms = mset [ascii ''70000'', ascii ''5''] \<and> (\<exists>js. ms = map itoa js \<and> sorted js) \<and>
     (\<forall>v \<in> set [70000, 5]. fits (intset_size [70000, 5]) v) \<and> intset_size [70000, 5] \<in> {2, 4, 8} \<and>
     (\<forall>n \<in> {2, 4, 8}. (\<forall>v \<in> set [70000, 5]. fits n v) \<longrightarrow> intset_size [70000, 5] \<le> n))"
proof -
  have "int_list [ascii ''70000'', ascii ''5''] = Some [70000, 5]"
    by (simp add: isEncodableUint64_def is_encodable_uint_def parse_int_def parse_digits_def
        digits_val_def digit_val_def is_digit_byte_def ascii_def)
  moreover have "length [ascii ''70000'', ascii ''5''] < 2 ^ 28" by simp
  ultimately show ?thesis using intset_roundtrip by blast
qed

end
