(* ===== verification/ZSetObj.thy ===== *)
theory ZSetObj
  imports SetObj
begin

text \<open>
  Sorted sets (\<open>core/zset.go\<close>): the readers of the two plain encodings, the ziplist and the listpack, and
  \<open>WriteZSetObject\<close>. \<open>strconv.ParseFloat\<close> and \<open>strconv.FormatFloat(_, 'f', -1, 64)\<close> are arguments; where a
  score must survive, the hypothesis is the documented law that the latter prints the shortest text the
  former reads back as the same number.
\<close>

type_synonym zset_entry = "bytes \<times> f64"

section \<open>Reading\<close>

definition readZSet :: "(bytes \<Rightarrow> f64 option) \<Rightarrow> bool \<Rightarrow> zset_entry list dec" where
  "readZSet parseFloat zset2 =
     bind readLen (\<lambda>length.
     seq (make_check 8 (sint length)) (
     repeat_comp (unat length) (
       bind readString (\<lambda>member.
       bind (if zset2 then readFloat else readLiteralFloat parseFloat) (\<lambda>score.
       ret (member, score))))))"

definition zset_pair :: "(bytes \<Rightarrow> f64 option) \<Rightarrow> bytes cur \<Rightarrow> zset_entry cur" where
  "zset_pair parseFloat rd =
     bind rd (\<lambda>member.
     bind rd (\<lambda>scoreLiteral.
     case parseFloat scoreLiteral of
       None \<Rightarrow> throw (ErrMsg ''ParseFloat'')
     | Some score \<Rightarrow> ret (member, score)))"

text \<open>\<open>for i := 0; i < size; i += 2\<close> runs \<open>(size + 1) div 2\<close> times.\<close>

definition ziplist_zset :: "(bytes \<Rightarrow> f64 option) \<Rightarrow> bytes \<Rightarrow> (zset_entry list \<times> detail) cur" where
  "ziplist_zset parseFloat buf =
     bind (bind (readZipListLength buf) (\<lambda>n.
       repeat_comp ((n + 1) div 2) (zset_pair parseFloat (readZipListEntry buf)))) (\<lambda>es.
     ret (es, ZiplistDetail (length buf)))"

definition readZipListZSet :: "(bytes \<Rightarrow> f64 option) \<Rightarrow> (zset_entry list \<times> detail) dec" where
  "readZipListZSet parseFloat = bind readString (\<lambda>buf. in_buffer (ziplist_zset parseFloat buf))"

definition listpack_zset :: "(bytes \<Rightarrow> f64 option) \<Rightarrow> bytes \<Rightarrow> (zset_entry list \<times> detail) cur" where
  "listpack_zset parseFloat buf =
     bind (bind (readListPackLength buf) (\<lambda>n.
       repeat_comp ((n + 1) div 2) (zset_pair parseFloat (readListPackEntryAsString buf)))) (\<lambda>es.
     ret (es, ListpackDetail (length buf)))"

definition readListPackZSet :: "(bytes \<Rightarrow> f64 option) \<Rightarrow> (zset_entry list \<times> detail) dec" where
  "readListPackZSet parseFloat = bind readString (\<lambda>buf. in_buffer (listpack_zset parseFloat buf))"

lemma consumes_zsets [consumes_intros]:
  "consumes (readZSet pf z2)" "consumes (readZipListZSet pf)" "consumes (readListPackZSet pf)"
  unfolding readZSet_def readZipListZSet_def readListPackZSet_def by (intro consumes_intros)+

section \<open>Writing\<close>

definition writeZSet2Encoding :: "bytes \<Rightarrow> zset_entry list \<Rightarrow> unit enc" where
  "writeZSet2Encoding key es =
     seq (enc_write [typeZset2]) (
     seq (writeString key) (
     seq (writeLength (of_nat (length es))) (
     for_each es (\<lambda>(member, score). seq (writeString member) (writeFloat64 score)))))"

definition tryWriteZipListZSet :: "(f64 \<Rightarrow> bytes) \<Rightarrow> bytes \<Rightarrow> zset_entry list \<Rightarrow> bool enc" where
  "tryWriteZipListZSet formatFloat key es =
     bind (gets zsetZipListOpt) (\<lambda>opt.
     if getMaxEntries opt < int (length es) then ret False
     else if \<exists>en \<in> set es. getMaxValue opt < int (length (fst en)) then ret False
     else
     seq (enc_write [typeZsetZipList]) (
     seq (writeString key) (
     seq (writeZipList (concat (map (\<lambda>(member, score). [member, formatFloat score]) es))) (
     ret True))))"

definition zset_body :: "(f64 \<Rightarrow> bytes) \<Rightarrow> bytes \<Rightarrow> zset_entry list \<Rightarrow> unit enc" where
  "zset_body formatFloat key es =
     bind (tryWriteZipListZSet formatFloat key es) (\<lambda>ok.
     if ok then ret () else writeZSet2Encoding key es)"

definition WriteZSetObject ::
  "(f64 \<Rightarrow> bytes) \<Rightarrow> bytes \<Rightarrow> zset_entry list \<Rightarrow> write_option list \<Rightarrow> unit enc" where
  "WriteZSetObject formatFloat key es options = write_object options (zset_body formatFloat key es)"

lemma writer_only_zset_body [writer_intros]: "writer_only (zset_body ff key es)"
  unfolding zset_body_def tryWriteZipListZSet_def writeZSet2Encoding_def by (intro writer_intros)

interpretation zset_writer: object_writer "WriteZSetObject ff key es"
  by (unfold_locales, unfold WriteZSetObject_def)
    (rule write_object_call [rotated], assumption, intro writer_intros)

section \<open>Pairs in a ziplist\<close>

text \<open>The strings of a list of pairs, and what a loop over pairs of entries reads.\<close>

definition flat_pairs :: "('p \<Rightarrow> bytes \<times> bytes) \<Rightarrow> 'p list \<Rightarrow> bytes list" where
  "flat_pairs f ps = concat (map (\<lambda>p. [fst (f p), snd (f p)]) ps)"

lemma flat_pairs_simps [simp]:
  "flat_pairs f [] = []" "flat_pairs f (p # ps) = fst (f p) # snd (f p) # flat_pairs f ps"
  by (simp_all add: flat_pairs_def)

lemma length_flat_pairs [simp]: "length (flat_pairs f ps) = 2 * length ps"
  by (induction ps) simp_all

lemma set_flat_pairs: "set (flat_pairs f ps) = fst ` f ` set ps \<union> snd ` f ` set ps"
  by (induction ps) auto

lemma scans_zl_pairs:
  assumes "list_all zl_ok (flat_pairs f ps)"
    and "\<And>p. p \<in> set ps \<Longrightarrow> k (fst (f p)) (snd (f p)) = ret (g p)"
  shows "scans (\<lambda>buf. repeat_comp (length ps)
      (bind (readZipListEntry buf) (\<lambda>a. bind (readZipListEntry buf) (\<lambda>b. k a b))))
    (concat (zl_entries q (flat_pairs f ps))) (map g ps)"
  using assms
proof (induction ps arbitrary: q)
  case Nil
  then show ?case by (simp add: scans_ret)
next
  case (Cons p ps)
  define a b where "a = fst (f p)" and "b = snd (f p)"
  define q1 q2 :: u32 where "q1 = of_nat (length (zl_entry q a))" and "q2 = of_nat (length (zl_entry q1 b))"
  have ab: "zl_ok a" "zl_ok b" using Cons.prems(1) by (simp_all add: a_def b_def)
  let ?pair = "\<lambda>buf. bind (readZipListEntry buf) (\<lambda>a. bind (readZipListEntry buf) (\<lambda>b. k a b))"
  have "scans ?pair (zl_entry q a @ zl_entry q1 b) (g p)"
  proof (rule scans_bind [OF scans_zl_entry [OF ab(1)]])
    show "scans (\<lambda>buf. bind (readZipListEntry buf) (k a)) (zl_entry q1 b) (g p)"
      using Cons.prems(2) by (intro scans_bind_ret [OF scans_zl_entry [OF ab(2)]]) (simp add: a_def b_def)
  qed
  moreover have "scans (\<lambda>buf. bind (repeat_comp (length ps) (?pair buf)) (\<lambda>xs. ret (g p # xs)))
      (concat (zl_entries q2 (flat_pairs f ps))) (map g (p # ps))"
    using Cons.prems by (intro scans_bind_ret [OF Cons.IH]) simp_all
  ultimately have "scans (\<lambda>buf. bind (?pair buf) (\<lambda>x. bind (repeat_comp (length ps) (?pair buf)) (\<lambda>xs. ret (x # xs))))
      ((zl_entry q a @ zl_entry q1 b) @ concat (zl_entries q2 (flat_pairs f ps))) (map g (p # ps))"
    by (rule scans_bind)
  then show ?case by (simp add: a_def b_def q1_def q2_def)
qed

text \<open>Readers over a ziplist: behind the ten bytes of the header, whatever is read there.\<close>

lemma ziplist_read:
  assumes "scans m (concat (zl_entries 0 vs)) x" and "length vs < 65536"
  shows "bind (readZipListLength (ziplist_bytes vs)) (\<lambda>n. m (ziplist_bytes vs)) 0 =
      (Ok x, 10 + length (concat (zl_entries 0 vs)))"
    and "readZipListLength (ziplist_bytes vs) 0 = (Ok (length vs), 10)"
proof -
  let ?es = "concat (zl_entries 0 vs)"
  define h where "h = le_bytes 4 (of_nat (11 + length ?es) :: u32) @
    le_bytes 4 (of_nat (10 + length (concat (butlast (zl_entries 0 vs)))) :: u32)"
  define g where "g = le_bytes 2 (of_nat (length vs) :: u16)"
  have bytes: "ziplist_bytes vs = (h @ g) @ ?es @ [0xff]"
    by (simp add: ziplist_bytes_def Let_def h_def g_def)
  have h: "length h = 8" by (simp add: h_def)
  show 1: "readZipListLength (ziplist_bytes vs) 0 = (Ok (length vs), 10)"
    unfolding bytes g_def append_assoc using h assms(2) by (rule readZipListLength_ok)
  from scans_at [OF assms(1) bytes, of 10] h
  have "m (ziplist_bytes vs) 10 = (Ok x, 10 + length ?es)" by (simp add: g_def)
  with 1 show "bind (readZipListLength (ziplist_bytes vs)) (\<lambda>n. m (ziplist_bytes vs)) 0 = (Ok x, 10 + length ?es)"
    by (simp add: bind_Ok)
qed

section \<open>What is read back\<close>

text \<open>The scores that survive the text form, and the settings that keep a ziplist within its bounds.\<close>

definition score_ok :: "(bytes \<Rightarrow> f64 option) \<Rightarrow> (f64 \<Rightarrow> bytes) \<Rightarrow> f64 \<Rightarrow> bool" where
  "score_ok parseFloat formatFloat s \<longleftrightarrow>
     parseFloat (formatFloat s) = Some s \<and> length (formatFloat s) \<le> 16383"

definition zl_opt_ok :: "zip_list_opt option \<Rightarrow> bool" where
  "zl_opt_ok opt \<longleftrightarrow> getMaxEntries opt < 32768 \<and> getMaxValue opt \<le> 16383"

definition zset_ok :: "(bytes \<Rightarrow> f64 option) \<Rightarrow> (f64 \<Rightarrow> bytes) \<Rightarrow> zset_entry list \<Rightarrow> bool" where
  "zset_ok parseFloat formatFloat es \<longleftrightarrow> length es < 2 ^ 32 \<and>
     (\<forall>(m, s) \<in> set es. short_string m \<and> score_ok parseFloat formatFloat s)"

lemma ziplist_zset_ok:
  assumes "list_all zl_ok (flat_pairs (map_prod id ff) es)" and "2 * length es < 65536"
    and "\<And>m s. (m, s) \<in> set es \<Longrightarrow> pf (ff s) = Some s"
  defines "vs \<equiv> flat_pairs (map_prod id ff) es"
  shows "ziplist_zset pf (ziplist_bytes vs) 0 =
    (Ok (es, ZiplistDetail (length (ziplist_bytes vs))), 10 + length (concat (zl_entries 0 vs)))"
proof -
  have "scans (\<lambda>buf. repeat_comp (length es)
      (bind (readZipListEntry buf) (\<lambda>a. bind (readZipListEntry buf) (\<lambda>b.
        case pf b of None \<Rightarrow> throw (ErrMsg ''ParseFloat'') | Some score \<Rightarrow> ret (a, score)))))
    (concat (zl_entries 0 vs)) (map (\<lambda>p. p) es)"
    unfolding vs_def using assms(1,3) by (intro scans_zl_pairs) (auto simp: split: option.split)
  from ziplist_read [OF this] assms(2)
  have r: "bind (readZipListLength (ziplist_bytes vs))
      (\<lambda>n. repeat_comp (length es) (zset_pair pf (readZipListEntry (ziplist_bytes vs)))) 0 =
      (Ok es, 10 + length (concat (zl_entries 0 vs)))"
    and n: "readZipListLength (ziplist_bytes vs) 0 = (Ok (2 * length es), 10)"
    by (simp_all add: vs_def zset_pair_def)
  have "bind (readZipListLength (ziplist_bytes vs))
      (\<lambda>n. repeat_comp ((n + 1) div 2) (zset_pair pf (readZipListEntry (ziplist_bytes vs)))) 0 =
      (Ok es, 10 + length (concat (zl_entries 0 vs)))"
    using r n by (simp add: bind_Ok)
  then show ?thesis by (simp add: ziplist_zset_def bind_Ok ret_def)
qed

text \<open>One member of the binary encoding.\<close>

definition zset2_entry_bytes :: "bool \<Rightarrow> zset_entry \<Rightarrow> bytes" where
  "zset2_entry_bytes c en = string_bytes c (fst en) @ le_bytes 8 (snd en)"

interpretation zset2_codec: codec "\<lambda>(member, score). seq (writeString member) (writeFloat64 score)" zset2_entry_bytes
  "bind readString (\<lambda>member. bind readFloat (\<lambda>score. ret (member, score)))" "\<lambda>en. short_string (fst en)"
proof
  fix en :: zset_entry and c
  assume ok: "short_string (fst en)"
  obtain m s where en: "en = (m, s)" by fastforce
  show "emits c (case en of (member, score) \<Rightarrow> seq (writeString member) (writeFloat64 score)) (zset2_entry_bytes c en) ()"
    unfolding en zset2_entry_bytes_def prod.case fst_conv snd_conv
    using ok en by (intro emits_intros) simp
  have "parses (bind readFloat (\<lambda>score. ret (m, score))) (le_bytes 8 s) (m, s)"
    by (rule parses_bind_ret [OF parses_readFloat]) simp
  with ok show "parses (bind readString (\<lambda>member. bind readFloat (\<lambda>score. ret (member, score)))) (zset2_entry_bytes c en) en"
    unfolding en zset2_entry_bytes_def fst_conv snd_conv by (intro parses_bind [OF parses_string])
qed

lemma parses_readZSet2:
  assumes "list_all (\<lambda>en. short_string (fst en)) es" and "length es < 2 ^ 32"
  shows "parses (readZSet pf True) (length_bytes (of_nat (length es)) @ concat (map (zset2_entry_bytes c) es)) es"
  unfolding readZSet_def
proof (rule parses_bind [OF parses_readLen])
  show "parses (seq (make_check 8 (sint (of_nat (length es) :: u64))) (repeat_comp (unat (of_nat (length es) :: u64))
      (bind readString (\<lambda>member. bind (if True then readFloat else readLiteralFloat pf) (\<lambda>score. ret (member, score))))))
     (concat (map (zset2_entry_bytes c) es)) es"
    unfolding u64_length [OF assms(2)] if_True
    using assms by (intro parses_make_check zset2_codec.parses_list) (simp_all add: max_alloc_def)
qed

lemma zset_body_emits:
  assumes key: "short_string key" and es: "zset_ok pf ff es" and zo: "zl_opt_ok zo" and k: "k = (c, lo, ho, zo, limit, vk)"
  shows "\<exists>typ content. emits_in k (zset_body ff key es) (typ # string_bytes c key @ content) () \<and>
    (typ = typeZset2 \<and> parses (readZSet pf True) content es \<or>
     typ = typeZsetZipList \<and> (\<exists>n. parses (readZipListZSet pf) content (es, ZiplistDetail n)))"
proof (cases "getMaxEntries zo < int (length es) \<or> (\<exists>en \<in> set es. getMaxValue zo < int (length (fst en)))")
  case False
  define vs where "vs = flat_pairs (map_prod id ff) es"
  have ok: "list_all zl_ok vs" "2 * length es < 65536" "\<And>m s. (m, s) \<in> set es \<Longrightarrow> pf (ff s) = Some s"
    using False es zo
    by (force simp: list_all_iff vs_def set_flat_pairs zset_ok_def score_ok_def zl_opt_ok_def zl_ok_def)+
  have zl: "zl_ok_list vs" using ok by (simp add: zl_ok_list_def vs_def)
  have vs_eq: "vs = concat (map (\<lambda>(member, score). [member, ff score]) es)"
    unfolding vs_def flat_pairs_def by (rule arg_cong [where f = concat]) auto
  let ?content = "nan_string_bytes c (ziplist_bytes vs)"
  have "emits c (seq (enc_write [typeZsetZipList]) (seq (writeString key) (seq (writeZipList vs) (ret True))))
      ([typeZsetZipList] @ string_bytes c key @ ?content @ []) True"
    by (intro emits_intros emits_writeZipList key zl)
  then have "emits_in k (tryWriteZipListZSet ff key es) (typeZsetZipList # string_bytes c key @ ?content) True"
    unfolding tryWriteZipListZSet_def vs_eq using False
    by (intro emits_in_gets [where v = zo]) (auto simp: cfg_def k intro!: emits_in_emits)
  from emits_in_bind [OF this, of "\<lambda>ok. if ok then ret () else writeZSet2Encoding key es" "[]" "()"]
  have "emits_in k (zset_body ff key es) (typeZsetZipList # string_bytes c key @ ?content) ()"
    by (simp add: zset_body_def emits_in_emits emits_ret)
  moreover have "parses (readZipListZSet pf) ?content (es, ZiplistDetail (length (ziplist_bytes vs)))"
    unfolding readZipListZSet_def
    by (rule parses_in_buffer [where m = "ziplist_zset pf", OF parses_nan_string [OF short_ziplist [OF zl]]
          ziplist_zset_ok [OF ok(1)[unfolded vs_def] ok(2,3), folded vs_def]])
  ultimately show ?thesis by blast
next
  case True
  have ok: "list_all (\<lambda>en. short_string (fst en)) es" "length es < 2 ^ 32"
    using es by (auto simp: zset_ok_def list_all_iff)
  let ?content = "length_bytes (of_nat (length es)) @ concat (map (zset2_entry_bytes c) es)"
  have no: "emits_in k (tryWriteZipListZSet ff key es) [] False"
    unfolding tryWriteZipListZSet_def using True
    by (intro emits_in_gets [where v = zo]) (auto simp: cfg_def k intro!: emits_in_emits emits_ret)
  have "emits c (writeZSet2Encoding key es) ([typeZset2] @ string_bytes c key @ ?content) ()"
    unfolding writeZSet2Encoding_def by (intro emits_intros zset2_codec.emits_list key ok)
  then have "emits_in k (writeZSet2Encoding key es) (typeZset2 # string_bytes c key @ ?content) ()"
    by (simp add: emits_in_emits k)
  with emits_in_bind [OF no, of "\<lambda>ok. if ok then ret () else writeZSet2Encoding key es"]
  have "emits_in k (zset_body ff key es) (typeZset2 # string_bytes c key @ ?content) ()"
    by (simp add: zset_body_def)
  with parses_readZSet2 [OF ok] show ?thesis by blast
qed

end
