(* ===== verification/HashObj.thy ===== *)
theory HashObj
  imports ZSetObj
begin

text \<open>
  Hashes (\<open>core/hash.go\<close>): the readers of the plain encoding, of the two encodings with an expiration per
  field (Redis 7.4 and Valkey 9), of zipmaps, ziplists and listpacks, and the writers
  \<open>WriteHashMapObject\<close> and \<open>WriteHashMapObjectEx\<close>. A Go map is the list of its entries; an assignment
  \<open>m[k] = v\<close> is \<open>AList.update\<close>, and the writers go through the entries in the order of the list.
\<close>

section \<open>Reading\<close>

definition readHashMap :: "bytes gomap dec" where
  "readHashMap =
     bind readLen (\<lambda>n.
     iter_comp (nat (sint n)) (\<lambda>m.
       bind readString (\<lambda>field.
       bind readString (\<lambda>v.
       ret (AList.update field v m)))) [])"

definition EB_EXPIRE_TIME_MAX :: int where "EB_EXPIRE_TIME_MAX = 0x0000FFFFFFFFFFFF"
definition EB_EXPIRE_TIME_INVALID :: int where "EB_EXPIRE_TIME_INVALID = EB_EXPIRE_TIME_MAX + 1"

text \<open>The expiration of a field from what is stored; \<open>int64\<close> addition wraps.\<close>

definition hfe_expire :: "bool \<Rightarrow> u64 \<Rightarrow> u64 \<Rightarrow> u64" where
  "hfe_expire rc minExpire ttl =
     (if rc then ttl else if ttl = 0 then 0 else ttl + minExpire - 1)"

definition hfe_entry :: "bool \<Rightarrow> u64 \<Rightarrow> bytes gomap \<times> int gomap \<Rightarrow> (bytes gomap \<times> int gomap) dec" where
  "hfe_entry rc minExpire acc =
     (case acc of (m, e) \<Rightarrow>
      bind readLen (\<lambda>ttl.
      let expire = sint (hfe_expire rc minExpire ttl) in
      if EB_EXPIRE_TIME_MAX < expire then throw (ErrMsg ''invalid expireAt time: '')
      else
        bind readString (\<lambda>field.
        bind readString (\<lambda>v.
        ret (AList.update field v m, AList.update field expire e)))))"

definition readHashMapEx :: "bool \<Rightarrow> (bytes gomap \<times> int gomap) dec" where
  "readHashMapEx rc =
     bind (if rc then ret (of_int EB_EXPIRE_TIME_INVALID)
           else bind readInt64 (\<lambda>mn.
             if EB_EXPIRE_TIME_INVALID < sint mn then throw (ErrMsg ''hash read invalid minExpire value: '')
             else ret mn)) (\<lambda>minExpire.
     bind readLen (\<lambda>n.
     if n = 0 then throw (ErrMsg ''hash read empty key'')
     else iter_comp (nat (sint n)) (hfe_entry rc minExpire) ([], [])))"

definition hash2_entry :: "bytes gomap \<times> int gomap \<Rightarrow> (bytes gomap \<times> int gomap) dec" where
  "hash2_entry acc =
     (case acc of (m, e) \<Rightarrow>
      bind readString (\<lambda>field.
      bind readString (\<lambda>v.
      bind readInt64 (\<lambda>ex.
      let expire = (if sint ex < 0 then 0 else sint ex) in
      ret (AList.update field v m, AList.update field expire e)))))"

definition readHashMapExValkey :: "(bytes gomap \<times> int gomap) dec" where
  "readHashMapExValkey =
     bind readLen (\<lambda>n.
     if n = 0 then throw (ErrMsg ''hash read empty key'')
     else iter_comp (nat (sint n)) hash2_entry ([], []))"

subsection \<open>Zipmaps\<close>

definition readZipMapEntryLen :: "bytes \<Rightarrow> bool \<Rightarrow> (int \<times> nat) cur" where
  "readZipMapEntryLen buf readFree =
     bind (readBufByte buf) (\<lambda>b.
     if b = 253 then
       bind (readBytes buf 5) (\<lambda>bs.
       ret (uint (be_word (take 4 bs) :: u32), unat (bs ! 4)))
     else if b = 254 then throw (ErrMsg ''illegal zip map item length'')
     else if b = 255 then ret (-1, 0)
     else if readFree then bind (readBufByte buf) (\<lambda>free. ret (uint b, unat free))
     else ret (uint b, 0))"

text \<open>At the end mark the code returns \<open>nil\<close>, which is an empty string to its callers.\<close>

definition readZipMapEntry :: "bytes \<Rightarrow> bool \<Rightarrow> bytes cur" where
  "readZipMapEntry buf readFree =
     bind (readZipMapEntryLen buf readFree) (\<lambda>(len, free).
     if len = -1 then ret []
     else
       bind (readBytes buf (nat len)) (\<lambda>v.
       seq (skip free) (ret v)))"

lemma readZipMapEntryLen_progress:
  "readZipMapEntryLen buf rf cursor = (Ok x, c) \<Longrightarrow> cursor < c \<and> cursor < length buf"
  by (auto simp: readZipMapEntryLen_def bind_def readBufByte_def readBytes_def ret_def throw_def
      split: if_splits)

text \<open>The counting loop of \<open>countZipMapEntries\<close>; it ends because the cursor only grows.\<close>

function zipmap_count :: "bytes \<Rightarrow> nat \<Rightarrow> nat cur" where
  "zipmap_count buf n cursor =
     (case readZipMapEntryLen buf (n mod 2 \<noteq> 0) cursor of
        (Err e, c) \<Rightarrow> (Err e, c)
      | (Panic p, c) \<Rightarrow> (Panic p, c)
      | (Ok (len, free), c) \<Rightarrow>
          if len = -1 then (Ok n, c)
          else zipmap_count buf (n + 1) (c + nat len + free))"
  by pat_completeness auto
termination
  by (relation "measure (\<lambda>(buf, n, cursor). length buf - cursor)")
    (auto dest!: readZipMapEntryLen_progress [OF sym])

declare zipmap_count.simps [simp del]

definition countZipMapEntries :: "bytes \<Rightarrow> nat cur" where
  "countZipMapEntries buf = bind (zipmap_count buf 0) (\<lambda>n. seq (modify (\<lambda>cursor. 0)) (ret n))"

definition zipmap_hash :: "bytes \<Rightarrow> bytes gomap cur" where
  "zipmap_hash buf =
     bind (readBufByte buf) (\<lambda>bLen.
     bind (if 254 < bLen then
             bind (gets (\<lambda>cursor. cursor)) (\<lambda>cursor0.
             bind (countZipMapEntries buf) (\<lambda>n.
             seq (modify (\<lambda>cursor. cursor0)) (ret (n div 2))))
           else ret (unat bLen)) (\<lambda>len.
     iter_comp len (\<lambda>m.
       bind (readZipMapEntry buf False) (\<lambda>field.
       bind (readZipMapEntry buf True) (\<lambda>v.
       ret (AList.update field v m)))) []))"

definition readZipMapHash :: "bytes gomap dec" where
  "readZipMapHash = bind readString (\<lambda>buf. in_buffer (zipmap_hash buf))"

subsection \<open>Ziplists and listpacks\<close>

definition hash_pair :: "bytes cur \<Rightarrow> bytes gomap \<Rightarrow> bytes gomap cur" where
  "hash_pair rd m =
     bind rd (\<lambda>key.
     bind rd (\<lambda>v.
     ret (AList.update key v m)))"

definition ziplist_hash :: "bytes \<Rightarrow> (bytes gomap \<times> detail) cur" where
  "ziplist_hash buf =
     bind (bind (readZipListLength buf) (\<lambda>n.
       iter_comp ((n + 1) div 2) (hash_pair (readZipListEntry buf)) [])) (\<lambda>m.
     ret (m, ZiplistDetail (length buf)))"

definition readZipListHash :: "(bytes gomap \<times> detail) dec" where
  "readZipListHash = bind readString (\<lambda>buf. in_buffer (ziplist_hash buf))"

definition listpack_hash :: "bytes \<Rightarrow> (bytes gomap \<times> detail) cur" where
  "listpack_hash buf =
     bind (bind (readListPackLength buf) (\<lambda>n.
       iter_comp ((n + 1) div 2) (hash_pair (readListPackEntryAsString buf)) [])) (\<lambda>m.
     ret (m, ListpackDetail (length buf)))"

definition readListPackHash :: "(bytes gomap \<times> detail) dec" where
  "readListPackHash = bind readString (\<lambda>buf. in_buffer (listpack_hash buf))"

definition listpack_triple :: "bytes \<Rightarrow> bytes gomap \<times> int gomap \<Rightarrow> (bytes gomap \<times> int gomap) cur" where
  "listpack_triple buf acc =
     (case acc of (m, e) \<Rightarrow>
      bind (readListPackEntryAsString buf) (\<lambda>key.
      bind (readListPackEntryAsString buf) (\<lambda>v.
      bind (readListPackEntryAsInt buf) (\<lambda>expire.
      ret (AList.update key v m, AList.update key expire e)))))"

definition listpack_hash_ex :: "bytes \<Rightarrow> ((bytes gomap \<times> int gomap) \<times> detail) cur" where
  "listpack_hash_ex buf =
     bind (readListPackLength buf) (\<lambda>n.
     if n = 0 then throw (ErrMsg ''hash listpack read empty key'')
     else if n mod 3 \<noteq> 0 then throw (ErrMsg ''hash listpack read invalid size '')
     else
       bind (iter_comp (n div 3) (listpack_triple buf) ([], [])) (\<lambda>me.
       ret (me, ListpackDetail (length buf))))"

definition readListPackHashEx :: "bool \<Rightarrow> ((bytes gomap \<times> int gomap) \<times> detail) dec" where
  "readListPackHashEx rc =
     seq (if rc then ret () else bind readInt64 (\<lambda>_. ret ()))
         (bind readString (\<lambda>buf. in_buffer (listpack_hash_ex buf)))"

lemma consumes_hash_entries [consumes_intros]:
  "consumes (hfe_entry rc mn acc)" "consumes (hash2_entry acc)"
  unfolding hfe_entry_def hash2_entry_def by (intro consumes_intros)+

lemma consumes_hashes [consumes_intros]:
  "consumes readHashMap" "consumes (readHashMapEx rc)" "consumes readHashMapExValkey"
  "consumes readZipMapHash" "consumes readZipListHash" "consumes readListPackHash" "consumes (readListPackHashEx rc)"
  unfolding readHashMap_def readHashMapEx_def readHashMapExValkey_def readZipMapHash_def readZipListHash_def
    readListPackHash_def readListPackHashEx_def
  by (intro consumes_intros)+

section \<open>Writing\<close>

definition writeHashEncoding :: "bytes \<Rightarrow> bytes gomap \<Rightarrow> unit enc" where
  "writeHashEncoding key hash =
     seq (enc_write [typeHash]) (
     seq (writeString key) (
     seq (writeLength (of_nat (length hash))) (
     for_each hash (\<lambda>(field, v). seq (writeString field) (writeString v)))))"

text \<open>The smallest positive expiration, or 0; and what is stored for a field (\<open>int64\<close>, so it wraps).\<close>

definition min_expire :: "int gomap \<Rightarrow> int" where
  "min_expire expire =
     (let mn = foldl (\<lambda>mn (k, e). if 0 < e \<and> e < mn then e else mn) EB_EXPIRE_TIME_INVALID expire in
      if mn = EB_EXPIRE_TIME_INVALID then 0 else mn)"

definition field_expire :: "int gomap \<Rightarrow> bytes \<Rightarrow> int" where
  "field_expire expire field = (case map_of expire field of None \<Rightarrow> 0 | Some e \<Rightarrow> e)"

definition hfe_ttl :: "int \<Rightarrow> int \<Rightarrow> u64" where
  "hfe_ttl minExpire fieldExpire =
     (if fieldExpire = 0 then 0 else of_int (fieldExpire - minExpire + 1))"

definition writeHashEncodingEx :: "bytes \<Rightarrow> bytes gomap \<Rightarrow> int gomap \<Rightarrow> unit enc" where
  "writeHashEncodingEx key hash expire =
     seq (enc_write [typeHashWithHfe]) (
     seq (writeString key) (
     let minExpire = min_expire expire in
     seq (enc_write (le_bytes 8 (of_int minExpire :: u64))) (
     seq (writeLength (of_nat (length hash))) (
     for_each hash (\<lambda>(field, v).
       seq (writeLength (hfe_ttl minExpire (field_expire expire field))) (
       seq (writeString field) (writeString v)))))))"

definition hash2_ttl :: "int \<Rightarrow> u64" where
  "hash2_ttl fieldExpire = (if fieldExpire = 0 then -1 else of_int fieldExpire)"

definition writeHash2Encoding :: "bytes \<Rightarrow> bytes gomap \<Rightarrow> int gomap \<Rightarrow> unit enc" where
  "writeHash2Encoding key hash expire =
     seq (enc_write [typeHash2]) (
     seq (writeString key) (
     seq (writeLength (of_nat (length hash))) (
     for_each hash (\<lambda>(field, v).
       seq (writeString field) (
       seq (writeString v) (
       enc_write (le_bytes 8 (hash2_ttl (field_expire expire field)))))))))"

definition tryWriteZipListHashMap :: "bytes \<Rightarrow> bytes gomap \<Rightarrow> bool enc" where
  "tryWriteZipListHashMap key hash =
     bind (gets hashZipListOpt) (\<lambda>opt.
     if getMaxEntries opt < int (length hash) then ret False
     else if \<exists>en \<in> set hash. getMaxValue opt < int (length (snd en)) then ret False
     else
     seq (enc_write [typeHashZipList]) (
     seq (writeString key) (
     seq (writeZipList (concat (map (\<lambda>(k, v). [k, v]) hash))) (
     ret True))))"

definition hash_body :: "bytes \<Rightarrow> bytes gomap \<Rightarrow> unit enc" where
  "hash_body key hash =
     bind (tryWriteZipListHashMap key hash) (\<lambda>ok.
     if ok then ret () else writeHashEncoding key hash)"

definition WriteHashMapObject :: "bytes \<Rightarrow> bytes gomap \<Rightarrow> write_option list \<Rightarrow> unit enc" where
  "WriteHashMapObject key hash options = write_object options (hash_body key hash)"

definition hash_ex_body :: "bytes \<Rightarrow> bytes gomap \<Rightarrow> int gomap \<Rightarrow> unit enc" where
  "hash_ex_body key hash expire =
     bind (gets enc_valkey) (\<lambda>vk.
     if vk then writeHash2Encoding key hash expire else writeHashEncodingEx key hash expire)"

definition WriteHashMapObjectEx ::
  "bytes \<Rightarrow> bytes gomap \<Rightarrow> int gomap \<Rightarrow> write_option list \<Rightarrow> unit enc" where
  "WriteHashMapObjectEx key hash expire options = write_object options (hash_ex_body key hash expire)"

lemma writer_only_hash_bodies [writer_intros]:
  "writer_only (hash_body key hash)" "writer_only (hash_ex_body key hash expire)"
  unfolding hash_body_def tryWriteZipListHashMap_def writeHashEncoding_def hash_ex_body_def
    writeHash2Encoding_def writeHashEncodingEx_def
  by (intro writer_intros)+

interpretation hash_writer: object_writer "WriteHashMapObject key hash"
  by (unfold_locales, unfold WriteHashMapObject_def)
    (rule write_object_call [rotated], assumption, intro writer_intros)

interpretation hash_ex_writer: object_writer "WriteHashMapObjectEx key hash expire"
  by (unfold_locales, unfold WriteHashMapObjectEx_def)
    (rule write_object_call [rotated], assumption, intro writer_intros)

section \<open>Maps from lists of entries\<close>

abbreviation assign :: "(bytes \<times> 'v) list \<Rightarrow> bytes \<times> 'v \<Rightarrow> (bytes \<times> 'v) list" where
  "assign m p \<equiv> AList.update (fst p) (snd p) m"

lemma update_fresh: "k \<notin> fst ` set m \<Longrightarrow> AList.update k v m = m @ [(k, v)]"
  by (induction m) auto

lemma foldl_assign: "distinct (map fst (m @ ps)) \<Longrightarrow> foldl assign m ps = m @ ps"
proof (induction ps arbitrary: m)
  case (Cons p ps)
  then have "assign m p = m @ [p]" using update_fresh [of "fst p" m "snd p"] by auto
  with Cons.IH [of "m @ [p]"] Cons.prems show ?case by simp
qed simp

lemma foldl_assign_Nil: "distinct (map fst ps) \<Longrightarrow> foldl assign [] ps = ps"
  using foldl_assign [of "[]" ps] by simp

text \<open>A loop that folds what it reads is the loop that reads, and a fold.\<close>

lemma iter_repeat:
  "iter_comp n (\<lambda>a. bind m (\<lambda>x. ret (g a x))) a = bind (repeat_comp n m) (\<lambda>xs. ret (foldl g a xs))"
proof (induction n arbitrary: a)
  case (Suc n)
  then have "iter_comp (Suc n) (\<lambda>a. bind m (\<lambda>x. ret (g a x))) a =
      bind m (\<lambda>x. bind (repeat_comp n m) (\<lambda>xs. ret (foldl g (g a x) xs)))"
    by (simp add: bind_assoc)
  then show ?case by (simp add: bind_assoc)
qed simp

section \<open>What is read back\<close>

definition hash_ok :: "bytes gomap \<Rightarrow> bool" where
  "hash_ok hash \<longleftrightarrow> distinct (map fst hash) \<and> length hash < 2 ^ 32 \<and>
     (\<forall>(k, v) \<in> set hash. short_string k \<and> short_string v)"

definition pair_bytes :: "bool \<Rightarrow> bytes \<times> bytes \<Rightarrow> bytes" where
  "pair_bytes c p = string_bytes c (fst p) @ string_bytes c (snd p)"

interpretation pair_codec: codec "\<lambda>(field, v). seq (writeString field) (writeString v)" pair_bytes
  "bind readString (\<lambda>field. bind readString (\<lambda>v. ret (field, v)))"
  "\<lambda>p. short_string (fst p) \<and> short_string (snd p)"
proof
  fix p :: "bytes \<times> bytes" and c
  assume ok: "short_string (fst p) \<and> short_string (snd p)"
  obtain k v where p: "p = (k, v)" by fastforce
  show "emits c (case p of (field, v) \<Rightarrow> seq (writeString field) (writeString v)) (pair_bytes c p) ()"
    unfolding p pair_bytes_def prod.case fst_conv snd_conv using ok p by (intro emits_intros) simp_all
  have "parses (bind readString (\<lambda>v. ret (k, v))) (string_bytes c v) (k, v)"
    by (rule parses_bind_ret [OF parses_string]) (use ok p in simp_all)
  then show "parses (bind readString (\<lambda>field. bind readString (\<lambda>v. ret (field, v)))) (pair_bytes c p) p"
    unfolding p pair_bytes_def fst_conv snd_conv using ok p by (intro parses_bind [OF parses_string]) simp_all
qed

lemma hash_ok_pairs: "hash_ok hash \<Longrightarrow> list_all (\<lambda>p. short_string (fst p) \<and> short_string (snd p)) hash"
  by (auto simp: hash_ok_def list_all_iff)

lemma parses_readHashMap:
  assumes "hash_ok hash"
  shows "parses readHashMap (length_bytes (of_nat (length hash)) @ concat (map (pair_bytes c) hash)) hash"
proof -
  let ?rd = "bind readString (\<lambda>field. bind readString (\<lambda>v. ret (field, v)))"
  have n: "length hash < 2 ^ 32" and d: "distinct (map fst hash)" using assms by (simp_all add: hash_ok_def)
  have loop: "iter_comp k (\<lambda>m. bind readString (\<lambda>field. bind readString (\<lambda>v. ret (AList.update field v m)))) [] =
      bind (repeat_comp k ?rd) (\<lambda>xs. ret (foldl assign [] xs))" for k
    by (simp add: iter_repeat [symmetric] bind_assoc)
  have "parses (bind (repeat_comp (length hash) ?rd) (\<lambda>xs. ret (foldl assign [] xs))) (concat (map (pair_bytes c) hash)) hash"
    by (rule parses_bind_ret [OF pair_codec.parses_list [OF hash_ok_pairs [OF assms]]])
      (simp add: foldl_assign_Nil [OF d])
  then show ?thesis unfolding readHashMap_def
    by (intro parses_bind [OF parses_readLen]) (simp add: u64_length(2) [OF n] loop)
qed

lemma hash_pair_loop:
  "iter_comp n (hash_pair rd) m =
     bind (repeat_comp n (bind rd (\<lambda>k. bind rd (\<lambda>v. ret (k, v))))) (\<lambda>ps. ret (foldl assign m ps))"
  by (simp add: iter_repeat [symmetric] bind_assoc hash_pair_def [abs_def])

lemma ziplist_hash_ok:
  assumes "list_all zl_ok (flat_pairs (\<lambda>p. p) hash)" and "2 * length hash < 65536" and "distinct (map fst hash)"
  defines "vs \<equiv> flat_pairs (\<lambda>p. p) hash"
  shows "ziplist_hash (ziplist_bytes vs) 0 =
    (Ok (hash, ZiplistDetail (length (ziplist_bytes vs))), 10 + length (concat (zl_entries 0 vs)))"
proof -
  have "scans (\<lambda>buf. repeat_comp (length hash)
      (bind (readZipListEntry buf) (\<lambda>a. bind (readZipListEntry buf) (\<lambda>b. ret (a, b)))))
    (concat (zl_entries 0 vs)) (map (\<lambda>p. p) hash)"
    unfolding vs_def using assms(1) by (intro scans_zl_pairs) auto
  then have "scans (\<lambda>buf. repeat_comp (length hash)
      (bind (readZipListEntry buf) (\<lambda>a. bind (readZipListEntry buf) (\<lambda>b. ret (a, b)))))
    (concat (zl_entries 0 vs)) hash" by simp
  then have "scans (\<lambda>buf. iter_comp (length hash) (hash_pair (readZipListEntry buf)) [])
      (concat (zl_entries 0 vs)) hash"
    unfolding hash_pair_loop by (rule scans_bind_ret) (use foldl_assign_Nil [OF assms(3)] in simp)
  from ziplist_read [OF this] assms(2)
  have "bind (readZipListLength (ziplist_bytes vs))
      (\<lambda>n. iter_comp (length hash) (hash_pair (readZipListEntry (ziplist_bytes vs))) []) 0 =
      (Ok hash, 10 + length (concat (zl_entries 0 vs)))"
    and "readZipListLength (ziplist_bytes vs) 0 = (Ok (2 * length hash), 10)"
    by (simp_all add: vs_def)
  then have "bind (readZipListLength (ziplist_bytes vs))
      (\<lambda>n. iter_comp ((n + 1) div 2) (hash_pair (readZipListEntry (ziplist_bytes vs))) []) 0 =
      (Ok hash, 10 + length (concat (zl_entries 0 vs)))"
    by (simp add: bind_Ok)
  then show ?thesis by (simp add: ziplist_hash_def bind_Ok ret_def)
qed

lemma hash_body_emits:
  assumes key: "short_string key" and h: "hash_ok hash" and ho: "zl_opt_ok ho"
    and keys: "\<forall>p \<in> set hash. length (fst p) \<le> 16383" and k: "k = (c, lo, ho, zo, limit, vk)"
  shows "\<exists>typ content. emits_in k (hash_body key hash) (typ # string_bytes c key @ content) () \<and>
    (typ = typeHash \<and> parses readHashMap content hash \<or>
     typ = typeHashZipList \<and> (\<exists>n. parses readZipListHash content (hash, ZiplistDetail n)))"
proof (cases "getMaxEntries ho < int (length hash) \<or> (\<exists>en \<in> set hash. getMaxValue ho < int (length (snd en)))")
  case False
  define vs where "vs = flat_pairs (\<lambda>p. p) hash"
  have ok: "list_all zl_ok vs" "2 * length hash < 65536" "distinct (map fst hash)"
    using False h ho keys by (force simp: list_all_iff vs_def set_flat_pairs hash_ok_def zl_opt_ok_def zl_ok_def)+
  have zl: "zl_ok_list vs" using ok by (simp add: zl_ok_list_def vs_def)
  have vs_eq: "vs = concat (map (\<lambda>(k, v). [k, v]) hash)"
    unfolding vs_def flat_pairs_def by (rule arg_cong [where f = concat]) auto
  let ?content = "nan_string_bytes c (ziplist_bytes vs)"
  have "emits c (seq (enc_write [typeHashZipList]) (seq (writeString key) (seq (writeZipList vs) (ret True))))
      ([typeHashZipList] @ string_bytes c key @ ?content @ []) True"
    by (intro emits_intros emits_writeZipList key zl)
  then have "emits_in k (tryWriteZipListHashMap key hash) (typeHashZipList # string_bytes c key @ ?content) True"
    unfolding tryWriteZipListHashMap_def vs_eq using False
    by (intro emits_in_gets [where v = ho]) (auto simp: cfg_def k intro!: emits_in_emits)
  from emits_in_bind [OF this, of "\<lambda>ok. if ok then ret () else writeHashEncoding key hash" "[]" "()"]
  have "emits_in k (hash_body key hash) (typeHashZipList # string_bytes c key @ ?content) ()"
    by (simp add: hash_body_def emits_in_emits emits_ret)
  moreover have "parses readZipListHash ?content (hash, ZiplistDetail (length (ziplist_bytes vs)))"
    unfolding readZipListHash_def
    by (rule parses_in_buffer [where m = ziplist_hash, OF parses_nan_string [OF short_ziplist [OF zl]]
          ziplist_hash_ok [OF ok(1)[unfolded vs_def] ok(2,3), folded vs_def]])
  ultimately show ?thesis by blast
next
  case True
  let ?content = "length_bytes (of_nat (length hash)) @ concat (map (pair_bytes c) hash)"
  have no: "emits_in k (tryWriteZipListHashMap key hash) [] False"
    unfolding tryWriteZipListHashMap_def using True
    by (intro emits_in_gets [where v = ho]) (auto simp: cfg_def k intro!: emits_in_emits emits_ret)
  have "emits c (writeHashEncoding key hash) ([typeHash] @ string_bytes c key @ ?content) ()"
    unfolding writeHashEncoding_def by (intro emits_intros pair_codec.emits_list hash_ok_pairs key h)
  then have "emits_in k (writeHashEncoding key hash) (typeHash # string_bytes c key @ ?content) ()"
    by (simp add: emits_in_emits k)
  with emits_in_bind [OF no, of "\<lambda>ok. if ok then ret () else writeHashEncoding key hash"]
  have "emits_in k (hash_body key hash) (typeHash # string_bytes c key @ ?content) ()"
    by (simp add: hash_body_def)
  with parses_readHashMap [OF h] show ?thesis by blast
qed

subsection \<open>Expirations of fields\<close>

definition expire_ok :: "bytes gomap \<Rightarrow> int gomap \<Rightarrow> bool" where
  "expire_ok hash expire \<longleftrightarrow> hash \<noteq> [] \<and> distinct (map fst expire) \<and>
     (\<forall>(k, v) \<in> set hash. 0 \<le> field_expire expire k \<and> field_expire expire k \<le> EB_EXPIRE_TIME_MAX)"

lemma min_expire_foldl:
  fixes a :: int and expire :: "int gomap"
  assumes "0 < a" and "a \<le> EB_EXPIRE_TIME_INVALID"
  defines "r \<equiv> foldl (\<lambda>mn (k, e). if 0 < e \<and> e < mn then e else mn) a expire"
  shows "0 < r \<and> r \<le> a \<and> (\<forall>(k, e) \<in> set expire. 0 < e \<longrightarrow> r \<le> e)"
  unfolding r_def using assms(1)
proof (induction expire arbitrary: a)
  case (Cons p expire)
  obtain k e where p: "p = (k, e)" by fastforce
  show ?case using Cons.IH [of "if 0 < e \<and> e < a then e else a"] Cons.prems
    by (auto simp: p split: if_splits)
qed simp

lemma min_expire_bounds:
  "0 \<le> min_expire expire" "min_expire expire \<le> EB_EXPIRE_TIME_MAX"
  "(k, e) \<in> set expire \<Longrightarrow> 0 < e \<Longrightarrow> e \<le> EB_EXPIRE_TIME_MAX \<Longrightarrow> min_expire expire \<le> e"
proof -
  define r where "r = foldl (\<lambda>mn (k, e). if 0 < e \<and> e < mn then e else mn) EB_EXPIRE_TIME_INVALID expire"
  have r: "0 < r \<and> r \<le> EB_EXPIRE_TIME_INVALID \<and> (\<forall>(k, e) \<in> set expire. 0 < e \<longrightarrow> r \<le> e)"
    unfolding r_def by (rule min_expire_foldl) (simp_all add: EB_EXPIRE_TIME_INVALID_def EB_EXPIRE_TIME_MAX_def)
  have m: "min_expire expire = (if r = EB_EXPIRE_TIME_INVALID then 0 else r)"
    by (simp add: min_expire_def r_def)
  show "0 \<le> min_expire expire" "min_expire expire \<le> EB_EXPIRE_TIME_MAX"
    using r by (auto simp: m EB_EXPIRE_TIME_INVALID_def EB_EXPIRE_TIME_MAX_def)
  show "(k, e) \<in> set expire \<Longrightarrow> 0 < e \<Longrightarrow> e \<le> EB_EXPIRE_TIME_MAX \<Longrightarrow> min_expire expire \<le> e"
    using r by (auto simp: m EB_EXPIRE_TIME_INVALID_def)
qed

lemma field_expire_min:
  assumes "0 < field_expire expire k" and "field_expire expire k \<le> EB_EXPIRE_TIME_MAX"
  shows "min_expire expire \<le> field_expire expire k"
  using assms min_expire_bounds(3) [of k "field_expire expire k" expire]
  by (auto simp: field_expire_def dest: map_of_SomeD split: option.splits)

text \<open>The relative expiration, with its shift by one, is undone by the reader.\<close>

lemma hfe_expire_ttl:
  assumes "0 \<le> fe" and "fe \<le> EB_EXPIRE_TIME_MAX" and "0 < fe \<longrightarrow> mn \<le> fe" and "0 \<le> mn"
  shows "sint (hfe_expire False (of_int mn) (hfe_ttl mn fe)) = fe"
proof (cases "fe = 0")
  case True
  then show ?thesis by (simp add: hfe_expire_def hfe_ttl_def)
next
  case False
  with assms have d: "1 \<le> fe - mn + 1" "fe - mn + 1 < 2 ^ 63" by (auto simp: EB_EXPIRE_TIME_MAX_def)
  have "sint (of_int (fe - mn + 1) :: u64) = fe - mn + 1"
    using d by (intro sint_of_int_range) simp_all
  with d(1) have "hfe_ttl mn fe \<noteq> 0" using False by (auto simp: hfe_ttl_def)
  then have "hfe_expire False (of_int mn) (hfe_ttl mn fe) = of_int fe"
    using False by (simp add: hfe_expire_def hfe_ttl_def)
  moreover have "sint (of_int fe :: u64) = fe"
    using assms by (intro sint_of_int_range) (simp_all add: EB_EXPIRE_TIME_MAX_def)
  ultimately show ?thesis by simp
qed

definition hfe_entry_bytes :: "bool \<Rightarrow> int gomap \<Rightarrow> bytes \<times> bytes \<Rightarrow> bytes" where
  "hfe_entry_bytes c expire p =
     length_bytes (hfe_ttl (min_expire expire) (field_expire expire (fst p))) @ pair_bytes c p"

definition hash2_entry_bytes :: "bool \<Rightarrow> int gomap \<Rightarrow> bytes \<times> bytes \<Rightarrow> bytes" where
  "hash2_entry_bytes c expire p = pair_bytes c p @ le_bytes 8 (hash2_ttl (field_expire expire (fst p)))"

definition assign_ex :: "int gomap \<Rightarrow> bytes gomap \<times> int gomap \<Rightarrow> bytes \<times> bytes \<Rightarrow> bytes gomap \<times> int gomap" where
  "assign_ex expire acc p =
     (AList.update (fst p) (snd p) (fst acc), AList.update (fst p) (field_expire expire (fst p)) (snd acc))"

lemma foldl_assign_ex:
  assumes "distinct (map fst ps)"
  shows "foldl (assign_ex expire) ([], []) ps = (ps, map (\<lambda>(k, v). (k, field_expire expire k)) ps)"
proof -
  have "foldl (assign_ex expire) (m, e) ps =
    (foldl assign m ps, foldl assign e (map (\<lambda>(k, v). (k, field_expire expire k)) ps))" for m e
    by (induction ps arbitrary: m e) (auto simp: assign_ex_def)
  moreover have "map fst (map (\<lambda>(k, v). (k, field_expire expire k)) ps) = map fst ps" by auto
  ultimately show ?thesis using assms by (simp only: foldl_assign_Nil)
qed

lemma parses_pair:
  assumes "short_string (fst p)" and "short_string (snd p)" and "parses (f (fst p) (snd p)) cs y"
  shows "parses (bind readString (\<lambda>k. bind readString (\<lambda>v. f k v))) (pair_bytes c p @ cs) y"
  unfolding pair_bytes_def append_assoc
  by (intro parses_bind [OF parses_string] assms)

lemma parses_hfe_entry:
  assumes "short_string (fst p)" and "short_string (snd p)"
    and "0 \<le> field_expire expire (fst p)" and "field_expire expire (fst p) \<le> EB_EXPIRE_TIME_MAX"
  shows "parses (hfe_entry False (of_int (min_expire expire)) acc) (hfe_entry_bytes c expire p) (assign_ex expire acc p)"
proof -
  obtain m e where acc: "acc = (m, e)" by fastforce
  have ex: "sint (hfe_expire False (of_int (min_expire expire)) (hfe_ttl (min_expire expire) (field_expire expire (fst p))))
      = field_expire expire (fst p)"
    using assms(3,4) field_expire_min min_expire_bounds(1) by (intro hfe_expire_ttl) auto
  have "parses (bind readString (\<lambda>field. bind readString (\<lambda>v.
      ret (AList.update field v m, AList.update field (field_expire expire (fst p)) e)))) (pair_bytes c p @ [])
      (assign_ex expire acc p)"
    using assms(1,2) by (rule parses_pair) (simp add: assign_ex_def acc parses_ret)
  then show ?thesis unfolding hfe_entry_def hfe_entry_bytes_def acc prod.case
    using assms(4) by (intro parses_bind [OF parses_readLen]) (simp add: Let_def ex)
qed

lemma parses_hash2_entry:
  assumes "short_string (fst p)" and "short_string (snd p)"
    and "0 \<le> field_expire expire (fst p)" and "field_expire expire (fst p) \<le> EB_EXPIRE_TIME_MAX"
  shows "parses (hash2_entry acc) (hash2_entry_bytes c expire p) (assign_ex expire acc p)"
proof -
  obtain m e where acc: "acc = (m, e)" by fastforce
  let ?fe = "field_expire expire (fst p)"
  have "sint (of_int ?fe :: u64) = ?fe"
    using assms(3,4) by (intro sint_of_int_range) (simp_all add: EB_EXPIRE_TIME_MAX_def)
  then have ex: "(if sint (hash2_ttl ?fe) < 0 then 0 else sint (hash2_ttl ?fe)) = ?fe"
    using assms(3) by (auto simp: hash2_ttl_def)
  have i64: "parses readInt64 (le_bytes 8 (hash2_ttl ?fe)) (hash2_ttl ?fe)" unfolding readInt64_def
    by (rule parses_bind_ret [OF parses_wrap_err [OF parses_readFull_eq]]) (simp_all add: le_word_le_bytes)
  show ?thesis unfolding hash2_entry_def hash2_entry_bytes_def acc prod.case
    by (intro parses_pair [OF assms(1,2)] parses_bind_ret [OF i64])
      (simp only: Let_def ex, simp add: assign_ex_def)
qed

lemma parses_hash_ex:
  assumes "hash_ok hash" and "expire_ok hash expire"
  defines "result \<equiv> (hash, map (\<lambda>(k, v). (k, field_expire expire k)) hash)"
  shows "parses (readHashMapEx False)
      (le_bytes 8 (of_int (min_expire expire) :: u64) @ length_bytes (of_nat (length hash)) @
       concat (map (hfe_entry_bytes c expire) hash)) result"
    and "parses readHashMapExValkey
      (length_bytes (of_nat (length hash)) @ concat (map (hash2_entry_bytes c expire) hash)) result"
proof -
  have n: "length hash < 2 ^ 32" and d: "distinct (map fst hash)" and ne: "hash \<noteq> []"
    using assms(1,2) by (simp_all add: hash_ok_def expire_ok_def)
  have n0: "(of_nat (length hash) :: u64) \<noteq> 0" using u64_length(3) [OF n] ne by auto
  have fold: "foldl (assign_ex expire) ([], []) hash = result"
    unfolding result_def by (rule foldl_assign_ex [OF d])
  have el: "\<And>p. p \<in> set hash \<Longrightarrow> short_string (fst p) \<and> short_string (snd p) \<and>
      0 \<le> field_expire expire (fst p) \<and> field_expire expire (fst p) \<le> EB_EXPIRE_TIME_MAX"
    using assms(1,2) by (force simp: hash_ok_def expire_ok_def)
  have loop: "parses (iter_comp (length hash) (hfe_entry False (of_int (min_expire expire))) ([], []))
      (concat (map (hfe_entry_bytes c expire) hash)) result"
    unfolding fold [symmetric] using el by (intro parses_iter parses_hfe_entry) auto
  have loop2: "parses (iter_comp (length hash) hash2_entry ([], []))
      (concat (map (hash2_entry_bytes c expire) hash)) result"
    unfolding fold [symmetric] using el by (intro parses_iter parses_hash2_entry) auto
  let ?w = "of_int (min_expire expire) :: u64"
  have "sint ?w = min_expire expire"
    using min_expire_bounds(1,2) [of expire] by (intro sint_of_int_range) (simp_all add: EB_EXPIRE_TIME_MAX_def)
  then have sw: "\<not> EB_EXPIRE_TIME_INVALID < sint ?w"
    using min_expire_bounds(2) [of expire] by (simp add: EB_EXPIRE_TIME_INVALID_def)
  have i64: "parses readInt64 (le_bytes 8 ?w) ?w" unfolding readInt64_def
    by (rule parses_bind_ret [OF parses_wrap_err [OF parses_readFull_eq]]) (simp_all add: le_word_le_bytes)
  have mn: "parses (if False then ret (of_int EB_EXPIRE_TIME_INVALID)
           else bind readInt64 (\<lambda>mn.
             if EB_EXPIRE_TIME_INVALID < sint mn then throw (ErrMsg ''hash read invalid minExpire value: '')
             else ret mn)) (le_bytes 8 ?w) ?w"
    unfolding if_False by (rule parses_bind_ret [OF i64]) (simp only: sw if_False)
  show "parses (readHashMapEx False) (le_bytes 8 ?w @ length_bytes (of_nat (length hash)) @
       concat (map (hfe_entry_bytes c expire) hash)) result"
    unfolding readHashMapEx_def
    by (intro parses_bind [OF mn] parses_bind [OF parses_readLen]) (simp add: n0 u64_length(2) [OF n] loop)
  show "parses readHashMapExValkey
      (length_bytes (of_nat (length hash)) @ concat (map (hash2_entry_bytes c expire) hash)) result"
    unfolding readHashMapExValkey_def
    by (intro parses_bind [OF parses_readLen]) (simp add: n0 u64_length(2) [OF n] loop2)
qed


lemma hash_ex_emits:
  assumes key: "short_string key" and h: "hash_ok hash" and x: "expire_ok hash expire"
    and k: "k = (c, lo, ho, zo, limit, vk)"
  shows "\<exists>content. emits_in k (hash_ex_body key hash expire)
      ((if vk then typeHash2 else typeHashWithHfe) # string_bytes c key @ content) () \<and>
    parses (if vk then readHashMapExValkey else readHashMapEx False) content
      (hash, map (\<lambda>(k, v). (k, field_expire expire k)) hash)"
proof -
  have e1: "emits c (case p of (field, v) \<Rightarrow> seq (writeString field) (seq (writeString v)
      (enc_write (le_bytes 8 (hash2_ttl (field_expire expire field)))))) (hash2_entry_bytes c expire p) ()"
    and e2: "emits c (case p of (field, v) \<Rightarrow> seq (writeLength (hfe_ttl (min_expire expire) (field_expire expire field)))
      (seq (writeString field) (writeString v))) (hfe_entry_bytes c expire p) ()" if "p \<in> set hash" for p
  proof -
    obtain f v where p: "p = (f, v)" by fastforce
    then have "short_string f" "short_string v" using that h by (auto simp: hash_ok_def)
    then show "emits c (case p of (field, v) \<Rightarrow> seq (writeString field) (seq (writeString v)
        (enc_write (le_bytes 8 (hash2_ttl (field_expire expire field)))))) (hash2_entry_bytes c expire p) ()"
      "emits c (case p of (field, v) \<Rightarrow> seq (writeLength (hfe_ttl (min_expire expire) (field_expire expire field)))
        (seq (writeString field) (writeString v))) (hfe_entry_bytes c expire p) ()"
      unfolding p hash2_entry_bytes_def hfe_entry_bytes_def pair_bytes_def prod.case fst_conv snd_conv append_assoc
      by (blast intro: emits_intros)+
  qed
  have 1: "emits c (writeHash2Encoding key hash expire) ([typeHash2] @ string_bytes c key @
      length_bytes (of_nat (length hash)) @ concat (map (hash2_entry_bytes c expire) hash)) ()"
    unfolding writeHash2Encoding_def by (intro emits_intros emits_for_each e1 key)
  have 2: "emits c (writeHashEncodingEx key hash expire) ([typeHashWithHfe] @ string_bytes c key @
      le_bytes 8 (of_int (min_expire expire) :: u64) @
      length_bytes (of_nat (length hash)) @ concat (map (hfe_entry_bytes c expire) hash)) ()"
    unfolding writeHashEncodingEx_def Let_def by (intro emits_intros emits_for_each e2 key)
  show ?thesis
  proof (cases vk)
    case True
    have "emits_in k (hash_ex_body key hash expire) (typeHash2 # string_bytes c key @
      length_bytes (of_nat (length hash)) @ concat (map (hash2_entry_bytes c expire) hash)) ()"
      unfolding hash_ex_body_def using 1 True
      by (intro emits_in_gets [where v = True]) (auto simp: cfg_def k intro!: emits_in_emits)
    with parses_hash_ex(2) [OF h x, of c] True show ?thesis by auto
  next
    case False
    have "emits_in k (hash_ex_body key hash expire) (typeHashWithHfe # string_bytes c key @
      le_bytes 8 (of_int (min_expire expire) :: u64) @
      length_bytes (of_nat (length hash)) @ concat (map (hfe_entry_bytes c expire) hash)) ()"
      unfolding hash_ex_body_def using 2 False
      by (intro emits_in_gets [where v = False]) (auto simp: cfg_def k intro!: emits_in_emits)
    with parses_hash_ex(1) [OF h x, of c] False show ?thesis by auto
  qed
qed

text \<open>
  C8. The expirations of the fields of a hash survive: over a reliable writer \<open>WriteHashMapObjectEx\<close>
  writes the time to live of the key, the type byte of the target server (Valkey or Redis), the key and
  a content, from which the reader of that encoding returns the same fields and values and, for every
  field, the expiration that was given for it (0 where none was), for all expirations up to
  \<open>EB_EXPIRE_TIME_MAX\<close>. The relative encoding of Redis (offsets from the smallest expiration) is undone
  by the reader.
\<close>

theorem hash_ex_roundtrip:
  assumes "reliable e" and "object_state (state e) t" and "short_string key"
    and "hash_ok hash" and "expire_ok hash expire"
  shows "\<exists>e' content. WriteHashMapObjectEx key hash expire (ttl_options t) e = (Ok (), e') \<and>
    out e' = out e @ ttl_bytes t @ (if enc_valkey e then typeHash2 else typeHashWithHfe) #
      string_bytes (compress e) key @ content \<and>
    parses (if enc_valkey e then readHashMapExValkey else readHashMapEx False) content
      (hash, map (\<lambda>(k, v). (k, field_expire expire k)) hash)"
proof -
  obtain content where
    w: "emits_in (cfg e) (hash_ex_body key hash expire)
      ((if enc_valkey e then typeHash2 else typeHashWithHfe) # string_bytes (compress e) key @ content) ()"
    and r: "parses (if enc_valkey e then readHashMapExValkey else readHashMapEx False) content
      (hash, map (\<lambda>(k, v). (k, field_expire expire k)) hash)"
    using hash_ex_emits [OF assms(3-5) cfg_def] by blast
  from write_object_reliable [OF assms(1,2) w] r show ?thesis
    unfolding WriteHashMapObjectEx_def by (intro exI [of _ content] exI conjI) auto
qed

definition sample_encoder :: "bool \<Rightarrow> encoder" where
  "sample_encoder vk = (if vk then NewEncoderValkey (\<lambda>h p. None) else NewEncoder (\<lambda>h p. None))
     \<lparr>state := writtenDBHeaderState\<rparr>"

lemma sample_encoder_ok: "reliable (sample_encoder vk)" "object_state (state (sample_encoder vk)) t"
  by (simp_all add: sample_encoder_def reliable_def NewEncoder_def NewEncoderValkey_def object_state_def)

theorem hash_ex_roundtrip_witness:
  "\<exists>e' content. WriteHashMapObjectEx [107] [([97], [49]), ([98], [50])] [([98], 1700000000000)]
      (ttl_options (Some 5)) (sample_encoder False) = (Ok (), e') \<and>
    out e' = out (sample_encoder False) @ ttl_bytes (Some 5) @
      (if enc_valkey (sample_encoder False) then typeHash2 else typeHashWithHfe) #
      string_bytes (compress (sample_encoder False)) [107] @ content \<and>
    parses (if enc_valkey (sample_encoder False) then readHashMapExValkey else readHashMapEx False) content
      ([([97], [49]), ([98], [50])],
        map (\<lambda>(k, v). (k, field_expire [([98], 1700000000000)] k)) [([97], [49 :: byte]), ([98], [50])])"
  by (rule hash_ex_roundtrip [OF sample_encoder_ok])
    (simp_all add: short_string_def hash_ok_def expire_ok_def field_expire_def EB_EXPIRE_TIME_MAX_def)

subsection \<open>Zipmaps\<close>

text \<open>The layout of a zipmap with short items: the free bytes stand behind a value.\<close>

type_synonym zm_item = "(bytes \<times> bytes) \<times> nat"

definition zm_key :: "bytes \<Rightarrow> bytes" where
  "zm_key k = of_nat (length k) # k"

definition zm_value :: "bytes \<Rightarrow> nat \<Rightarrow> bytes" where
  "zm_value v free = [of_nat (length v), of_nat free] @ v @ replicate free 0"

definition zm_bytes :: "zm_item \<Rightarrow> bytes" where
  "zm_bytes x = zm_key (fst (fst x)) @ zm_value (snd (fst x)) (snd x)"

definition zipmap_bytes :: "byte \<Rightarrow> zm_item list \<Rightarrow> bytes" where
  "zipmap_bytes b items = b # concat (map zm_bytes items) @ [255]"

definition zm_ok :: "zm_item \<Rightarrow> bool" where
  "zm_ok x \<longleftrightarrow> length (fst (fst x)) \<le> 252 \<and> length (snd (fst x)) \<le> 252 \<and> snd x < 256"

lemma zm_byte: "n \<le> 252 \<Longrightarrow> unat (of_nat n :: byte) = n" "n \<le> 252 \<Longrightarrow> uint (of_nat n :: byte) = int n"
  "n \<le> 252 \<Longrightarrow> (of_nat n :: byte) \<noteq> 253" "n \<le> 252 \<Longrightarrow> (of_nat n :: byte) \<noteq> 254"
  "n \<le> 252 \<Longrightarrow> (of_nat n :: byte) \<noteq> 255"
proof -
  assume n: "n \<le> 252"
  then show u: "unat (of_nat n :: byte) = n" by (intro unat_of_nat_byte) simp
  then show "uint (of_nat n :: byte) = int n" by (metis uint_nat)
  show "(of_nat n :: byte) \<noteq> 253" "(of_nat n :: byte) \<noteq> 254" "(of_nat n :: byte) \<noteq> 255"
    using u n by auto
qed

lemma zm_len_key: "length k \<le> 252 \<Longrightarrow> scans (\<lambda>buf. readZipMapEntryLen buf False) [of_nat (length k)] (int (length k), 0)"
  unfolding readZipMapEntryLen_def
  by (rule scans_bind_eq [OF scans_readBufByte, where cs = "[]"]) (simp_all add: zm_byte scans_ret)

lemma zm_len_value:
  assumes "length v \<le> 252" and "free < 256"
  shows "scans (\<lambda>buf. readZipMapEntryLen buf True) [of_nat (length v), of_nat free] (int (length v), free)"
  unfolding readZipMapEntryLen_def
  by (rule scans_bind_eq [OF scans_readBufByte, where cs = "[of_nat free]"])
    (simp_all add: zm_byte assms scans_bind_ret [OF scans_readBufByte] unat_of_nat_byte)

lemma scans_zm_key: "length k \<le> 252 \<Longrightarrow> scans (\<lambda>buf. readZipMapEntry buf False) (zm_key k) k"
  unfolding readZipMapEntry_def zm_key_def
  by (rule scans_bind_eq [OF zm_len_key, where cs = k])
    (auto simp: seq_def skip_def modify_def ret_def bind_def scans_def readBytes_def)

lemma scans_zm_value:
  assumes "length v \<le> 252" and "free < 256"
  shows "scans (\<lambda>buf. readZipMapEntry buf True) (zm_value v free) v"
  unfolding readZipMapEntry_def zm_value_def
  by (rule scans_bind [OF zm_len_value [OF assms]])
    (auto simp: seq_def skip_def modify_def ret_def bind_def scans_def readBytes_def)

lemma scans_zm_pair:
  assumes "zm_ok x"
  shows "scans (\<lambda>buf. bind (readZipMapEntry buf False) (\<lambda>k. bind (readZipMapEntry buf True) (\<lambda>v. ret (k, v))))
    (zm_bytes x) (fst x)"
proof -
  have ok: "length (fst (fst x)) \<le> 252" "length (snd (fst x)) \<le> 252" "snd x < 256"
    using assms by (simp_all add: zm_ok_def)
  show ?thesis unfolding zm_bytes_def
    by (rule scans_bind [OF scans_zm_key [OF ok(1)]], rule scans_bind_ret [OF scans_zm_value [OF ok(2,3)]]) simp
qed

lemma zipmap_count_items:
  assumes "list_all zm_ok items" and "n mod 2 = 0"
  shows "fst (zipmap_count (pre @ concat (map zm_bytes items) @ [255]) n (length pre)) = Ok (n + 2 * length items)"
  using assms
proof (induction items arbitrary: n pre)
  case Nil
  then show ?case
    by (subst zipmap_count.simps)
      (simp add: readZipMapEntryLen_def bind_def readBufByte_def nth_append ret_def)
next
  case (Cons x items)
  obtain k v f where x: "x = ((k, v), f)" by (metis prod.exhaust)
  have ok: "length k \<le> 252" "length v \<le> 252" "f < 256" using Cons.prems by (simp_all add: zm_ok_def x)
  define buf where "buf = pre @ concat (map zm_bytes (x # items)) @ [255]"
  have 1: "readZipMapEntryLen buf False (length pre) = (Ok (int (length k), 0), length pre + 1)"
    using scans_at [OF zm_len_key [OF ok(1)], of buf pre] by (simp add: buf_def zm_bytes_def x zm_key_def)
  have 2: "readZipMapEntryLen buf True (length pre + 1 + length k) =
      (Ok (int (length v), f), length pre + 1 + length k + 2)"
    using scans_at [OF zm_len_value [OF ok(2,3)], of buf "pre @ zm_key k"]
    by (simp add: buf_def zm_bytes_def x zm_key_def zm_value_def)
  have len: "length pre + 1 + length k + 2 + length v + f = length (pre @ zm_bytes x)"
    by (simp add: zm_bytes_def x zm_key_def zm_value_def)
  have "zipmap_count buf n (length pre) = zipmap_count buf (n + 1) (length pre + 1 + length k)"
    using Cons.prems(2) 1 by (subst zipmap_count.simps) simp
  also have "\<dots> = zipmap_count buf (n + 2) (length (pre @ zm_bytes x))"
  proof -
    have "(n + 1) mod 2 \<noteq> 0" using Cons.prems(2) by presburger
    then show ?thesis using 2 by (subst zipmap_count.simps) (simp add: len [symmetric] del: length_append)
  qed
  also have "fst \<dots> = Ok (n + 2 + 2 * length items)"
    using Cons.IH [of "n + 2" "pre @ zm_bytes x"] Cons.prems by (simp add: buf_def)
  finally show ?case by (simp add: buf_def)
qed

lemma zipmap_loop: "iter_comp n (\<lambda>m. bind (readZipMapEntry buf False) (\<lambda>field.
       bind (readZipMapEntry buf True) (\<lambda>v. ret (AList.update field v m)))) m =
   bind (repeat_comp n (bind (readZipMapEntry buf False) (\<lambda>k. bind (readZipMapEntry buf True) (\<lambda>v. ret (k, v)))))
     (\<lambda>ps. ret (foldl assign m ps))"
  by (simp add: iter_repeat [symmetric] bind_assoc)

text \<open>
  C30. The zipmap reader returns the pairs in front of the end mark, free bytes skipped: as many as the
  count byte says when that is at most 254, and all of them, found by a first pass over the entries,
  when it is 255. (A server stores 254 in the count byte of every zipmap of 254 pairs or more, so
  that of such a zipmap only the first 254 pairs are read.)
\<close>

theorem zipmap_read:
  assumes "list_all zm_ok items" and "distinct (map fst (map fst items))"
    and "b = 255 \<or> unat b \<le> length items"
  shows "fst (zipmap_hash (zipmap_bytes b items) 0) =
    Ok (if b = 255 then map fst items else map fst (take (unat b) items))"
proof -
  define n where "n = (if b = 255 then length items else unat b)"
  have n: "n \<le> length items" using assms(3) by (auto simp: n_def)
  let ?buf = "zipmap_bytes b items"
  let ?loop = "iter_comp n (\<lambda>m. bind (readZipMapEntry ?buf False) (\<lambda>field.
       bind (readZipMapEntry ?buf True) (\<lambda>v. ret (AList.update field v m)))) []"
  have ok: "list_all zm_ok (take n items)" using assms(1) by (auto simp: list_all_iff dest: in_set_takeD)
  have "scans (\<lambda>buf. repeat_comp (length (map fst (take n items)))
        (bind (readZipMapEntry buf False) (\<lambda>k. bind (readZipMapEntry buf True) (\<lambda>v. ret (k, v)))))
      (concat (map zm_bytes (take n items))) (map fst (take n items))"
    using ok by (intro scans_repeat) (auto simp: list_all2_conv_all_nth list_all_length intro: scans_zm_pair)
  from scans_at [OF this, of ?buf "[b]" "concat (map zm_bytes (drop n items)) @ [255]"] n
  have "fst (repeat_comp n (bind (readZipMapEntry ?buf False) (\<lambda>k. bind (readZipMapEntry ?buf True) (\<lambda>v. ret (k, v)))) 1)
      = Ok (map fst (take n items))"
    by (simp add: zipmap_bytes_def flip: concat_append map_append append_assoc)
  moreover have "distinct (map fst (map fst (take n items)))"
    using assms(2) by (metis distinct_take take_map)
  ultimately have loop: "fst (?loop 1) = Ok (map fst (take n items))"
    unfolding zipmap_loop by (auto simp: bind_def ret_def foldl_assign_Nil split: result.splits prod.splits)
  have b: "readBufByte ?buf 0 = (Ok b, 1)" by (simp add: readBufByte_def zipmap_bytes_def)
  show ?thesis
  proof (cases "b = 255")
    case True
    have "fst (countZipMapEntries ?buf 1) = Ok (2 * length items)"
      using zipmap_count_items [OF assms(1), of 0 "[b]"]
      by (auto simp: countZipMapEntries_def zipmap_bytes_def bind_def seq_def modify_def ret_def
          split: result.splits prod.splits)
    then show ?thesis using loop b True
      by (auto simp: zipmap_hash_def bind_def gets_def seq_def modify_def ret_def n_def split: result.splits prod.splits)
  next
    case False
    then have "\<not> 254 < b" by (auto simp: word_less_nat_alt word_unat_eq_iff) (use unsigned_less [of b, where 'a = nat] in simp)
    then show ?thesis using loop b False
      by (simp add: zipmap_hash_def bind_Ok ret_def n_def)
  qed
qed

theorem zipmap_read_witness:
  "fst (zipmap_hash (zipmap_bytes 255 [(([97], [49]), 2), (([98], [50]), 0)]) 0) =
    Ok (if (255 :: byte) = 255 then map fst [(([97 :: byte], [49 :: byte]), 2 :: nat), (([98], [50]), 0)]
        else map fst (take (unat (255 :: byte)) [(([97], [49]), 2 :: nat), (([98], [50]), 0)]))"
  by (rule zipmap_read) (simp_all add: zm_ok_def)

end
