(* ===== verification/StreamObj.thy ===== *)
theory StreamObj
  imports HashObj
begin

text \<open>
  Streams (\<open>core/stream.go\<close>): the readers of the entries, each a listpack of messages with the field
  names they share, and of the consumer groups, and \<open>WriteStreamObject\<close> with everything it calls but
  the listpack encoder (theory \<open>Listpack\<close>). The pointers in a stream object are taken to be non-nil, except the
  two that the code tests (\<open>FirstId\<close>, \<open>MaxDeletedId\<close>).
\<close>

section \<open>Reading\<close>

definition StreamItemFlagNone :: int where "StreamItemFlagNone = 0"
definition StreamItemFlagDeleted :: int where "StreamItemFlagDeleted = 1"
definition StreamItemFlagSameFields :: int where "StreamItemFlagSameFields = 2"

definition readStreamId :: "stream_id dec" where
  "readStreamId =
     bind readLen (\<lambda>ms.
     bind readLen (\<lambda>sq.
     ret \<lparr>Ms = ms, Sequence = sq\<rparr>))"

text \<open>\<open>binary.BigEndian.Uint64\<close> of the next eight bytes, twice.\<close>

definition stream_header :: "bytes \<Rightarrow> stream_id cur" where
  "stream_header header =
     bind (readBytes header 8) (\<lambda>msBin.
     bind (readBytes header 8) (\<lambda>seqBin.
     ret \<lparr>Ms = be_word msBin, Sequence = be_word seqBin\<rparr>))"

text \<open>One field of a message: its name is the one of the master entry or stands in front of the value.\<close>

definition stream_field :: "bytes \<Rightarrow> bool \<Rightarrow> bytes list \<Rightarrow> nat \<times> bytes gomap \<Rightarrow> (nat \<times> bytes gomap) cur" where
  "stream_field buf same masterFieldNames acc =
     (case acc of (i, fs) \<Rightarrow>
      bind (if same then
              (if i < length masterFieldNames then ret (masterFieldNames ! i) else panic IndexRange)
            else wrap_err ''read stream item field name failed'' (readListPackEntryAsString buf)) (\<lambda>fieldName.
      bind (wrap_err ''read stream item field value failed'' (readListPackEntryAsString buf)) (\<lambda>fieldValue.
      ret (i + 1, AList.update fieldName fieldValue fs))))"

definition read_stream_message :: "bytes \<Rightarrow> stream_id \<Rightarrow> bytes list \<Rightarrow> stream_message cur" where
  "read_stream_message buf fid masterFieldNames =
     bind (wrap_err ''read stream item flag failed'' (readListPackEntryAsInt buf)) (\<lambda>flag.
     bind (wrap_err ''read stream item id ms failed'' (readListPackEntryAsInt buf)) (\<lambda>ms.
     bind (wrap_err ''read stream item id seq failed'' (readListPackEntryAsInt buf)) (\<lambda>sq.
     let msgId = \<lparr>Ms = of_int ms + Ms fid, Sequence = of_int sq + Sequence fid\<rparr>;
         same = (flag AND StreamItemFlagSameFields > 0) in
     bind (if flag AND StreamItemFlagSameFields = 0 then
             wrap_err ''read stream item field number failed'' (readListPackEntryAsInt buf)
           else ret (int (length masterFieldNames))) (\<lambda>fieldNum.
     bind (iter_comp (nat fieldNum) (stream_field buf same masterFieldNames) (0, [])) (\<lambda>(i, fs).
     bind (wrap_err ''read fields end flag failed'' (readListPackEntryAsString buf)) (\<lambda>_.
     ret \<lparr>msg_id = msgId, msg_fields = fs, msg_deleted = (flag AND StreamItemFlagDeleted > 0)\<rparr>))))))"

text \<open>The sum of the two counts is an \<open>int64\<close>; \<open>make\<close> panics when it, or the number of names, is negative.\<close>

definition readStreamEntryContent :: "bytes \<Rightarrow> stream_id \<Rightarrow> stream_entry cur" where
  "readStreamEntryContent buf fid =
     bind (wrap_err ''read stream entry count failed'' (readListPackEntryAsInt buf)) (\<lambda>count.
     bind (wrap_err ''read stream entry deleted count failed'' (readListPackEntryAsInt buf)) (\<lambda>deleted.
     bind (wrap_err ''read stream field number failed'' (readListPackEntryAsInt buf)) (\<lambda>masterFieldNum.
     seq (make_check 16 masterFieldNum) (
     bind (repeat_comp (nat masterFieldNum)
       (wrap_err ''read field name of stream entry failed'' (readListPackEntryAsString buf))) (\<lambda>masterFieldNames.
     bind (wrap_err ''read fields end flag failed'' (readListPackEntryAsString buf)) (\<lambda>_.
     let total = sint (of_int (count + deleted) :: u64) in
     seq (make_check 8 total) (
     bind (repeat_comp (nat total) (read_stream_message buf fid masterFieldNames)) (\<lambda>msgs.
     ret \<lparr>firstMsgId = fid, entry_fields = masterFieldNames, entry_msgs = msgs\<rparr>))))))))"

definition readStreamEntry :: "stream_entry dec" where
  "readStreamEntry =
     bind readString (\<lambda>header.
     bind (in_buffer (stream_header header)) (\<lambda>fid.
     bind readString (\<lambda>buf.
     in_buffer (seq (ignore_err [] (readBytes buf 6)) (readStreamEntryContent buf fid)))))"

definition readStreamEntries :: "stream_entry list dec" where
  "readStreamEntries = bind readLen (\<lambda>n. repeat_comp (unat n) readStreamEntry)"

text \<open>\<open>dec.readFull(dec.buffer)\<close> and \<open>Uint64\<close> of the eight bytes.\<close>

definition read_be64 :: "u64 dec" where
  "read_be64 = bind (readFull 8) (\<lambda>bs. ret (be_word bs))"

definition read_le64 :: "u64 dec" where
  "read_le64 = bind (readFull 8) (\<lambda>bs. ret (le_word bs))"

definition read_raw_id :: "stream_id dec" where
  "read_raw_id =
     bind read_be64 (\<lambda>ms.
     bind read_be64 (\<lambda>sq.
     ret \<lparr>Ms = ms, Sequence = sq\<rparr>))"

definition read_stream_nack :: "stream_nack dec" where
  "read_stream_nack =
     bind read_raw_id (\<lambda>streamId.
     bind read_le64 (\<lambda>dt.
     bind readLen (\<lambda>dc.
     ret \<lparr>nack_id = streamId, deliveryTime = dt, deliveryCount = dc\<rparr>)))"

definition read_stream_consumer :: "nat \<Rightarrow> stream_consumer dec" where
  "read_stream_consumer version =
     bind readString (\<lambda>consumerName.
     bind read_le64 (\<lambda>st.
     bind (if 3 \<le> version then read_le64 else ret st) (\<lambda>at.
     bind readLen (\<lambda>n.
     seq (make_check 8 (sint n)) (
     bind (repeat_comp (unat n) read_raw_id) (\<lambda>pending.
     ret \<lparr>consumer_name = consumerName, seenTime = st, consumer_pending = pending, activeTime = at\<rparr>))))))"

text \<open>\<open>name, _ := dec.readString()\<close>: the error of a group's name is dropped.\<close>

definition read_stream_group :: "nat \<Rightarrow> stream_group dec" where
  "read_stream_group version =
     bind (ignore_err [] readString) (\<lambda>name.
     bind readStreamId (\<lambda>lid.
     bind (if 2 \<le> version then readLen else ret 0) (\<lambda>er.
     bind readLen (\<lambda>pendingCount.
     seq (make_check 8 (sint pendingCount)) (
     bind (repeat_comp (unat pendingCount) read_stream_nack) (\<lambda>pending.
     bind readLen (\<lambda>consumerCount.
     seq (make_check 8 (sint consumerCount)) (
     bind (repeat_comp (unat consumerCount) (read_stream_consumer version)) (\<lambda>consumers.
     ret \<lparr>group_name = name, group_lastId = lid, group_pending = pending, group_consumers = consumers,
       entriesRead = er\<rparr>)))))))))"

definition readStreamGroups :: "nat \<Rightarrow> stream_group list dec" where
  "readStreamGroups version =
     bind readLen (\<lambda>groupCount.
     seq (make_check 8 (sint groupCount)) (
     repeat_comp (unat groupCount) (read_stream_group version)))"

definition readStreamListPacks :: "nat \<Rightarrow> stream dec" where
  "readStreamListPacks version =
     bind readStreamEntries (\<lambda>entries.
     bind readLen (\<lambda>streamLen.
     bind readStreamId (\<lambda>lid.
     bind (if 2 \<le> version then
             bind readStreamId (\<lambda>fid.
             bind readStreamId (\<lambda>mid.
             bind readLen (\<lambda>addedCount.
             ret (Some fid, Some mid, addedCount))))
           else ret (None, None, 0)) (\<lambda>(fid, mid, addedCount).
     bind (readStreamGroups version) (\<lambda>groups.
     ret \<lparr>stream_version = version, stream_entries = entries, stream_groups = groups,
       stream_length = streamLen, lastId = lid, firstId = fid, maxDeletedId = mid,
       addedEntriesCount = addedCount\<rparr>)))))"

lemma consumes_read64 [consumes_intros]:
  "consumes read_be64" "consumes read_le64" "consumes read_raw_id" "consumes readStreamId"
  unfolding read_be64_def read_le64_def read_raw_id_def readStreamId_def by (intro consumes_intros)+

text \<open>A dropped error does no harm to the read count when what follows needs input.\<close>

lemma consumes_ignore_bind:
  assumes m: "consumes m" and f: "\<And>a. consumes (f a)"
    and needs: "\<And>a d x d'. input d = [] \<Longrightarrow> f a d \<noteq> (Ok x, d')"
  shows "consumes (bind (ignore_err z m) f)"
proof (rule consumesI)
  fix d r d2 assume run: "bind (ignore_err z m) f d = (r, d2)"
  obtain r1 d1 where m1: "m d = (r1, d1)" by fastforce
  from consumesD [OF m m1] obtain p where p: "took d p d1 (\<exists>a. r1 = Ok a)" by blast
  show "\<exists>p. took d p d2 (\<exists>a. r = Ok a)"
  proof (cases r1)
    case (Ok a)
    with run m1 have "f a d1 = (r, d2)" by (simp add: bind_def ignore_err_def)
    from consumesD [OF f this] obtain q where "took d1 q d2 (\<exists>a. r = Ok a)" by blast
    with p Ok show ?thesis by (auto intro: took_trans)
  next
    case (Err e)
    with run m1 have fz: "f z d1 = (r, d2)" by (simp add: bind_def ignore_err_def)
    from consumesD [OF f fz] obtain q where q: "took d1 q d2 (\<exists>a. r = Ok a)" by blast
    show ?thesis
    proof (cases "input d1 = []")
      case True
      with fz needs have r: "\<not> (\<exists>a. r = Ok a)" by blast
      from q True have "q = []" "input d2 = []" by (simp_all add: took_def)
      with p q r Err have "took d (p @ q) d2 (\<exists>a. r = Ok a)" by (auto simp: took_def)
      then show ?thesis by blast
    next
      case False
      with p Err have "took d p d1 True" by (auto simp: took_def)
      from took_trans [OF this q] show ?thesis by blast
    qed
  qed (use run m1 p in \<open>auto simp: bind_def ignore_err_def\<close>)
qed

lemma readStreamId_needs_input: "input d = [] \<Longrightarrow> bind readStreamId f d \<noteq> (Ok x, d')"
  by (simp add: readStreamId_def readLen_def readLength_def bind_assoc bind_def wrap_err_def readByte_def)

lemma consumes_stream_parts [consumes_intros]:
  "consumes readStreamEntry" "consumes readStreamEntries" "consumes read_stream_nack"
  "consumes (read_stream_consumer version)"
  unfolding readStreamEntries_def readStreamEntry_def read_stream_nack_def read_stream_consumer_def
  by (intro consumes_intros)+

lemma consumes_stream_groups [consumes_intros]:
  "consumes (read_stream_group version)" "consumes (readStreamGroups version)"
proof -
  show "consumes (read_stream_group version)"
    unfolding read_stream_group_def
    by (rule consumes_ignore_bind [OF _ _ readStreamId_needs_input]; (intro consumes_intros)?)
  then show "consumes (readStreamGroups version)"
    unfolding readStreamGroups_def by (intro consumes_intros)
qed

lemma consumes_readStreamListPacks [consumes_intros]: "consumes (readStreamListPacks version)"
  unfolding readStreamListPacks_def by (intro consumes_intros)

section \<open>Writing\<close>

definition writeStreamId :: "stream_id \<Rightarrow> unit enc" where
  "writeStreamId sid = seq (writeLength (Ms sid)) (writeLength (Sequence sid))"

text \<open>The two forms of \<open>listpackEntry\<close> literals.\<close>

abbreviation lp_i :: "int \<Rightarrow> listpack_entry" where "lp_i i \<equiv> \<lparr>intVal = i, strVal = []\<rparr>"
abbreviation lp_s :: "bytes \<Rightarrow> listpack_entry" where "lp_s s \<equiv> \<lparr>intVal = 0, strVal = s\<rparr>"

definition same_fields :: "bytes list \<Rightarrow> bytes gomap \<Rightarrow> bool" where
  "same_fields master fs \<longleftrightarrow> length fs = length master \<and> (\<forall>field \<in> set master. map_of fs field \<noteq> None)"

definition stream_flag :: "bytes list \<Rightarrow> stream_message \<Rightarrow> int" where
  "stream_flag master msg =
     (StreamItemFlagNone OR (if msg_deleted msg then StreamItemFlagDeleted else 0)) OR
     (if same_fields master (msg_fields msg) then StreamItemFlagSameFields else 0)"

definition field_value :: "bytes gomap \<Rightarrow> bytes \<Rightarrow> bytes" where
  "field_value fs field = (case map_of fs field of None \<Rightarrow> [] | Some v \<Rightarrow> v)"

definition stream_message_items :: "stream_id \<Rightarrow> bytes list \<Rightarrow> stream_message \<Rightarrow> listpack_entry list" where
  "stream_message_items fid master msg =
     (let flag = stream_flag master msg; fs = msg_fields msg in
      [lp_i flag, lp_i (sint (Ms (msg_id msg) - Ms fid)), lp_i (sint (Sequence (msg_id msg) - Sequence fid))] @
      (if flag AND StreamItemFlagSameFields = 0 then [lp_i (int (length fs))] else []) @
      (if flag AND StreamItemFlagSameFields > 0 then map (\<lambda>field. lp_s (field_value fs field)) master
       else concat (map (\<lambda>(fieldName, fieldValue). [lp_s fieldName, lp_s fieldValue]) fs)) @
      [lp_s (itoa (int (length fs)))])"

definition stream_entry_items :: "stream_entry \<Rightarrow> listpack_entry list" where
  "stream_entry_items en =
     (let totalMsgs = length (entry_msgs en); deletedCount = length (filter msg_deleted (entry_msgs en)) in
      [lp_i (int totalMsgs - int deletedCount), lp_i (int deletedCount), lp_i (int (length (entry_fields en)))] @
      map lp_s (entry_fields en) @
      [lp_s (itoa (int (length (entry_fields en))))] @
      concat (map (stream_message_items (firstMsgId en) (entry_fields en)) (entry_msgs en)))"

definition writeStreamEntryContent :: "stream_entry \<Rightarrow> unit enc" where
  "writeStreamEntryContent en = writeString (buildListpackWithBacklen (stream_entry_items en))"

definition id_bytes :: "stream_id \<Rightarrow> bytes" where
  "id_bytes sid = be_bytes 8 (Ms sid) @ be_bytes 8 (Sequence sid)"

definition write_stream_entry :: "stream_entry \<Rightarrow> unit enc" where
  "write_stream_entry en = seq (writeString (id_bytes (firstMsgId en))) (writeStreamEntryContent en)"

definition writeStreamEntries :: "stream_entry list \<Rightarrow> unit enc" where
  "writeStreamEntries ens = seq (writeLength (of_nat (length ens))) (for_each ens write_stream_entry)"

definition write_raw_id :: "stream_id \<Rightarrow> unit enc" where
  "write_raw_id sid = seq (enc_write (be_bytes 8 (Ms sid))) (enc_write (be_bytes 8 (Sequence sid)))"

definition write_stream_nack :: "stream_nack \<Rightarrow> unit enc" where
  "write_stream_nack p =
     seq (write_raw_id (nack_id p)) (
     seq (enc_write (le_bytes 8 (deliveryTime p))) (
     writeLength (deliveryCount p)))"

definition write_stream_consumer :: "nat \<Rightarrow> stream_consumer \<Rightarrow> unit enc" where
  "write_stream_consumer version c =
     seq (writeString (consumer_name c)) (
     seq (enc_write (le_bytes 8 (seenTime c))) (
     seq (if 3 \<le> version then enc_write (le_bytes 8 (activeTime c)) else ret ()) (
     seq (writeLength (of_nat (length (consumer_pending c)))) (
     for_each (consumer_pending c) write_raw_id))))"

definition write_stream_group :: "nat \<Rightarrow> stream_group \<Rightarrow> unit enc" where
  "write_stream_group version g =
     seq (writeString (group_name g)) (
     seq (writeStreamId (group_lastId g)) (
     seq (if 2 \<le> version then writeLength (entriesRead g) else ret ()) (
     seq (writeLength (of_nat (length (group_pending g)))) (
     seq (for_each (group_pending g) write_stream_nack) (
     seq (writeLength (of_nat (length (group_consumers g)))) (
     for_each (group_consumers g) (write_stream_consumer version)))))))"

definition writeStreamGroups :: "stream_group list \<Rightarrow> nat \<Rightarrow> unit enc" where
  "writeStreamGroups groups version =
     seq (writeLength (of_nat (length groups))) (for_each groups (write_stream_group version))"

definition stream_type :: "nat \<Rightarrow> byte" where
  "stream_type version =
     (if version = 1 then typeStreamListPacks
      else if version = 2 then typeStreamListPacks2
      else if version = 3 then typeStreamListPacks3
      else typeStreamListPacks)"

definition zero_id :: stream_id where "zero_id = \<lparr>Ms = 0, Sequence = 0\<rparr>"

definition or_zero_id :: "stream_id option \<Rightarrow> stream_id" where
  "or_zero_id sid = (case sid of None \<Rightarrow> zero_id | Some i \<Rightarrow> i)"

definition stream_content :: "stream \<Rightarrow> unit enc" where
  "stream_content s =
     seq (writeStreamEntries (stream_entries s)) (
     seq (writeLength (stream_length s)) (
     seq (writeStreamId (lastId s)) (
     seq (if 2 \<le> stream_version s then
            seq (writeStreamId (or_zero_id (firstId s))) (
            seq (writeStreamId (or_zero_id (maxDeletedId s))) (
            writeLength (addedEntriesCount s)))
          else ret ()) (
     writeStreamGroups (stream_groups s) (stream_version s)))))"

definition stream_body :: "bytes \<Rightarrow> stream \<Rightarrow> unit enc" where
  "stream_body key s =
     seq (enc_write [stream_type (stream_version s)]) (
     seq (writeString key) (
     stream_content s))"

definition WriteStreamObject :: "bytes \<Rightarrow> stream \<Rightarrow> write_option list \<Rightarrow> unit enc" where
  "WriteStreamObject key s options = write_object options (stream_body key s)"

lemma writer_only_stream_parts [writer_intros]:
  "writer_only (writeStreamId sid)" "writer_only (write_raw_id sid)" "writer_only (write_stream_nack p)"
  "writer_only (write_stream_consumer version c)" "writer_only (write_stream_group version g)"
  "writer_only (write_stream_entry en)"
  unfolding writeStreamId_def write_raw_id_def write_stream_nack_def write_stream_consumer_def
    write_stream_group_def write_stream_entry_def writeStreamEntryContent_def
  by (intro writer_intros)+

lemma writer_only_stream_body [writer_intros]: "writer_only (stream_body key s)"
  unfolding stream_body_def stream_content_def writeStreamEntries_def writeStreamGroups_def
  by (intro writer_intros)

interpretation stream_writer: object_writer "WriteStreamObject key s"
  by (unfold_locales, unfold WriteStreamObject_def)
    (rule write_object_call [rotated], assumption, intro writer_intros)


section \<open>Identifiers, consumers and groups\<close>

text \<open>A list with its length in front, read with the allocation that the code makes for it.\<close>

context codec
begin

lemma parses_counted:
  assumes xs: "list_all ok xs" "length xs < 2 ^ 32" and k: "0 \<le> k" "k \<le> 65536" and f: "parses (f xs) cs y"
  shows "parses (bind readLen (\<lambda>n. seq (make_check k (sint n)) (bind (repeat_comp (unat n) rd) f)))
    (length_bytes (of_nat (length xs)) @ concat (map (bytes_of c) xs) @ cs) y"
proof (rule parses_bind [OF parses_readLen])
  note n = u64_length [OF xs(2)]
  have "k * int (length xs) \<le> 65536 * int (length xs)" using k(2) by (intro mult_right_mono) simp_all
  also have "\<dots> \<le> max_alloc" using xs(2) by (simp add: max_alloc_def)
  finally have m: "k * int (length xs) \<le> max_alloc" .
  have r: "parses (bind (repeat_comp (length xs) rd) f) (concat (map (bytes_of c) xs) @ cs) y"
    by (rule parses_bind [where x = xs]) (rule parses_list [OF xs(1)], rule f)
  show "parses (seq (make_check k (sint (of_nat (length xs) :: u64)))
      (bind (repeat_comp (unat (of_nat (length xs) :: u64)) rd) f)) (concat (map (bytes_of c) xs) @ cs) y"
    unfolding n by (rule parses_make_check [OF _ m r]) simp
qed

lemma parses_counted_ret:
  assumes "list_all ok xs" "length xs < 2 ^ 32" "0 \<le> k" "k \<le> 65536" "f xs = ret y"
  shows "parses (bind readLen (\<lambda>n. seq (make_check k (sint n)) (bind (repeat_comp (unat n) rd) f)))
    (length_bytes (of_nat (length xs)) @ concat (map (bytes_of c) xs)) y"
proof -
  have "parses (f xs) [] y" by (simp add: assms(5) parses_ret)
  from parses_counted [where f = f, OF assms(1-4) this] show ?thesis by simp
qed

lemma emits_counted:
  assumes "list_all ok xs"
  shows "emits c (seq (writeLength (of_nat (length xs))) (for_each xs wr))
    (length_bytes (of_nat (length xs)) @ concat (map (bytes_of c) xs)) ()"
  by (intro emits_seq emits_writeLength emits_list assms)

end

lemma record_eta [simp]:
  "\<lparr>Ms = Ms i, Sequence = Sequence i\<rparr> = (i :: stream_id)"
  "\<lparr>nack_id = nack_id p, deliveryTime = deliveryTime p, deliveryCount = deliveryCount p\<rparr> = (p :: stream_nack)"
  "\<lparr>consumer_name = consumer_name c, seenTime = seenTime c, consumer_pending = consumer_pending c,
     activeTime = activeTime c\<rparr> = (c :: stream_consumer)"
  "\<lparr>group_name = group_name g, group_lastId = group_lastId g, group_pending = group_pending g,
     group_consumers = group_consumers g, entriesRead = entriesRead g\<rparr> = (g :: stream_group)"
  "\<lparr>msg_id = msg_id msg, msg_fields = msg_fields msg, msg_deleted = msg_deleted msg\<rparr> = (msg :: stream_message)"
  "\<lparr>firstMsgId = firstMsgId en, entry_fields = entry_fields en, entry_msgs = entry_msgs en\<rparr> = (en :: stream_entry)"
  by simp_all

lemma parses_read64: "parses read_be64 (be_bytes 8 x) x" "parses read_le64 (le_bytes 8 x) x"
  unfolding read_be64_def read_le64_def
  by (rule parses_bind_ret [OF parses_readFull_eq]; simp add: be_word_be_bytes le_word_le_bytes)+

interpretation stream_id_codec: codec writeStreamId "\<lambda>c i. length_bytes (Ms i) @ length_bytes (Sequence i)"
  readStreamId "\<lambda>i. True"
proof
  fix i :: stream_id and c
  show "emits c (writeStreamId i) (length_bytes (Ms i) @ length_bytes (Sequence i)) ()"
    unfolding writeStreamId_def by (intro emits_intros)
  show "parses readStreamId (length_bytes (Ms i) @ length_bytes (Sequence i)) i"
    unfolding readStreamId_def
    by (intro parses_bind [OF parses_readLen] parses_bind_ret [OF parses_readLen]) simp
qed

interpretation raw_id_codec: codec write_raw_id "\<lambda>c. id_bytes" read_raw_id "\<lambda>i. True"
proof
  fix i :: stream_id and c
  show "emits c (write_raw_id i) (id_bytes i) ()"
    unfolding write_raw_id_def id_bytes_def by (intro emits_intros)
  show "parses read_raw_id (id_bytes i) i"
    unfolding read_raw_id_def id_bytes_def
    by (intro parses_bind [OF parses_read64(1)] parses_bind_ret [OF parses_read64(1)]) simp
qed

definition nack_bytes :: "stream_nack \<Rightarrow> bytes" where
  "nack_bytes p = id_bytes (nack_id p) @ le_bytes 8 (deliveryTime p) @ length_bytes (deliveryCount p)"

interpretation nack_codec: codec write_stream_nack "\<lambda>c. nack_bytes" read_stream_nack "\<lambda>p. True"
proof
  fix p :: stream_nack and c
  show "emits c (write_stream_nack p) (nack_bytes p) ()"
    unfolding write_stream_nack_def nack_bytes_def by (intro emits_intros raw_id_codec.emits_wr TrueI)
  show "parses read_stream_nack (nack_bytes p) p"
    unfolding read_stream_nack_def nack_bytes_def
    by (intro parses_bind [OF raw_id_codec.parses_rd] parses_bind [OF parses_read64(2)]
        parses_bind_ret [OF parses_readLen] TrueI) simp
qed

text \<open>
  Before version 3 a consumer has no active time of its own, before version 2 a group does not count the
  entries read; the reader fills in the seen time and zero.
\<close>

definition consumer_ok :: "nat \<Rightarrow> stream_consumer \<Rightarrow> bool" where
  "consumer_ok version c \<longleftrightarrow> short_string (consumer_name c) \<and> length (consumer_pending c) < 2 ^ 32 \<and>
     (version < 3 \<longrightarrow> activeTime c = seenTime c)"

definition consumer_bytes :: "nat \<Rightarrow> bool \<Rightarrow> stream_consumer \<Rightarrow> bytes" where
  "consumer_bytes version b c =
     string_bytes b (consumer_name c) @ le_bytes 8 (seenTime c) @
     (if 3 \<le> version then le_bytes 8 (activeTime c) else []) @
     length_bytes (of_nat (length (consumer_pending c))) @ concat (map id_bytes (consumer_pending c))"

lemma emits_when: "emits c m bs () \<Longrightarrow> emits c (if b then m else ret ()) (if b then bs else []) ()"
  by (simp add: emits_ret)

lemma parses_when: "(b \<Longrightarrow> parses m bs x) \<Longrightarrow> (\<not> b \<Longrightarrow> x = z) \<Longrightarrow> parses (if b then m else ret z) (if b then bs else []) x"
  by (simp add: parses_ret)

interpretation consumer_codec: codec "write_stream_consumer version" "consumer_bytes version"
  "read_stream_consumer version" "consumer_ok version"
proof
  fix c :: stream_consumer and b
  assume ok: "consumer_ok version c"
  then have n: "short_string (consumer_name c)" and l: "length (consumer_pending c) < 2 ^ 32"
    by (simp_all add: consumer_ok_def)
  have t: "list_all (\<lambda>i. True) (consumer_pending c)" by (simp add: list_all_iff)
  show "emits b (write_stream_consumer version c) (consumer_bytes version b c) ()"
    unfolding write_stream_consumer_def consumer_bytes_def
    by (intro emits_seq emits_writeString emits_enc_write emits_when emits_writeLength n raw_id_codec.emits_list [OF t])
  have at: "parses (if 3 \<le> version then read_le64 else ret (seenTime c))
      (if 3 \<le> version then le_bytes 8 (activeTime c) else []) (activeTime c)"
    by (rule parses_when [OF parses_read64(2)]) (use ok in \<open>simp add: consumer_ok_def\<close>)
  show "parses (read_stream_consumer version) (consumer_bytes version b c) c"
    unfolding read_stream_consumer_def consumer_bytes_def
    by (intro parses_bind [OF parses_string [OF n]] parses_bind [OF parses_read64(2)] parses_bind [OF at]
        raw_id_codec.parses_counted_ret [OF t l]) simp_all
qed

definition group_ok :: "nat \<Rightarrow> stream_group \<Rightarrow> bool" where
  "group_ok version g \<longleftrightarrow> short_string (group_name g) \<and> length (group_pending g) < 2 ^ 32 \<and>
     length (group_consumers g) < 2 ^ 32 \<and> list_all (consumer_ok version) (group_consumers g) \<and>
     (version < 2 \<longrightarrow> entriesRead g = 0)"

definition group_bytes :: "nat \<Rightarrow> bool \<Rightarrow> stream_group \<Rightarrow> bytes" where
  "group_bytes version b g =
     string_bytes b (group_name g) @ (length_bytes (Ms (group_lastId g)) @ length_bytes (Sequence (group_lastId g))) @
     (if 2 \<le> version then length_bytes (entriesRead g) else []) @
     length_bytes (of_nat (length (group_pending g))) @ concat (map nack_bytes (group_pending g)) @
     length_bytes (of_nat (length (group_consumers g))) @
     concat (map (consumer_bytes version b) (group_consumers g))"

lemma parses_ignore_err: "parses m bs x \<Longrightarrow> parses (ignore_err z m) bs x"
  by (simp add: parses_def ignore_err_def)

interpretation group_codec: codec "write_stream_group version" "group_bytes version" "read_stream_group version"
  "group_ok version"
proof
  fix g :: stream_group and b
  assume ok: "group_ok version g"
  then have n: "short_string (group_name g)" and lp: "length (group_pending g) < 2 ^ 32"
    and lc: "length (group_consumers g) < 2 ^ 32" and cs: "list_all (consumer_ok version) (group_consumers g)"
    by (simp_all add: group_ok_def)
  have t: "list_all (\<lambda>p. True) (group_pending g)" by (simp add: list_all_iff)
  show "emits b (write_stream_group version g) (group_bytes version b g) ()"
    unfolding write_stream_group_def group_bytes_def
    by (intro emits_seq emits_writeString stream_id_codec.emits_wr emits_when emits_writeLength n TrueI
        nack_codec.emits_list [OF t] consumer_codec.emits_list [OF cs])
  have er: "parses (if 2 \<le> version then readLen else ret 0)
      (if 2 \<le> version then length_bytes (entriesRead g) else []) (entriesRead g)"
    by (rule parses_when [OF parses_readLen]) (use ok in \<open>simp add: group_ok_def\<close>)
  show "parses (read_stream_group version) (group_bytes version b g) g"
    unfolding read_stream_group_def group_bytes_def
    by (intro parses_bind [OF parses_ignore_err [OF parses_string [OF n]]]
        parses_bind [OF stream_id_codec.parses_rd] parses_bind [OF er] TrueI
        nack_codec.parses_counted [OF t lp] consumer_codec.parses_counted_ret [OF cs lc]) simp_all
qed


section \<open>Entries\<close>

text \<open>
  What survives in the listpack of an entry: strings that are not empty, integers that the encoder and the
  reader agree on, and no field twice. The fields of a message that has those of the master entry are
  listed in the order of the master entry, as the reader builds them.
\<close>

definition str_ok :: "bytes \<Rightarrow> bool" where
  "str_ok s \<longleftrightarrow> s \<noteq> [] \<and> length s < 2 ^ 32"

definition stream_msg_ok :: "stream_id \<Rightarrow> bytes list \<Rightarrow> stream_message \<Rightarrow> bool" where
  "stream_msg_ok fid master msg \<longleftrightarrow>
     lp_int_ok (sint (Ms (msg_id msg) - Ms fid)) \<and> lp_int_ok (sint (Sequence (msg_id msg) - Sequence fid)) \<and>
     lp_int_ok (int (length (msg_fields msg))) \<and> length (msg_fields msg) < 2 ^ 31 \<and>
     distinct (map fst (msg_fields msg)) \<and> (\<forall>(k, v) \<in> set (msg_fields msg). str_ok k \<and> str_ok v) \<and>
     (same_fields master (msg_fields msg) \<longrightarrow> map fst (msg_fields msg) = master)"

definition stream_entry_ok :: "stream_entry \<Rightarrow> bool" where
  "stream_entry_ok en \<longleftrightarrow>
     (let deleted = length (filter msg_deleted (entry_msgs en)) in
      lp_int_ok (int (length (entry_msgs en)) - int deleted) \<and> lp_int_ok (int deleted)) \<and>
     length (entry_msgs en) < 2 ^ 31 \<and>
     lp_int_ok (int (length (entry_fields en))) \<and> length (entry_fields en) < 2 ^ 31 \<and>
     list_all str_ok (entry_fields en) \<and>
     list_all (stream_msg_ok (firstMsgId en) (entry_fields en)) (entry_msgs en) \<and>
     short_string (buildListpackWithBacklen (stream_entry_items en))"

lemma scans_w_int:
  "lp_int_ok i \<Longrightarrow> scans (\<lambda>buf. wrap_err msg (readListPackEntryAsInt buf)) (lp_item (lp_i i)) i"
  by (intro scans_wrap_err scans_as_int)

lemma scans_w_str:
  "str_ok s \<Longrightarrow> scans (\<lambda>buf. wrap_err msg (readListPackEntryAsString buf)) (lp_item (lp_s s)) s"
  using scans_as_string [of "lp_s s"]
  by (intro scans_wrap_err) (simp add: str_ok_def lp_entry_ok_def lp_value_of_def)

lemma length_nat_digits: "length (nat_digits n) \<le> Suc n"
proof (induction n rule: nat_digits.induct)
  case (1 n)
  then show ?case by (subst nat_digits.simps) auto
qed

lemma itoa_str_ok: "n < 2 ^ 31 \<Longrightarrow> str_ok (itoa (int n))"
  using length_nat_digits [of n] by (simp add: itoa_def str_ok_def)

lemma flag_bits:
  "stream_flag master msg AND StreamItemFlagSameFields =
     (if same_fields master (msg_fields msg) then 2 else 0)"
  "stream_flag master msg AND StreamItemFlagDeleted = (if msg_deleted msg then 1 else 0)"
  "lp_int_ok (stream_flag master msg)"
  by (simp_all add: stream_flag_def StreamItemFlagNone_def StreamItemFlagDeleted_def
      StreamItemFlagSameFields_def lp_int_ok_def)

definition field_bytes :: "bool \<Rightarrow> bytes \<times> bytes \<Rightarrow> bytes" where
  "field_bytes same p = (if same then [] else lp_item (lp_s (fst p))) @ lp_item (lp_s (snd p))"

lemma drop_cons: "drop i xs = y # ys \<Longrightarrow> i < length xs \<and> xs ! i = y \<and> drop (Suc i) xs = ys"
  by (metis Cons_nth_drop_Suc drop_eq_Nil2 list.distinct(1) list.inject not_le)

lemma scans_stream_fields:
  assumes "same \<longrightarrow> drop i names = map fst fs" and "\<forall>(k, v) \<in> set fs. str_ok k \<and> str_ok v"
  shows "scans (\<lambda>buf. iter_comp (length fs) (stream_field buf same names) (i, m))
    (concat (map (field_bytes same) fs)) (i + length fs, foldl assign m fs)"
  using assms
proof (induction fs arbitrary: i m)
  case Nil
  then show ?case by (simp add: scans_ret)
next
  case (Cons p fs)
  obtain k v where p: "p = (k, v)" by fastforce
  have ok: "str_ok k" "str_ok v" using Cons.prems(2) by (simp_all add: p)
  have nm: "same \<Longrightarrow> i < length names \<and> names ! i = k \<and> drop (Suc i) names = map fst fs"
    using Cons.prems(1) drop_cons [of i names k] by (simp add: p)
  have name: "scans (\<lambda>buf. if same then (if i < length names then ret (names ! i) else panic IndexRange)
      else wrap_err ''read stream item field name failed'' (readListPackEntryAsString buf))
      (if same then [] else lp_item (lp_s k)) k"
    using nm scans_w_str [OF ok(1)] by (cases same) (auto simp: scans_ret)
  have "scans (\<lambda>buf. stream_field buf same names (i, m)) (field_bytes same p) (i + 1, assign m p)"
    unfolding stream_field_def field_bytes_def prod.case p fst_conv snd_conv
    by (rule scans_bind [OF name], rule scans_bind_ret [OF scans_w_str [OF ok(2)]]) simp
  moreover have "scans (\<lambda>buf. iter_comp (length fs) (stream_field buf same names) (i + 1, assign m p))
      (concat (map (field_bytes same) fs)) (i + 1 + length fs, foldl assign (assign m p) fs)"
    using nm Cons.prems(2) by (intro Cons.IH) auto
  ultimately show ?case
    by (simp add: scans_bind [where f = "\<lambda>buf. iter_comp (length fs) (stream_field buf same names)"])
qed

lemma stream_message_item_bytes:
  assumes "stream_msg_ok fid master msg"
  defines "same \<equiv> same_fields master (msg_fields msg)"
  shows "concat (map lp_item (stream_message_items fid master msg)) =
    lp_item (lp_i (stream_flag master msg)) @ lp_item (lp_i (sint (Ms (msg_id msg) - Ms fid))) @
    lp_item (lp_i (sint (Sequence (msg_id msg) - Sequence fid))) @
    (if same then [] else lp_item (lp_i (int (length (msg_fields msg))))) @
    concat (map (field_bytes same) (msg_fields msg)) @
    lp_item (lp_s (itoa (int (length (msg_fields msg)))))"
proof -
  let ?fs = "msg_fields msg"
  have d: "distinct (map fst ?fs)" and m: "same \<Longrightarrow> master = map fst ?fs"
    using assms by (simp_all add: stream_msg_ok_def)
  have "same \<Longrightarrow> map (\<lambda>field. lp_s (field_value ?fs field)) master = map (\<lambda>p. lp_s (snd p)) ?fs"
    using d by (auto simp: m field_value_def)
  moreover have "concat (map lp_item (map (\<lambda>p. lp_s (snd p)) ?fs)) = concat (map (field_bytes True) ?fs)"
    by (simp add: field_bytes_def [abs_def] comp_def)
  moreover have "concat (map lp_item (concat (map (\<lambda>(k, v). [lp_s k, lp_s v]) fs))) =
      concat (map (field_bytes False) fs)" for fs
    by (induction fs) (auto simp: field_bytes_def)
  ultimately show ?thesis
    by (auto simp: stream_message_items_def Let_def flag_bits(1) same_def [symmetric])
qed

lemma scans_stream_message:
  assumes "stream_msg_ok fid master msg"
  shows "scans (\<lambda>buf. read_stream_message buf fid master) (concat (map lp_item (stream_message_items fid master msg))) msg"
proof -
  let ?same = "same_fields master (msg_fields msg)" and ?fs = "msg_fields msg"
  have ok: "lp_int_ok (sint (Ms (msg_id msg) - Ms fid))" "lp_int_ok (sint (Sequence (msg_id msg) - Sequence fid))"
      "lp_int_ok (int (length ?fs))" "length ?fs < 2 ^ 31"
      "\<forall>(k, v) \<in> set ?fs. str_ok k \<and> str_ok v" "?same \<longrightarrow> map fst ?fs = master" "distinct (map fst ?fs)"
    using assms by (simp_all add: stream_msg_ok_def)
  have same: "?same \<Longrightarrow> length master = length ?fs" by (simp add: same_fields_def)
  have num: "scans (\<lambda>buf. if stream_flag master msg AND StreamItemFlagSameFields = 0 then
             wrap_err ''read stream item field number failed'' (readListPackEntryAsInt buf)
           else ret (int (length master)))
      (if ?same then [] else lp_item (lp_i (int (length ?fs)))) (int (length ?fs))"
    using same scans_w_int [OF ok(3)] by (auto simp: flag_bits(1) scans_ret)
  have loop: "scans (\<lambda>buf. iter_comp (nat (int (length ?fs)))
        (stream_field buf (stream_flag master msg AND StreamItemFlagSameFields > 0) master) (0, []))
      (concat (map (field_bytes ?same) ?fs)) (length ?fs, ?fs)"
    using scans_stream_fields [of ?same 0 master ?fs "[]"] ok(5,6) foldl_assign_Nil [OF ok(7)]
    by (cases ?same) (simp_all add: flag_bits(1))
  have id: "\<lparr>Ms = of_int (sint (Ms (msg_id msg) - Ms fid)) + Ms fid,
      Sequence = of_int (sint (Sequence (msg_id msg) - Sequence fid)) + Sequence fid\<rparr> = msg_id msg" by simp
  have del_flag: "(stream_flag master msg AND StreamItemFlagDeleted > 0) = msg_deleted msg" by (simp add: flag_bits(2))
  show ?thesis
    unfolding read_stream_message_def stream_message_item_bytes [OF assms] Let_def
    by (rule scans_bind [OF scans_w_int [OF flag_bits(3)]], rule scans_bind [OF scans_w_int [OF ok(1)]],
        rule scans_bind [OF scans_w_int [OF ok(2)]], rule scans_bind [OF num], rule scans_bind [OF loop],
        simp only: prod.case, rule scans_bind_ret [OF scans_w_str [OF itoa_str_ok [OF ok(4)]]])
      (simp add: id del_flag)
qed


lemma scans_make_check:
  assumes "0 \<le> n" and "k * n \<le> max_alloc" and "scans m bs x"
  shows "scans (\<lambda>buf. seq (make_check k n) (m buf)) bs x"
  using assms by (simp add: scans_def make_check_def seq_def)

lemma scans_names:
  assumes "list_all str_ok fs"
  shows "scans (\<lambda>buf. repeat_comp (length fs) (wrap_err msg (readListPackEntryAsString buf)))
    (concat (map lp_item (map lp_s fs))) fs"
proof -
  have "list_all2 (scans (\<lambda>buf. wrap_err msg (readListPackEntryAsString buf))) (map lp_item (map lp_s fs)) fs"
    using assms by (auto simp: list_all2_conv_all_nth list_all_length intro: scans_w_str)
  from scans_repeat [OF this] show ?thesis by simp
qed

lemma scans_messages:
  assumes "list_all (stream_msg_ok fid master) msgs"
  shows "scans (\<lambda>buf. repeat_comp (length msgs) (read_stream_message buf fid master))
    (concat (map (\<lambda>m. concat (map lp_item (stream_message_items fid master m))) msgs)) msgs"
proof -
  have "list_all2 (scans (\<lambda>buf. read_stream_message buf fid master))
      (map (\<lambda>m. concat (map lp_item (stream_message_items fid master m))) msgs) msgs"
    using assms by (auto simp: list_all2_conv_all_nth list_all_length intro: scans_stream_message)
  from scans_repeat [OF this] show ?thesis by simp
qed

lemma scans_stream_entry:
  assumes "stream_entry_ok en"
  shows "scans (\<lambda>buf. readStreamEntryContent buf (firstMsgId en)) (concat (map lp_item (stream_entry_items en))) en"
proof -
  let ?msgs = "entry_msgs en" and ?fs = "entry_fields en" and ?fid = "firstMsgId en"
  let ?del = "int (length (filter msg_deleted ?msgs))"
  have ok: "lp_int_ok (int (length ?msgs) - ?del)" "lp_int_ok ?del" "length ?msgs < 2 ^ 31"
      "lp_int_ok (int (length ?fs))" "length ?fs < 2 ^ 31" "list_all str_ok ?fs"
      "list_all (stream_msg_ok ?fid ?fs) ?msgs"
    using assms by (simp_all add: stream_entry_ok_def Let_def)
  have total: "sint (of_int (int (length ?msgs) - ?del + ?del) :: u64) = int (length ?msgs)"
    using u64_length(2) [of "length ?msgs"] ok(3) by simp
  have msgs: "scans (\<lambda>buf. seq (make_check 8 (int (length ?msgs)))
      (bind (repeat_comp (nat (int (length ?msgs))) (read_stream_message buf ?fid ?fs)) (\<lambda>msgs.
       ret \<lparr>firstMsgId = ?fid, entry_fields = ?fs, entry_msgs = msgs\<rparr>)))
     (concat (map (\<lambda>m. concat (map lp_item (stream_message_items ?fid ?fs m))) ?msgs)) en"
    unfolding nat_int
    by (intro scans_make_check scans_bind_ret [OF scans_messages [OF ok(7)]])
      (use ok(3) in \<open>simp_all add: max_alloc_def\<close>)
  have "scans (\<lambda>buf. readStreamEntryContent buf ?fid)
     (lp_item (lp_i (int (length ?msgs) - ?del)) @ lp_item (lp_i ?del) @ lp_item (lp_i (int (length ?fs))) @
      concat (map lp_item (map lp_s ?fs)) @ lp_item (lp_s (itoa (int (length ?fs)))) @
      concat (map (\<lambda>m. concat (map lp_item (stream_message_items ?fid ?fs m))) ?msgs)) en"
    unfolding readStreamEntryContent_def
    by (rule scans_bind [OF scans_w_int [OF ok(1)]], rule scans_bind [OF scans_w_int [OF ok(2)]],
        rule scans_bind [OF scans_w_int [OF ok(4)]], rule scans_make_check, simp,
        use ok(5) in \<open>simp add: max_alloc_def\<close>, unfold nat_int,
        rule scans_bind [OF scans_names [OF ok(6)]],
        rule scans_bind [OF scans_w_str [OF itoa_str_ok [OF ok(5)]]], unfold Let_def total, rule msgs)
  moreover have "concat (map lp_item (concat (map f xs))) = concat (map (\<lambda>m. concat (map lp_item (f m))) xs)"
    for f :: "stream_message \<Rightarrow> listpack_entry list" and xs
    by (induction xs) simp_all
  ultimately show ?thesis by (simp add: stream_entry_items_def Let_def)
qed

lemma stream_header_id: "stream_header (id_bytes i) 0 = (Ok i, 16)"
  by (simp add: stream_header_def id_bytes_def bind_def readBytes_def ret_def be_word_be_bytes)

definition stream_entry_bytes :: "bool \<Rightarrow> stream_entry \<Rightarrow> bytes" where
  "stream_entry_bytes c en =
     string_bytes c (id_bytes (firstMsgId en)) @ string_bytes c (buildListpackWithBacklen (stream_entry_items en))"

interpretation stream_entry_codec: codec write_stream_entry stream_entry_bytes readStreamEntry stream_entry_ok
proof
  fix en :: stream_entry and c
  assume ok: "stream_entry_ok en"
  let ?buf = "buildListpackWithBacklen (stream_entry_items en)"
  have s: "short_string ?buf" and i: "short_string (id_bytes (firstMsgId en))"
    using ok by (simp_all add: stream_entry_ok_def short_string_def id_bytes_def)
  show "emits c (write_stream_entry en) (stream_entry_bytes c en) ()"
    unfolding write_stream_entry_def writeStreamEntryContent_def stream_entry_bytes_def
    by (intro emits_intros s i)
  define h where "h = le_bytes 4 (of_nat (length (concat (map lp_item (stream_entry_items en))) + 6) :: u32) @
      le_bytes 2 (of_nat (length (stream_entry_items en)) :: u16)"
  have h: "?buf = h @ concat (map lp_item (stream_entry_items en))" "length h = 6"
    by (simp_all add: buildListpack_eq h_def)
  have "readStreamEntryContent ?buf (firstMsgId en) 6 =
      (Ok en, 6 + length (concat (map lp_item (stream_entry_items en))))"
    using scans_at [OF scans_stream_entry [OF ok], of ?buf h "[]" 6] h by simp
  moreover have "ignore_err [] (readBytes ?buf 6) 0 = (Ok h, 6)"
    using h by (simp add: ignore_err_def readBytes_def)
  ultimately have content: "seq (ignore_err [] (readBytes ?buf 6)) (readStreamEntryContent ?buf (firstMsgId en)) 0 =
      (Ok en, 6 + length (concat (map lp_item (stream_entry_items en))))"
    by (simp add: seq_Ok)
  have hd: "parses (in_buffer (stream_header (id_bytes (firstMsgId en)))) [] (firstMsgId en)"
    by (simp add: in_buffer_def stream_header_id parses_of_result)
  have rest: "parses (bind readString (\<lambda>buf.
      in_buffer (seq (ignore_err [] (readBytes buf 6)) (readStreamEntryContent buf (firstMsgId en))))) (string_bytes c ?buf) en"
    by (rule parses_in_buffer [where m = "\<lambda>buf. seq (ignore_err [] (readBytes buf 6))
        (readStreamEntryContent buf (firstMsgId en))", OF parses_string [OF s] content])
  show "parses readStreamEntry (stream_entry_bytes c en) en"
    unfolding readStreamEntry_def stream_entry_bytes_def
    by (rule parses_bind [OF parses_string [OF i]], rule parses_bind_eq [OF hd], rule rest) simp
qed


section \<open>The whole object\<close>

text \<open>
  \<open>stream_ok\<close>: a stream in the form in which the reader of its version returns it. Fields that a version
  does not store have their default; entries and groups are such that their parts survive.
\<close>

definition stream_ok :: "stream \<Rightarrow> bool" where
  "stream_ok s \<longleftrightarrow> 1 \<le> stream_version s \<and> stream_version s \<le> 3 \<and>
     list_all stream_entry_ok (stream_entries s) \<and> length (stream_entries s) < 2 ^ 32 \<and>
     list_all (group_ok (stream_version s)) (stream_groups s) \<and> length (stream_groups s) < 2 ^ 32 \<and>
     (if 2 \<le> stream_version s then firstId s \<noteq> None \<and> maxDeletedId s \<noteq> None
      else firstId s = None \<and> maxDeletedId s = None \<and> addedEntriesCount s = 0)"

definition sid_bytes :: "stream_id \<Rightarrow> bytes" where
  "sid_bytes i = length_bytes (Ms i) @ length_bytes (Sequence i)"

definition stream_bytes :: "bool \<Rightarrow> stream \<Rightarrow> bytes" where
  "stream_bytes c s =
     (length_bytes (of_nat (length (stream_entries s))) @ concat (map (stream_entry_bytes c) (stream_entries s))) @
     length_bytes (stream_length s) @ sid_bytes (lastId s) @
     (if 2 \<le> stream_version s then sid_bytes (or_zero_id (firstId s)) @ sid_bytes (or_zero_id (maxDeletedId s)) @
        length_bytes (addedEntriesCount s) else []) @
     (length_bytes (of_nat (length (stream_groups s))) @
      concat (map (group_bytes (stream_version s) c) (stream_groups s)))"

lemma stream_record_eta:
  "\<lparr>stream_version = stream_version s, stream_entries = stream_entries s, stream_groups = stream_groups s,
     stream_length = stream_length s, lastId = lastId s, firstId = firstId s, maxDeletedId = maxDeletedId s,
     addedEntriesCount = addedEntriesCount s\<rparr> = (s :: stream)"
  by simp

interpretation stream_codec: codec stream_content stream_bytes "readStreamListPacks v"
  "\<lambda>s. stream_ok s \<and> stream_version s = v"
proof
  fix s :: stream and c
  assume "stream_ok s \<and> stream_version s = v"
  then have st: "stream_ok s" and v: "v = stream_version s" by simp_all
  have es: "list_all stream_entry_ok (stream_entries s)" "length (stream_entries s) < 2 ^ 32"
    and gs: "list_all (group_ok (stream_version s)) (stream_groups s)" "length (stream_groups s) < 2 ^ 32"
    and ids: "if 2 \<le> stream_version s then firstId s \<noteq> None \<and> maxDeletedId s \<noteq> None
      else firstId s = None \<and> maxDeletedId s = None \<and> addedEntriesCount s = 0"
    using st by (simp_all add: stream_ok_def)
  show "emits c (stream_content s) (stream_bytes c s) ()"
    unfolding stream_content_def stream_bytes_def writeStreamEntries_def writeStreamGroups_def sid_bytes_def
    by (intro emits_seq emits_when emits_writeLength stream_id_codec.emits_wr
        stream_entry_codec.emits_list group_codec.emits_list es gs TrueI)
  have entries: "parses readStreamEntries
      (length_bytes (of_nat (length (stream_entries s))) @ concat (map (stream_entry_bytes c) (stream_entries s)))
      (stream_entries s)"
    unfolding readStreamEntries_def
    by (rule parses_bind [OF parses_readLen]) (simp add: u64_length(3) [OF es(2)] stream_entry_codec.parses_list [OF es(1)])
  have groups: "parses (readStreamGroups v)
      (length_bytes (of_nat (length (stream_groups s))) @ concat (map (group_bytes v c) (stream_groups s))) (stream_groups s)"
    unfolding readStreamGroups_def v
  proof (rule parses_bind [OF parses_readLen])
    note n = u64_length [OF gs(2)]
    show "parses (seq (make_check 8 (sint (of_nat (length (stream_groups s)) :: u64)))
      (repeat_comp (unat (of_nat (length (stream_groups s)) :: u64)) (read_stream_group (stream_version s))))
      (concat (map (group_bytes (stream_version s) c) (stream_groups s))) (stream_groups s)"
      unfolding n by (rule parses_make_check [OF _ _ group_codec.parses_list [OF gs(1)]])
        (use gs(2) in \<open>simp_all add: max_alloc_def\<close>)
  qed
  have sid: "parses readStreamId (sid_bytes i) i" for i
    unfolding sid_bytes_def by (rule stream_id_codec.parses_rd) simp
  have opt: "parses (if 2 \<le> v then bind readStreamId (\<lambda>fid. bind readStreamId (\<lambda>mid. bind readLen (\<lambda>addedCount.
             ret (Some fid, Some mid, addedCount)))) else ret (None, None, 0))
      (if 2 \<le> v then sid_bytes (or_zero_id (firstId s)) @ sid_bytes (or_zero_id (maxDeletedId s)) @
        length_bytes (addedEntriesCount s) else []) (firstId s, maxDeletedId s, addedEntriesCount s)"
  proof (rule parses_when)
    assume "2 \<le> v"
    then have r: "(Some (or_zero_id (firstId s)), Some (or_zero_id (maxDeletedId s)), addedEntriesCount s) =
        (firstId s, maxDeletedId s, addedEntriesCount s)" using ids v by (auto simp: or_zero_id_def)
    show "parses (bind readStreamId (\<lambda>fid. bind readStreamId (\<lambda>mid. bind readLen (\<lambda>addedCount.
          ret (Some fid, Some mid, addedCount)))))
        (sid_bytes (or_zero_id (firstId s)) @ sid_bytes (or_zero_id (maxDeletedId s)) @
          length_bytes (addedEntriesCount s)) (firstId s, maxDeletedId s, addedEntriesCount s)"
      by (intro parses_bind [OF sid] parses_bind_ret [OF parses_readLen]) (simp only: r)
  qed (use ids v in simp)
  show "parses (readStreamListPacks v) (stream_bytes c s) s"
    unfolding readStreamListPacks_def stream_bytes_def v [symmetric]
    by (rule parses_bind [OF entries], rule parses_bind [OF parses_readLen], rule parses_bind [OF sid],
        rule parses_bind [OF opt], simp only: prod.case, rule parses_bind_ret [OF groups])
      (simp only: v stream_record_eta)
qed

lemma stream_body_emits:
  assumes "short_string key" and "stream_ok s"
  shows "emits c (stream_body key s) (stream_type (stream_version s) # string_bytes c key @ stream_bytes c s) ()"
proof -
  have "emits c (stream_body key s) ([stream_type (stream_version s)] @ string_bytes c key @ stream_bytes c s) ()"
    unfolding stream_body_def
    by (intro emits_seq emits_enc_write emits_writeString stream_codec.emits_wr [of _ "stream_version s"] conjI refl assms)
  then show ?thesis by simp
qed

text \<open>
  C7. Stream round trip: a stream of version 1, 2 or 3 written by \<open>WriteStreamObject\<close> over a reliable writer is,
  behind the type byte of its version and the key, the encoding from which \<open>readStreamListPacks\<close> returns the
  same stream: entries with their messages, deletion marks and shared field names, groups, pending lists
  and consumers. (The streams that do not survive have an empty field value or an integer that the
  listpack encoder loses, for instance a sequence number just below that of the first message.)
\<close>

theorem stream_roundtrip:
  assumes "reliable e" and "object_state (state e) t" and "short_string key" and "stream_ok s"
  shows "\<exists>e' content. WriteStreamObject key s (ttl_options t) e = (Ok (), e') \<and>
    out e' = out e @ ttl_bytes t @ stream_type (stream_version s) # string_bytes (compress e) key @ content \<and>
    parses (readStreamListPacks (stream_version s)) content s"
proof -
  have w: "emits_in (cfg e) (stream_body key s)
      (stream_type (stream_version s) # string_bytes (compress e) key @ stream_bytes (compress e) s) ()"
    using stream_body_emits [OF assms(3,4)] by (intro emits_in_emits) (simp add: cfg_def)
  have "parses (readStreamListPacks (stream_version s)) (stream_bytes (compress e) s) s"
    by (rule stream_codec.parses_rd) (simp add: assms(4))
  with write_object_reliable [OF assms(1,2) w] show ?thesis
    unfolding WriteStreamObject_def by (intro exI conjI) auto
qed

definition sample_entry :: stream_entry where
  "sample_entry = \<lparr>firstMsgId = \<lparr>Ms = 1700000000000, Sequence = 0\<rparr>, entry_fields = [[97], [98]],
       entry_msgs = [\<lparr>msg_id = \<lparr>Ms = 1700000000000, Sequence = 0\<rparr>, msg_fields = [([97], [49]), ([98], [50])],
           msg_deleted = False\<rparr>,
         \<lparr>msg_id = \<lparr>Ms = 1700000000005, Sequence = 0\<rparr>, msg_fields = [([99], [51])], msg_deleted = True\<rparr>]\<rparr>"

definition sample_stream :: stream where
  "sample_stream = \<lparr>stream_version = 2, stream_entries = [sample_entry],
     stream_groups = [\<lparr>group_name = [103], group_lastId = zero_id, group_pending = [], group_consumers = [],
       entriesRead = 1\<rparr>],
     stream_length = 1, lastId = \<lparr>Ms = 1700000000005, Sequence = 0\<rparr>, firstId = Some zero_id,
     maxDeletedId = Some zero_id, addedEntriesCount = 2\<rparr>"

lemma length_lp_item: "length (lp_item en) \<le> 14 + length (strVal en)"
proof -
  have "length (encodeBacklen k) \<le> 5" for k by (simp add: encodeBacklen_def)
  moreover have "length (lp_encode en) \<le> 9 + length (strVal en)"
    by (simp add: lp_encode_def encodeListPackInt_def encodeListPackString_def Let_def)
  ultimately show ?thesis using add_mono by (fastforce simp: lp_item_def)
qed

lemma short_listpack:
  assumes "6 + (\<Sum>en\<leftarrow>ens. 14 + length (strVal en)) < 2 ^ 32"
  shows "short_string (buildListpackWithBacklen ens)"
proof -
  have "length (buildListpackWithBacklen ens) \<le> 6 + (\<Sum>en\<leftarrow>ens. 14 + length (strVal en))"
    using length_lp_item by (simp add: buildListpack_eq length_concat comp_def sum_list_mono)
  with assms show ?thesis unfolding short_string_def by (rule le_less_trans [rotated])
qed

lemma sample_items:
  "map (\<lambda>en. length (strVal en)) (stream_entry_items sample_entry) = [0, 0, 0, 1, 1, 1, 0, 0, 0, 1, 1, 1, 0, 0, 0, 0, 1, 1, 1]"
  by code_simp

lemma sample_entry_ok: "stream_entry_ok sample_entry"
proof -
  have "map (\<lambda>en. 14 + length (strVal en)) (stream_entry_items sample_entry) =
      map ((+) 14) (map (\<lambda>en. length (strVal en)) (stream_entry_items sample_entry))" by simp
  then have "short_string (buildListpackWithBacklen (stream_entry_items sample_entry))"
    by (intro short_listpack) (simp only: sample_items, simp)
  moreover have small: "lp_int_ok i" if "0 \<le> i" "i < 4096" for i
    using that by (simp add: lp_int_ok_def)
  ultimately show ?thesis
    by (simp add: sample_entry_def stream_entry_ok_def stream_msg_ok_def str_ok_def same_fields_def Let_def)
qed

lemma sample_stream_ok: "stream_ok sample_stream"
  by (simp add: stream_ok_def sample_stream_def sample_entry_ok group_ok_def short_string_def)

theorem stream_roundtrip_witness:
  "\<exists>e' content. WriteStreamObject [107] sample_stream (ttl_options None) (sample_encoder True) = (Ok (), e') \<and>
    out e' = out (sample_encoder True) @ ttl_bytes None @ stream_type (stream_version sample_stream) #
      string_bytes (compress (sample_encoder True)) [107] @ content \<and>
    parses (readStreamListPacks (stream_version sample_stream)) content sample_stream"
  by (rule stream_roundtrip [OF sample_encoder_ok _ sample_stream_ok]) (simp add: short_string_def)

end
