(* ===== verification/EncoderRun.thy ===== *)
theory EncoderRun
  imports StreamObj
begin

text \<open>
  Runs of the encoder: any sequence of calls of its exported methods, over any writer, failing or not. The
  step relation has one case per call; the state machine of \<open>core/encoder.go\<close> is shown to let exactly
  the calls through that make a well-formed file, and the checksum to be that of the bytes written.
\<close>

section \<open>Calls\<close>

datatype object_value =
    VString bytes
  | VList "bytes list"
  | VSet "bytes list"
  | VHash "bytes gomap"
  | VHashEx "bytes gomap" "int gomap"
  | VZSet "zset_entry list"
  | VStream stream

datatype api_call =
    CHeader
  | CAux bytes bytes
  | CDB u64 u64 u64
  | CObject bytes object_value "write_option list"
  | CEnd

fun write_value :: "(f64 \<Rightarrow> bytes) \<Rightarrow> bytes \<Rightarrow> object_value \<Rightarrow> write_option list \<Rightarrow> unit enc" where
  "write_value ff key (VString v) = WriteStringObject key v"
| "write_value ff key (VList vs) = WriteListObject key vs"
| "write_value ff key (VSet vs) = WriteSetObject key vs"
| "write_value ff key (VHash h) = WriteHashMapObject key h"
| "write_value ff key (VHashEx h ex) = WriteHashMapObjectEx key h ex"
| "write_value ff key (VZSet es) = WriteZSetObject ff key es"
| "write_value ff key (VStream s) = WriteStreamObject key s"

fun api :: "(f64 \<Rightarrow> bytes) \<Rightarrow> api_call \<Rightarrow> unit enc" where
  "api ff CHeader = WriteHeader"
| "api ff (CAux k v) = WriteAux k v"
| "api ff (CDB i n m) = WriteDBHeader i n m"
| "api ff (CObject key v options) = write_value ff key v options"
| "api ff CEnd = WriteEnd"

interpretation value_writer: object_writer "write_value ff key v"
proof
  fix options e r e'
  show "write_value ff key v options e = (r, e') \<Longrightarrow> object_call e r e'"
    by (cases v) (auto intro: string_writer.object_call list_writer.object_call set_writer.object_call
        hash_writer.object_call hash_ex_writer.object_call zset_writer.object_call stream_writer.object_call)
qed

section \<open>Steps and runs\<close>

text \<open>
  A call that returns no error, and a call that returns one (or panics); a run records which calls
  succeeded, the last one last.
\<close>

inductive enc_step :: "(f64 \<Rightarrow> bytes) \<Rightarrow> encoder \<Rightarrow> api_call \<Rightarrow> bool \<Rightarrow> encoder \<Rightarrow> bool" for ff where
  succeeds: "api ff c e = (Ok (), e') \<Longrightarrow> enc_step ff e c True e'"
| fails: "api ff c e = (r, e') \<Longrightarrow> r \<noteq> Ok () \<Longrightarrow> enc_step ff e c False e'"

inductive_cases enc_step_True [elim]: "enc_step ff e c True e'"
inductive_cases enc_step_False [elim]: "enc_step ff e c False e'"
inductive_simps enc_step_ok: "enc_step ff e c ok e'"

inductive enc_run :: "(f64 \<Rightarrow> bytes) \<Rightarrow> encoder \<Rightarrow> api_call list \<Rightarrow> encoder \<Rightarrow> bool" for ff e0 where
  start: "enc_run ff e0 [] e0"
| step_ok: "enc_run ff e0 cs e \<Longrightarrow> enc_step ff e c True e' \<Longrightarrow> enc_run ff e0 (cs @ [c]) e'"
| step_failed: "enc_run ff e0 cs e \<Longrightarrow> enc_step ff e c False e' \<Longrightarrow> enc_run ff e0 cs e'"

section \<open>What a call does to the state\<close>

named_theorems state_intros \<open>computations that keep the state, or end in a given one\<close>

definition keeps_state :: "'a enc \<Rightarrow> bool" where
  "keeps_state m \<longleftrightarrow> (\<forall>e r e'. m e = (r, e') \<longrightarrow> state e' = state e)"

definition ends_in :: "enc_state \<Rightarrow> unit enc \<Rightarrow> bool" where
  "ends_in t m \<longleftrightarrow> (\<forall>e r e'. m e = (r, e') \<longrightarrow> state e' = (if r = Ok () then t else state e))"

lemma keeps_stateD: "keeps_state m \<Longrightarrow> m e = (r, e') \<Longrightarrow> state e' = state e"
  unfolding keeps_state_def by blast

lemma keeps_state_writer: "writer_only m \<Longrightarrow> keeps_state m"
  by (auto simp: keeps_state_def dest: writer_onlyD only_wroteD)

lemma keeps_state_basic [state_intros]: "keeps_state (check_state t msg)" "keeps_state (gets f)"
  by (auto simp: keeps_state_def check_state_cases gets_def split: if_splits)

lemma keeps_state_writers [state_intros]:
  "keeps_state (enc_write p)" "keeps_state (writeString s)" "keeps_state (writeLength v)"
  by (rule keeps_state_writer, intro writer_intros)+

lemma keeps_state_raw_write [state_intros]: "keeps_state (wrap_err msg (raw_write p))"
  by (auto simp: keeps_state_def wrap_err_def raw_write_def split: option.splits)

lemma keeps_state_existDB [state_intros]: "keeps_state (modify (\<lambda>e. e\<lparr>existDB := f e\<rparr>))"
  by (auto simp: keeps_state_def modify_def)

lemma ends_in_set_state [state_intros]: "ends_in t (set_state t)"
  by (auto simp: ends_in_def set_state_def modify_def)

lemma ends_in_throw [state_intros]: "ends_in t (throw x)"
  by (auto simp: ends_in_def throw_def)

lemma ends_in_bind [state_intros]:
  assumes "keeps_state m" and "\<And>a. ends_in t (f a)"
  shows "ends_in t (bind m f)"
  unfolding ends_in_def
proof (intro allI impI)
  fix e r e2 assume run: "bind m f e = (r, e2)"
  obtain r1 e1 where m1: "m e = (r1, e1)" by fastforce
  have s1: "state e1 = state e" by (rule keeps_stateD [OF assms(1) m1])
  show "state e2 = (if r = Ok () then t else state e)"
  proof (cases r1)
    case (Ok a)
    with run m1 have "f a e1 = (r, e2)" by (simp add: bind_Ok)
    with assms(2) s1 show ?thesis by (auto simp: ends_in_def)
  qed (use run m1 s1 in \<open>auto simp: bind_def\<close>)
qed

lemma ends_in_seq [state_intros]: "keeps_state m \<Longrightarrow> ends_in t n \<Longrightarrow> ends_in t (seq m n)"
  unfolding seq_def by (rule ends_in_bind)

lemma ends_in_if [state_intros]: "ends_in t m \<Longrightarrow> ends_in t n \<Longrightarrow> ends_in t (if b then m else n)"
  by simp

lemma ends_in_calls:
  "ends_in writtenHeaderState WriteHeader" "ends_in writtenAuxState (WriteAux k v)"
  "ends_in writtenDBHeaderState (WriteDBHeader i n m)" "ends_in writtenEndState WriteEnd"
  unfolding WriteHeader_def WriteAux_def WriteDBHeader_def WriteEnd_def by (intro state_intros)+

lemma checked_ok: "seq (check_state t msg) m e = (Ok x, e') \<Longrightarrow> validateStateChange t e"
  by (auto simp: seq_def bind_def check_state_cases split: if_splits)

lemma calls_valid:
  "WriteHeader e = (Ok x, e') \<Longrightarrow> validateStateChange writtenHeaderState e"
  "WriteAux k v e = (Ok x, e') \<Longrightarrow> validateStateChange writtenAuxState e"
  "WriteDBHeader i n m e = (Ok x, e') \<Longrightarrow> validateStateChange writtenDBHeaderState e"
  "WriteEnd e = (Ok x, e') \<Longrightarrow> validateStateChange writtenEndState e"
  unfolding WriteHeader_def WriteAux_def WriteDBHeader_def WriteEnd_def by (erule checked_ok)+

text \<open>The state that a successful call ends in.\<close>

fun call_state :: "api_call \<Rightarrow> enc_state" where
  "call_state CHeader = writtenHeaderState"
| "call_state (CAux _ _) = writtenAuxState"
| "call_state (CDB _ _ _) = writtenDBHeaderState"
| "call_state (CObject _ _ _) = writtenObjectState"
| "call_state CEnd = writtenEndState"

lemma api_ok:
  assumes "api ff c e = (Ok (), e')"
  shows "call_state c \<in> set (stateChanges (state e))" and "state e' = call_state c"
proof -
  have "validateStateChange (call_state c) e \<and> state e' = call_state c"
  proof (cases c)
    case (CObject key v options)
    with assms have "write_value ff key v options e = (Ok (), e')" by simp
    from value_writer.object_call [OF this] CObject show ?thesis by (auto simp: object_call_def split: if_splits)
  qed (use assms calls_valid ends_in_calls in \<open>fastforce simp: ends_in_def\<close>)+
  then show "call_state c \<in> set (stateChanges (state e))" "state e' = call_state c"
    by (simp_all add: validateStateChange_def)
qed

lemma api_failed:
  assumes "api ff c e = (r, e')" and "r \<noteq> Ok ()"
  shows "state e' = state e \<or>
    state e' = writtenTTLState \<and> state e \<in> {writtenDBHeaderState, writtenTTLState, writtenObjectState}"
proof (cases c)
  case (CObject key v options)
  with assms have "write_value ff key v options e = (r, e')" by simp
  from value_writer.object_call [OF this] assms(2) show ?thesis
    by (cases "state e") (auto simp: object_call_def validateStateChange_def stateChanges_def split: if_splits)
qed (use assms ends_in_calls in \<open>fastforce simp: ends_in_def\<close>)+


section \<open>Calls over a reliable writer\<close>

lemma WriteHeader_framed: "WriteHeader = seq (check_state writtenHeaderState ''cannot writing header at state: '') (
    seq (bind (gets enc_valkey) (\<lambda>vk. enc_write (if vk then rdbHeaderValkey else rdbHeaderRedis)))
      (set_state writtenHeaderState))"
  by (simp add: WriteHeader_def seq_def bind_assoc)

lemma WriteAux_framed: "WriteAux k v = seq (check_state writtenAuxState ''cannot writing aux at state: '') (
    seq (seq (enc_write [opCodeAux]) (seq (writeString k) (writeString v))) (set_state writtenAuxState))"
  by (simp add: WriteAux_def seq_def bind_assoc)

text \<open>The part of \<open>WriteDBHeader\<close> behind the two checks.\<close>

definition db_header :: "u64 \<Rightarrow> u64 \<Rightarrow> u64 \<Rightarrow> unit enc" where
  "db_header i n m =
     seq (enc_write [opCodeSelectDB]) (
     seq (writeLength i) (
     seq (enc_write [opCodeResizeDB]) (
     seq (writeLength n) (
     writeLength m))))"

lemma WriteDBHeader_cases:
  "WriteDBHeader i n m e =
    (if \<not> validateStateChange writtenDBHeaderState e then
       (Err (ErrMsg ''cannot writing db header at state: ''), e)
     else if i \<in> set (existDB e) then (Err (ErrMsg ''db existed''), e)
     else seq (db_header i n m) (set_state writtenDBHeaderState) (e\<lparr>existDB := i # existDB e\<rparr>))"
proof -
  have "WriteDBHeader i n m = seq (check_state writtenDBHeaderState ''cannot writing db header at state: '') (
     bind (gets existDB) (\<lambda>dbs. if i \<in> set dbs then throw (ErrMsg ''db existed'')
     else seq (modify (\<lambda>e. e\<lparr>existDB := i # existDB e\<rparr>)) (seq (db_header i n m) (set_state writtenDBHeaderState))))"
  proof -
    have "seq (db_header i n m) (set_state writtenDBHeaderState) =
        seq (enc_write [opCodeSelectDB]) (seq (writeLength i) (seq (enc_write [opCodeResizeDB])
        (seq (writeLength n) (seq (writeLength m) (set_state writtenDBHeaderState)))))"
      by (simp add: db_header_def seq_def bind_assoc)
    then show ?thesis by (simp only: WriteDBHeader_def)
  qed
  then show ?thesis
    by (simp add: seq_def bind_def check_state_cases gets_def throw_def modify_def)
qed

lemma reliable_update [simp]:
  "reliable (e\<lparr>state := s\<rparr>) = reliable e" "reliable (e\<lparr>existDB := x\<rparr>) = reliable e"
  by (simp_all add: reliable_def)

lemma framed_reliable:
  assumes "emits (compress e) m bs ()" and "reliable e" and "validateStateChange t e"
  shows "seq (check_state t msg) (seq m (set_state t)) e = (Ok (), (put bs e)\<lparr>state := t\<rparr>)"
  using emitsD [OF assms(1,2) refl] assms(3)
  by (simp add: seq_def bind_def check_state_cases set_state_def modify_def)

definition header_bytes :: "bool \<Rightarrow> bytes" where
  "header_bytes vk = (if vk then rdbHeaderValkey else rdbHeaderRedis)"

lemma WriteHeader_reliable:
  assumes "reliable e" and "state e = startState"
  shows "WriteHeader e = (Ok (), (put (header_bytes (enc_valkey e)) e)\<lparr>state := writtenHeaderState\<rparr>)"
proof -
  have "WriteHeader e = seq (check_state writtenHeaderState ''cannot writing header at state: '')
      (seq (enc_write (header_bytes (enc_valkey e))) (set_state writtenHeaderState)) e"
    using assms(2) by (simp add: WriteHeader_def seq_def bind_def check_state_cases gets_def header_bytes_def)
  also have "\<dots> = (Ok (), (put (header_bytes (enc_valkey e)) e)\<lparr>state := writtenHeaderState\<rparr>)"
    by (rule framed_reliable [OF emits_enc_write assms(1)]) (simp add: validateStateChange_def stateChanges_def assms(2))
  finally show ?thesis .
qed

definition aux_bytes :: "bool \<Rightarrow> bytes \<Rightarrow> bytes \<Rightarrow> bytes" where
  "aux_bytes c k v = [opCodeAux] @ string_bytes c k @ string_bytes c v"

lemma WriteAux_reliable:
  assumes "reliable e" and "state e = writtenHeaderState \<or> state e = writtenAuxState"
    and "short_string k" and "short_string v"
  shows "WriteAux k v e = (Ok (), (put (aux_bytes (compress e) k v) e)\<lparr>state := writtenAuxState\<rparr>)"
proof -
  have "emits (compress e) (seq (enc_write [opCodeAux]) (seq (writeString k) (writeString v)))
      (aux_bytes (compress e) k v) ()"
    unfolding aux_bytes_def by (intro emits_intros assms)
  from framed_reliable [OF this assms(1)] show ?thesis
    unfolding WriteAux_framed using assms(2) by (auto simp: validateStateChange_def stateChanges_def)
qed

definition db_bytes :: "u64 \<Rightarrow> u64 \<Rightarrow> u64 \<Rightarrow> bytes" where
  "db_bytes i n m = [opCodeSelectDB] @ length_bytes i @ [opCodeResizeDB] @ length_bytes n @ length_bytes m"

definition closable :: "enc_state \<Rightarrow> bool" where
  "closable s \<longleftrightarrow> s = writtenHeaderState \<or> s = writtenAuxState \<or> s = writtenObjectState"

lemma WriteDBHeader_reliable:
  assumes "reliable e" and "closable (state e)" and "i \<notin> set (existDB e)"
  shows "WriteDBHeader i n m e =
    (Ok (), (put (db_bytes i n m) e)\<lparr>existDB := i # existDB e, state := writtenDBHeaderState\<rparr>)"
proof -
  let ?e = "e\<lparr>existDB := i # existDB e\<rparr>"
  have "emits (compress e) (db_header i n m) (db_bytes i n m) ()"
    unfolding db_header_def db_bytes_def by (intro emits_intros)
  from emitsD [OF this, of ?e] have "db_header i n m ?e = (Ok (), put (db_bytes i n m) ?e)"
    using assms(1) by (simp add: reliable_def)
  then show ?thesis
    using assms(2,3) by (auto simp: WriteDBHeader_cases validateStateChange_def stateChanges_def closable_def
        seq_def bind_def set_state_def modify_def put_def)
qed

lemma WriteEnd_reliable_ok:
  assumes "reliable e" and "closable (state e)"
  shows "\<exists>e'. WriteEnd e = (Ok (), e') \<and>
    out e' = out e @ [opCodeEOF] @ digest_sum (digest_write (crc e) [opCodeEOF])"
  using assms
  by (auto simp: WriteEnd_def enc_write_def raw_write_def monad_defs check_state_cases set_state_def reliable_def
      validateStateChange_def stateChanges_def closable_def)

text \<open>A small run, for the witnesses: a file with one database and one string.\<close>

definition sample_calls :: "api_call list" where
  "sample_calls = [CHeader, CDB 0 1 0, CObject [107] (VString [118]) [], CEnd]"

definition sample_end :: encoder where
  "sample_end = snd (WriteEnd (snd (WriteStringObject [107] [118] [] (snd (WriteDBHeader 0 1 0
     (snd (WriteHeader (NewEncoder (\<lambda>_ _. None)))))))))"

lemma sample_start: "reliable (NewEncoder (\<lambda>_ _. None))" "state (NewEncoder w) = startState"
  "existDB (NewEncoder w) = []" "out (NewEncoder w) = []" "crc (NewEncoder w) = 0"
  by (simp_all add: NewEncoder_def reliable_def)

lemma sample_run: "enc_run (\<lambda>_. []) (NewEncoder (\<lambda>_ _. None)) sample_calls sample_end"
proof -
  let ?e0 = "NewEncoder (\<lambda>_ _. None)"
  obtain e1 where 1: "WriteHeader ?e0 = (Ok (), e1)" "reliable e1" "state e1 = writtenHeaderState" "existDB e1 = []"
    using WriteHeader_reliable [OF sample_start(1,2)] by (simp add: sample_start)
  obtain e2 where 2: "WriteDBHeader 0 1 0 e1 = (Ok (), e2)" "reliable e2" "state e2 = writtenDBHeaderState"
    using WriteDBHeader_reliable [OF 1(2), of 0 1 0] 1 by (simp add: closable_def)
  have "emits (compress e2) (seq (enc_write [typeString]) (seq (writeString [107]) (writeString [118])))
      ([typeString] @ string_bytes (compress e2) [107] @ string_bytes (compress e2) [118]) ()"
    by (intro emits_intros) (simp_all add: short_string_def)
  then have "emits_in (cfg e2) (seq (enc_write [typeString]) (seq (writeString [107]) (writeString [118])))
      ([typeString] @ string_bytes (compress e2) [107] @ string_bytes (compress e2) [118]) ()"
    by (intro emits_in_emits) (simp add: cfg_def)
  from write_object_reliable [OF 2(2) _ this, of None] 2(2,3)
  obtain e3 where 3: "WriteStringObject [107] [118] [] e2 = (Ok (), e3)" "reliable e3" "state e3 = writtenObjectState"
    by (simp add: object_state_def ttl_options_def WriteStringObject_def)
  obtain e4 where 4: "WriteEnd e3 = (Ok (), e4)"
    using WriteEnd_reliable_ok [OF 3(2)] 3(3) by (auto simp: closable_def)
  have api: "api (\<lambda>_. []) CHeader ?e0 = (Ok (), e1)" "api (\<lambda>_. []) (CDB 0 1 0) e1 = (Ok (), e2)"
    "api (\<lambda>_. []) (CObject [107] (VString [118]) []) e2 = (Ok (), e3)" "api (\<lambda>_. []) CEnd e3 = (Ok (), e4)"
    by (simp_all add: 1 2 3 4)
  note ok = enc_run.step_ok [OF _ enc_step.succeeds]
  have "enc_run (\<lambda>_. []) ?e0 sample_calls e4"
    using ok [OF ok [OF ok [OF ok [OF enc_run.start api(1)] api(2)] api(3)] api(4)] by (simp add: sample_calls_def)
  moreover have "sample_end = e4" by (simp add: sample_end_def 1 2 3 4)
  ultimately show ?thesis by simp
qed

section \<open>The grammar of a file\<close>

datatype kind = KHeader | KAux | KDB | KObject | KEnd

fun kind_of :: "api_call \<Rightarrow> kind" where
  "kind_of CHeader = KHeader"
| "kind_of (CAux _ _) = KAux"
| "kind_of (CDB _ _ _) = KDB"
| "kind_of (CObject _ _ _) = KObject"
| "kind_of CEnd = KEnd"

text \<open>A header, aux fields, and databases of at least one object each.\<close>

definition db_block :: "nat \<Rightarrow> kind list" where
  "db_block n = KDB # replicate (Suc n) KObject"

definition file_kinds :: "nat \<Rightarrow> nat list \<Rightarrow> kind list" where
  "file_kinds a ns = KHeader # replicate a KAux @ concat (map db_block ns)"

lemma file_kinds_aux: "file_kinds (Suc a) [] = file_kinds a [] @ [KAux]"
  by (simp add: file_kinds_def replicate_append_same)

lemma file_kinds_first: "file_kinds a (ns @ [0]) = file_kinds a ns @ [KDB, KObject]"
  by (simp add: file_kinds_def db_block_def)

lemma file_kinds_more: "file_kinds a (ns @ [Suc n]) = file_kinds a (ns @ [n]) @ [KObject]"
  by (simp add: file_kinds_def db_block_def replicate_append_same)

definition open_db :: "kind list \<Rightarrow> bool" where
  "open_db ks \<longleftrightarrow> (\<exists>a ns. ks = file_kinds a ns @ [KDB])"

definition full_db :: "kind list \<Rightarrow> bool" where
  "full_db ks \<longleftrightarrow> (\<exists>a ns n. ks = file_kinds a (ns @ [n]))"

definition only_aux :: "kind list \<Rightarrow> bool" where
  "only_aux ks \<longleftrightarrow> (\<exists>a. ks = file_kinds a [])"

fun shape :: "enc_state \<Rightarrow> kind list \<Rightarrow> bool" where
  "shape startState ks = (ks = [])"
| "shape writtenHeaderState ks = only_aux ks"
| "shape writtenAuxState ks = only_aux ks"
| "shape writtenDBHeaderState ks = open_db ks"
| "shape writtenObjectState ks = full_db ks"
| "shape writtenTTLState ks = (open_db ks \<or> full_db ks)"
| "shape writtenEndState ks = (\<exists>ks'. ks = ks' @ [KEnd] \<and> (only_aux ks' \<or> full_db ks'))"

lemma shape_moves:
  "only_aux [KHeader]" "only_aux ks \<Longrightarrow> only_aux (ks @ [KAux])"
  "only_aux ks \<or> full_db ks \<Longrightarrow> open_db (ks @ [KDB])"
  "open_db ks \<or> full_db ks \<Longrightarrow> full_db (ks @ [KObject])"
proof -
  show "only_aux [KHeader]" unfolding only_aux_def by (rule exI [of _ 0]) (simp add: file_kinds_def)
  show "only_aux ks \<Longrightarrow> only_aux (ks @ [KAux])" unfolding only_aux_def by (metis file_kinds_aux)
  show "only_aux ks \<or> full_db ks \<Longrightarrow> open_db (ks @ [KDB])"
    unfolding only_aux_def full_db_def open_db_def by auto
  have "open_db ks \<Longrightarrow> full_db (ks @ [KObject])"
    unfolding open_db_def full_db_def by (metis append.assoc append_Cons append_Nil file_kinds_first)
  moreover have "full_db ks \<Longrightarrow> full_db (ks @ [KObject])"
    unfolding full_db_def by (metis file_kinds_more)
  ultimately show "open_db ks \<or> full_db ks \<Longrightarrow> full_db (ks @ [KObject])" by blast
qed

lemma run_shape:
  assumes "enc_run ff e0 cs e" and "state e0 = startState"
  shows "shape (state e) (map kind_of cs)"
  using assms
proof (induction rule: enc_run.induct)
  case start
  then show ?case by simp
next
  case (step_ok cs e c e')
  then have ok: "api ff c e = (Ok (), e')" by auto
  from api_ok [OF ok] step_ok show ?case
    by (cases c; cases "state e") (simp_all add: stateChanges_def shape_moves)
next
  case (step_failed cs e c e')
  then obtain r where f: "api ff c e = (r, e')" "r \<noteq> Ok ()" by auto
  from api_failed [OF f] step_failed show ?case by auto
qed

lemma shape_completes: "shape s ks \<Longrightarrow> \<exists>a ns rest. ks @ rest = file_kinds a ns @ [KEnd]"
proof (cases s)
  case startState
  assume "shape s ks"
  with startState show ?thesis by auto
next
  case writtenDBHeaderState
  assume "shape s ks"
  with writtenDBHeaderState obtain a ns where "ks = file_kinds a ns @ [KDB]" by (auto simp: open_db_def)
  then have "ks @ [KObject, KEnd] = file_kinds a (ns @ [0]) @ [KEnd]" by (simp add: file_kinds_first)
  then show ?thesis by blast
next
  case writtenTTLState
  assume "shape s ks"
  with writtenTTLState consider a ns where "ks = file_kinds a ns @ [KDB]" | "full_db ks" by (auto simp: open_db_def)
  then show ?thesis
  proof cases
    case 1
    then have "ks @ [KObject, KEnd] = file_kinds a (ns @ [0]) @ [KEnd]" by (simp add: file_kinds_first)
    then show ?thesis by blast
  qed (auto simp: full_db_def)
next
  case writtenEndState
  assume "shape s ks"
  with writtenEndState obtain a ns where "ks @ [] = file_kinds a ns @ [KEnd]"
    by (auto simp: only_aux_def full_db_def)
  then show ?thesis by blast
qed (auto simp: only_aux_def full_db_def)

text \<open>
  C4. The state machine lets only well-formed files through: whatever calls are made of a new encoder, in any
  order, over any writer, with any of them failing, the calls that succeeded are at any time the beginning
  of a header, aux fields, databases with at least one object each, and the end; and once \<open>WriteEnd\<close> has
  succeeded they are a whole file.
\<close>

theorem encoder_grammar:
  assumes "enc_run ff e0 cs e" and "state e0 = startState"
  shows "\<exists>a ns rest. map kind_of cs @ rest = file_kinds a ns @ [KEnd] \<and> (state e = writtenEndState \<longrightarrow> rest = [])"
proof (cases "state e = writtenEndState")
  case True
  with run_shape [OF assms] show ?thesis by (auto simp: only_aux_def full_db_def)
next
  case False
  with shape_completes [OF run_shape [OF assms]] show ?thesis by blast
qed

theorem encoder_grammar_witness:
  "\<exists>a ns rest. map kind_of sample_calls @ rest = file_kinds a ns @ [KEnd] \<and>
    (state sample_end = writtenEndState \<longrightarrow> rest = [])"
  by (rule encoder_grammar [OF sample_run sample_start(2)])

section \<open>Databases\<close>

definition db_indexes :: "api_call list \<Rightarrow> u64 list" where
  "db_indexes cs = concat (map (\<lambda>c. case c of CDB i _ _ \<Rightarrow> [i] | _ \<Rightarrow> []) cs)"

definition grows_dbs :: "encoder \<Rightarrow> encoder \<Rightarrow> bool" where
  "grows_dbs e e' \<longleftrightarrow> wrote e e' \<and> wfault e' = wfault e \<and> set (existDB e) \<subseteq> set (existDB e')"

lemma only_wrote_grows: "only_wrote e e' \<Longrightarrow> grows_dbs e e'"
  by (auto simp: grows_dbs_def dest: only_wroteD)

lemma grows_dbs_state [simp]: "grows_dbs e (e'\<lparr>state := s\<rparr>) = grows_dbs e e'"
  by (simp add: grows_dbs_def)

lemma grows_dbs_refl: "grows_dbs e e"
  by (simp add: grows_dbs_def)

lemma framed_grows:
  assumes "writer_only m" and run: "seq (check_state t msg) (seq m (set_state t)) e = (r, e')"
  shows "grows_dbs e e' \<and> existDB e' = existDB e"
proof -
  obtain r1 e1 where m1: "m e = (r1, e1)" by fastforce
  from writer_onlyD [OF assms(1) m1] have "grows_dbs e e1" "existDB e1 = existDB e"
    by (auto intro: only_wrote_grows dest: only_wroteD)
  with run m1 show ?thesis
    by (cases r1) (auto simp: seq_def bind_def check_state_cases set_state_def modify_def grows_dbs_refl split: if_splits)
qed

lemma WriteDBHeader_grows:
  assumes run: "WriteDBHeader i n m e = (r, e')"
  shows "grows_dbs e e' \<and> (r = Ok () \<longrightarrow> i \<notin> set (existDB e) \<and> i \<in> set (existDB e'))"
proof (cases "validateStateChange writtenDBHeaderState e \<and> i \<notin> set (existDB e)")
  case True
  let ?e = "e\<lparr>existDB := i # existDB e\<rparr>"
  obtain r1 e1 where m1: "db_header i n m ?e = (r1, e1)" by fastforce
  have "writer_only (db_header i n m)" unfolding db_header_def by (intro writer_intros)
  from writer_onlyD [OF this m1] have w: "only_wrote ?e e1" .
  have g: "grows_dbs e e1" "i \<in> set (existDB e1)"
    using only_wrote_grows [OF w] by (auto simp: grows_dbs_def)
  with run True m1 show ?thesis
    by (cases r1) (auto simp: WriteDBHeader_cases seq_def bind_def set_state_def modify_def)
qed (use run in \<open>auto simp: WriteDBHeader_cases grows_dbs_refl split: if_splits\<close>)

lemma object_grows:
  assumes "object_call e r e'"
  shows "grows_dbs e e'"
  using assms by (auto simp: object_call_def grows_dbs_def split: if_splits)

lemma api_dbs:
  assumes run: "api ff c e = (r, e')"
  shows "c \<noteq> CEnd \<Longrightarrow> grows_dbs e e'" and "set (existDB e) \<subseteq> set (existDB e')"
    and "r = Ok () \<Longrightarrow> set (db_indexes [c]) \<inter> set (existDB e) = {} \<and> set (db_indexes [c]) \<subseteq> set (existDB e')"
proof -
  have g: "grows_dbs e e' \<and> (r = Ok () \<longrightarrow> set (db_indexes [c]) \<inter> set (existDB e) = {} \<and>
      set (db_indexes [c]) \<subseteq> set (existDB e'))" if "c \<noteq> CEnd"
  proof (cases c)
    case CHeader
    have "writer_only (bind (gets enc_valkey) (\<lambda>vk. enc_write (if vk then rdbHeaderValkey else rdbHeaderRedis)))"
      by (intro writer_intros)
    from framed_grows [OF this] run CHeader show ?thesis by (simp add: WriteHeader_framed db_indexes_def)
  next
    case (CAux k v)
    have "writer_only (seq (enc_write [opCodeAux]) (seq (writeString k) (writeString v)))"
      by (intro writer_intros)
    from framed_grows [OF this] run CAux show ?thesis by (simp add: WriteAux_framed db_indexes_def)
  next
    case (CDB i n m)
    with WriteDBHeader_grows [of i n m e r e'] run show ?thesis by (simp add: db_indexes_def)
  next
    case (CObject key v options)
    with run have "write_value ff key v options e = (r, e')" by simp
    from object_grows [OF value_writer.object_call [OF this]] CObject show ?thesis by (simp add: db_indexes_def)
  qed (use that in simp)
  have e: "existDB e' = existDB e" if "c = CEnd"
    using run that by (auto simp: WriteEnd_def enc_write_def raw_write_def monad_defs check_state_cases set_state_def
        split: if_splits option.splits)
  show "c \<noteq> CEnd \<Longrightarrow> grows_dbs e e'" using g by blast
  show "set (existDB e) \<subseteq> set (existDB e')" using g e by (cases "c = CEnd") (auto simp: grows_dbs_def)
  show "r = Ok () \<Longrightarrow> set (db_indexes [c]) \<inter> set (existDB e) = {} \<and> set (db_indexes [c]) \<subseteq> set (existDB e')"
    using g by (cases "c = CEnd") (auto simp: db_indexes_def)
qed

lemma run_dbs:
  assumes "enc_run ff e0 cs e"
  shows "distinct (db_indexes cs) \<and> set (db_indexes cs) \<subseteq> set (existDB e)"
  using assms
proof (induction rule: enc_run.induct)
  case start
  then show ?case by (simp add: db_indexes_def)
next
  case (step_ok cs e c e')
  then have ok: "api ff c e = (Ok (), e')" by auto
  have split: "db_indexes (cs @ [c]) = db_indexes cs @ db_indexes [c]" by (simp add: db_indexes_def)
  have "distinct (db_indexes [c])" by (cases c) (simp_all add: db_indexes_def)
  with api_dbs(2,3) [OF ok] step_ok.IH show ?case unfolding split by auto
next
  case (step_failed cs e c e')
  then obtain r where "api ff c e = (r, e')" by auto
  from api_dbs(2) [OF this] step_failed.IH show ?case by blast
qed

text \<open>
  C29. No database is started twice: in every run the successful calls of \<open>WriteDBHeader\<close> have distinct
  indexes, whatever failed in between (an index whose header failed half-way stays taken).
\<close>

theorem encoder_distinct_dbs:
  assumes "enc_run ff e0 cs e"
  shows "distinct (db_indexes cs)"
  using run_dbs [OF assms] by blast


theorem encoder_distinct_dbs_witness: "distinct (db_indexes sample_calls)"
  by (rule encoder_distinct_dbs [OF sample_run])

section \<open>The checksum\<close>

text \<open>Over a reliable writer the running checksum is that of the bytes that have been written.\<close>

definition crc_inv :: "encoder \<Rightarrow> bool" where
  "crc_inv e \<longleftrightarrow> reliable e \<and>
     (if state e = writtenEndState then \<exists>body. out e = body @ [opCodeEOF] @ digest_sum (checksum (body @ [opCodeEOF]) table)
      else crc e = checksum (out e) table)"

lemma checksum_digest: "checksum bs table = digest_write 0 bs"
  by (simp add: checksum_def digest_write_def)

lemma grows_crc:
  assumes "grows_dbs e e'" and "reliable e" and "crc e = checksum (out e) table"
  shows "reliable e' \<and> crc e' = checksum (out e') table"
  using assms by (auto simp: grows_dbs_def wrote_def reliable_def checksum_digest digest_write_append)

lemma WriteEnd_reliable:
  assumes "reliable e" and "WriteEnd e = (r, e')"
  shows "r = Ok () \<and> validateStateChange writtenEndState e \<and> state e' = writtenEndState \<and> reliable e' \<and>
      out e' = out e @ [opCodeEOF] @ digest_sum (digest_write (crc e) [opCodeEOF])
    \<or> r \<noteq> Ok () \<and> e' = e"
  using assms
  by (cases "validateStateChange writtenEndState e")
    (auto simp: WriteEnd_def enc_write_def raw_write_def monad_defs check_state_cases set_state_def reliable_def)

lemma run_crc:
  assumes "enc_run ff e0 cs e" and "crc_inv e0" and "state e0 = startState"
  shows "crc_inv e"
  using assms
proof (induction rule: enc_run.induct)
  case start
  then show ?case by simp
next
  case (step_ok cs e c e')
  then have ok: "api ff c e = (Ok (), e')" and inv: "crc_inv e" by auto
  note st = api_ok [OF ok]
  from st(1) have open_e: "state e \<noteq> writtenEndState" by (auto simp: stateChanges_def)
  with inv have c: "reliable e" "crc e = checksum (out e) table" by (simp_all add: crc_inv_def)
  show ?case
  proof (cases "c = CEnd")
    case True
    with ok WriteEnd_reliable [OF c(1), of "Ok ()" e'] c show ?thesis
      by (auto simp: crc_inv_def checksum_digest digest_write_append)
  next
    case False
    then have "state e' \<noteq> writtenEndState" using st(2) by (cases c) simp_all
    with grows_crc [OF api_dbs(1) [OF ok False] c] show ?thesis by (simp add: crc_inv_def)
  qed
next
  case (step_failed cs e c e')
  then obtain r where f: "api ff c e = (r, e')" "r \<noteq> Ok ()" and inv: "crc_inv e" by auto
  show ?case
  proof (cases "c = CEnd")
    case True
    with f inv WriteEnd_reliable [of e r e'] show ?thesis by (auto simp: crc_inv_def)
  next
    case False
    have g: "grows_dbs e e'" by (rule api_dbs(1) [OF f(1) False])
    show ?thesis
    proof (cases "state e = writtenEndState")
      case True
      have "state e' = writtenEndState" using api_failed [OF f] True by auto
      moreover have "\<not> validateStateChange (call_state c) e"
        using True by (simp add: validateStateChange_def stateChanges_def)
      then have "e' = e"
      proof (cases c)
        case (CObject key v options)
        with f have "write_value ff key v options e = (r, e')" by simp
        from value_writer.object_call [OF this] \<open>\<not> validateStateChange (call_state c) e\<close> CObject
        show ?thesis by (simp add: object_call_def)
      qed (use f \<open>\<not> validateStateChange (call_state c) e\<close> False in
        \<open>auto simp: WriteHeader_def WriteAux_def WriteDBHeader_cases seq_def bind_def check_state_cases\<close>)
      ultimately show ?thesis using inv by simp
    next
      case False
      with inv have c: "reliable e" "crc e = checksum (out e) table" by (simp_all add: crc_inv_def)
      have "state e' \<noteq> writtenEndState" using api_failed [OF f] False by auto
      with grows_crc [OF g c] show ?thesis by (simp add: crc_inv_def)
    qed
  qed
qed

text \<open>
  C5. The checksum of a file: over a writer that does not fail, after any calls whatever, the digest of the
  encoder is the CRC-64 of the bytes that are in the file so far, and a file that \<open>WriteEnd\<close> has closed is a
  body up to the end opcode followed by the eight bytes of the CRC-64 of that body.
\<close>

theorem encoder_checksum:
  assumes "enc_run ff e0 cs e" and "reliable e0" and "state e0 = startState" and "out e0 = []" and "crc e0 = 0"
  shows "if state e = writtenEndState
    then \<exists>body. out e = body @ [opCodeEOF] @ digest_sum (checksum (body @ [opCodeEOF]) table)
    else crc e = checksum (out e) table"
proof -
  have "crc_inv e0" using assms(2-) by (simp add: crc_inv_def checksum_digest digest_write_Nil)
  from run_crc [OF assms(1) this assms(3)] show ?thesis unfolding crc_inv_def by (rule conjunct2)
qed

theorem encoder_checksum_witness:
  "if state sample_end = writtenEndState
    then \<exists>body. out sample_end = body @ [opCodeEOF] @ digest_sum (checksum (body @ [opCodeEOF]) table)
    else crc sample_end = checksum (out sample_end) table"
  by (rule encoder_checksum [OF sample_run sample_start(1,2,4,5)])

end
