(* ===== verification/ModuleObj.thy ===== *)
theory ModuleObj
  imports StreamObj
begin

text \<open>
  Module values (\<open>core/module.go\<close>): the name and the version that a module identifier packs into 64 bits, the
  call of the handler that was registered for the name, and the skipping of a value for which there is
  none. A handler is a reader of the decoder, an argument of the definitions (\<open>WithSpecialType\<close> puts it
  into a map from names); it is given the version and may return a value or nil.
\<close>

type_synonym 'v handlers = "bytes \<Rightarrow> (int \<Rightarrow> 'v option dec) option"

definition WithSpecialType :: "bytes \<Rightarrow> (int \<Rightarrow> 'v option dec) \<Rightarrow> 'v handlers \<Rightarrow> 'v handlers" where
  "WithSpecialType moduleType f handlers = handlers(moduleType \<mapsto> f)"

section \<open>Opcodes\<close>

definition ModuleOpcodeEOF :: u64 where "ModuleOpcodeEOF = 0"
definition ModuleOpcodeSInt :: u64 where "ModuleOpcodeSInt = 1"
definition ModuleOpcodeUInt :: u64 where "ModuleOpcodeUInt = 2"
definition ModuleOpcodeFloat :: u64 where "ModuleOpcodeFloat = 3"
definition ModuleOpcodeDouble :: u64 where "ModuleOpcodeDouble = 4"
definition ModuleOpcodeString :: u64 where "ModuleOpcodeString = 5"

lemmas module_opcodes = ModuleOpcodeEOF_def ModuleOpcodeSInt_def ModuleOpcodeUInt_def ModuleOpcodeFloat_def
  ModuleOpcodeDouble_def ModuleOpcodeString_def

definition ReadOpcode :: "u64 dec" where
  "ReadOpcode = bind readLen (\<lambda>code. if 5 < code then throw (ErrMsg ''unknown opcode'') else ret code)"

definition ReadUInt :: "u64 dec" where "ReadUInt = readLen"

definition ReadSInt :: "int dec" where "ReadSInt = bind readLen (\<lambda>v. ret (sint v))"

text \<open>The switch of \<open>skipModuleAuxData\<close>: the value behind the opcode is read and dropped.\<close>

definition skip_module_value :: "u64 \<Rightarrow> unit dec" where
  "skip_module_value opCode =
     (if opCode = ModuleOpcodeSInt then bind ReadSInt (\<lambda>_. ret ())
      else if opCode = ModuleOpcodeUInt then bind ReadUInt (\<lambda>_. ret ())
      else if opCode = ModuleOpcodeFloat then bind readFloat32 (\<lambda>_. ret ())
      else if opCode = ModuleOpcodeDouble then bind readFloat (\<lambda>_. ret ())
      else if opCode = ModuleOpcodeString then bind readString (\<lambda>_. ret ())
      else throw (ErrMsg ''unknown module opcode ''))"

lemma consumes_module_values [consumes_intros]:
  "consumes ReadOpcode" "consumes (skip_module_value opCode)"
  unfolding ReadOpcode_def skip_module_value_def ReadUInt_def ReadSInt_def
  by (intro consumes_intros)+

lemma consumes_shorter: "consumes m \<Longrightarrow> m d = (r, d') \<Longrightarrow> length (input d') \<le> length (input d)"
  by (drule (1) consumesD) (auto simp: took_def)

lemma readByte_shorter: "readByte d = (Ok b, d') \<Longrightarrow> length (input d') < length (input d)"
  by (auto simp: readByte_def split: list.splits)

lemma readLength_shorter:
  assumes "readLength d = (Ok x, d')"
  shows "length (input d') < length (input d)"
proof -
  define k where "k = (\<lambda>firstByte :: byte. let lenType = drop_bit 6 (firstByte AND 0xc0) in
     if lenType = 0 then ret (ucast firstByte AND 0x3f, False)
     else if lenType = 1 then
       bind (wrap_err ''read len14Bit failed'' readByte) (\<lambda>nextByte.
       ret (push_bit 8 (ucast firstByte AND 0x3f) OR ucast nextByte, False))
     else if lenType = 2 then
       (if firstByte = 0x80 then
          bind (wrap_err ''read len32Bit failed'' (readFull 4)) (\<lambda>bs.
          ret (ucast (be_word bs :: u32), False))
        else if firstByte = 0x81 then
          bind (wrap_err ''read len64Bit failed'' (readFull 8)) (\<lambda>bs.
          ret (be_word bs, False))
        else throw (ErrMsg ''illegal length encoding''))
     else ret (ucast firstByte AND 0x3f, True) :: (u64 \<times> bool) dec)"
  have eq: "readLength = bind (wrap_err ''read length failed'' readByte) k"
    by (simp add: readLength_def k_def)
  have k: "consumes (k b)" for b unfolding k_def by (intro consumes_intros)
  from assms obtain b d1 where b: "wrap_err ''read length failed'' readByte d = (Ok b, d1)" "k b d1 = (Ok x, d')"
    unfolding eq by (rule bind_OkE)
  then have "readByte d = (Ok b, d1)" by (auto simp: wrap_err_def split: prod.splits result.splits)
  from readByte_shorter [OF this] consumes_shorter [OF k b(2)] show ?thesis by simp
qed

lemma ReadOpcode_shorter:
  assumes "ReadOpcode d = (Ok x, d')"
  shows "length (input d') < length (input d)"
proof -
  from assms obtain a where "readLength d = (Ok a, d')"
    unfolding ReadOpcode_def readLen_def
    by (auto elim!: bind_OkE simp: ret_def throw_def split: if_splits prod.splits)
  then show ?thesis by (rule readLength_shorter)
qed

text \<open>The loop ends because every opcode takes at least one byte off the input.\<close>

function skip_module_loop :: "u64 \<Rightarrow> unit dec" where
  "skip_module_loop opCode d =
     (if opCode = ModuleOpcodeEOF then (Ok (), d)
      else (case seq (skip_module_value opCode) ReadOpcode d of
         (Ok opCode', d') \<Rightarrow> skip_module_loop opCode' d'
       | (Err e, d') \<Rightarrow> (Err e, d')
       | (Panic p, d') \<Rightarrow> (Panic p, d')))"
  by pat_completeness auto
termination
proof (relation "measure (\<lambda>(opCode, d). length (input d))")
  fix opCode d r d' opCode'
  assume run: "(r, d') = seq (skip_module_value opCode) ReadOpcode d" "r = Ok opCode'"
  then obtain u d1 where "skip_module_value opCode d = (Ok u, d1)" "ReadOpcode d1 = (Ok opCode', d')"
    by (metis seq_OkE)
  then show "((opCode', d'), opCode, d) \<in> measure (\<lambda>(opCode, d). length (input d))"
    using consumes_shorter [OF consumes_module_values(2)] ReadOpcode_shorter by fastforce
qed simp

declare skip_module_loop.simps [simp del]

definition skipModuleAuxData :: "int \<Rightarrow> 'v option dec" where
  "skipModuleAuxData encVersion =
     bind ReadOpcode (\<lambda>opCode.
     seq (skip_module_loop opCode) (ret None))"

section \<open>Identifiers\<close>

definition ModuleTypeNameCharSet :: bytes where
  "ModuleTypeNameCharSet = ascii ''ABCDEFGHIJKLMNOPQRSTUVWXYZabcdefghijklmnopqrstuvwxyz0123456789-_''"

fun module_name_loop :: "nat \<Rightarrow> u64 \<Rightarrow> bytes \<Rightarrow> bytes" where
  "module_name_loop 0 moduleId name = name"
| "module_name_loop (Suc n) moduleId name =
     module_name_loop n (drop_bit 6 moduleId) (ModuleTypeNameCharSet ! unat (moduleId AND 63) # name)"

definition moduleTypeNameByID :: "u64 \<Rightarrow> bytes" where
  "moduleTypeNameByID moduleId = module_name_loop 9 (drop_bit 10 moduleId) []"

definition moduleTypeEncVersionByID :: "u64 \<Rightarrow> u64" where
  "moduleTypeEncVersionByID moduleId = moduleId AND 1023"

definition handleModuleType :: "'v handlers \<Rightarrow> u64 \<Rightarrow> (bytes \<times> 'v option) dec" where
  "handleModuleType handlers moduleId =
     (let moduleType = moduleTypeNameByID moduleId;
          handler = (case handlers moduleType of None \<Rightarrow> skipModuleAuxData | Some h \<Rightarrow> h) in
      bind (handler (sint (moduleTypeEncVersionByID moduleId))) (\<lambda>val.
      ret (moduleType, val)))"

definition readModuleType :: "'v handlers \<Rightarrow> (bytes \<times> 'v option) dec" where
  "readModuleType handlers = bind readLen (handleModuleType handlers)"

text \<open>A handler that only reads keeps the decoder's laws.\<close>

definition reading_handlers :: "'v handlers \<Rightarrow> bool" where
  "reading_handlers handlers \<longleftrightarrow> (\<forall>name h v. handlers name = Some h \<longrightarrow> consumes (h v))"

lemma consumes_skip_module_loop [consumes_intros]: "consumes (skip_module_loop opCode)"
proof (rule consumesI)
  show "skip_module_loop opCode d = (r, d') \<Longrightarrow> \<exists>p. took d p d' (\<exists>a. r = Ok a)" for d r d'
  proof (induction opCode d rule: skip_module_loop.induct)
    case (1 opCode d)
    show ?case
    proof (cases "opCode = ModuleOpcodeEOF")
      case True
      then have "skip_module_loop opCode d = (Ok (), d)" by (subst skip_module_loop.simps) simp
      with "1.prems" show ?thesis by (auto intro: took_refl)
    next
      case False
      obtain r1 d1 where run: "seq (skip_module_value opCode) ReadOpcode d = (r1, d1)" by fastforce
      have c: "consumes (seq (skip_module_value opCode) ReadOpcode)" by (intro consumes_intros)
      from consumesD [OF c run] obtain p where p: "took d p d1 (\<exists>a. r1 = Ok a)" by blast
      show ?thesis
      proof (cases r1)
        case (Ok op')
        with False run "1.prems" have "skip_module_loop op' d1 = (r, d')"
          by (simp add: skip_module_loop.simps [of opCode d])
        with "1.IH" [OF False run [symmetric] Ok] obtain q where "took d1 q d' (\<exists>a. r = Ok a)" by blast
        with p Ok show ?thesis by (auto intro: took_trans)
      qed (use False run "1.prems" p in \<open>auto simp: skip_module_loop.simps [of opCode d]\<close>)
    qed
  qed
qed

lemma consumes_readModuleType:
  assumes "reading_handlers handlers"
  shows "consumes (readModuleType handlers)"
proof -
  have "consumes (case handlers n of None \<Rightarrow> skipModuleAuxData v | Some h \<Rightarrow> h v)" for n v
  proof (cases "handlers n")
    case None
    have "consumes (skipModuleAuxData v :: 'a option dec)" unfolding skipModuleAuxData_def by (intro consumes_intros)
    with None show ?thesis by simp
  next
    case (Some h)
    with assms show ?thesis by (simp add: reading_handlers_def)
  qed
  then have "consumes (handleModuleType handlers i)" for i
    unfolding handleModuleType_def Let_def by (intro consumes_intros) (simp add: option.case_distrib [of "\<lambda>f. f _"])
  then show ?thesis unfolding readModuleType_def by (intro consumes_intros)
qed


section \<open>What skipping does\<close>

text \<open>The values of a module in the file, in front of the end opcode.\<close>

datatype module_value = MSInt u64 | MUInt u64 | MFloat u32 | MDouble u64 | MString bytes

fun module_value_bytes :: "bool \<Rightarrow> module_value \<Rightarrow> bytes" where
  "module_value_bytes c (MSInt v) = length_bytes ModuleOpcodeSInt @ length_bytes v"
| "module_value_bytes c (MUInt v) = length_bytes ModuleOpcodeUInt @ length_bytes v"
| "module_value_bytes c (MFloat f) = length_bytes ModuleOpcodeFloat @ le_bytes 4 f"
| "module_value_bytes c (MDouble f) = length_bytes ModuleOpcodeDouble @ le_bytes 8 f"
| "module_value_bytes c (MString s) = length_bytes ModuleOpcodeString @ string_bytes c s"

definition module_bytes :: "bool \<Rightarrow> module_value list \<Rightarrow> bytes" where
  "module_bytes c vs = concat (map (module_value_bytes c) vs) @ length_bytes ModuleOpcodeEOF"

fun module_value_ok :: "module_value \<Rightarrow> bool" where
  "module_value_ok (MString s) = short_string s"
| "module_value_ok v = True"

lemma parses_ReadOpcode: "x \<le> 5 \<Longrightarrow> parses ReadOpcode (length_bytes x) x"
  unfolding ReadOpcode_def by (rule parses_bind_ret [OF parses_readLen]) (auto simp: word_le_nat_alt word_less_nat_alt)

lemma module_value_split:
  assumes "module_value_ok v"
  shows "\<exists>op bs. module_value_bytes c v = length_bytes op @ bs \<and> op \<noteq> ModuleOpcodeEOF \<and> op \<le> 5 \<and>
    parses (skip_module_value op) bs ()"
proof -
  have f: "parses readFloat32 (le_bytes 4 x) x" for x
    unfolding readFloat32_def by (rule parses_bind_ret [OF parses_readFull_eq]) (simp_all add: le_word_le_bytes)
  have l: "parses (bind readLen (\<lambda>_. ret ())) (length_bytes x) ()" for x
    by (rule parses_bind_ret [OF parses_readLen]) simp
  have s: "parses ReadSInt (length_bytes x) (sint x)" for x
    unfolding ReadSInt_def by (rule parses_bind_ret [OF parses_readLen]) simp
  show ?thesis
  proof (cases v)
    case (MSInt x)
    have "parses (skip_module_value ModuleOpcodeSInt) (length_bytes x) ()"
      unfolding skip_module_value_def by (simp, rule parses_bind_ret [OF s]) simp
    with MSInt show ?thesis
      by (intro exI [of _ ModuleOpcodeSInt] exI [of _ "length_bytes x"]) (simp add: module_opcodes)
  next
    case (MUInt x)
    have "parses (skip_module_value ModuleOpcodeUInt) (length_bytes x) ()"
      using l by (simp add: skip_module_value_def module_opcodes ReadUInt_def)
    with MUInt show ?thesis
      by (intro exI [of _ ModuleOpcodeUInt] exI [of _ "length_bytes x"]) (simp add: module_opcodes)
  next
    case (MFloat x)
    have "parses (skip_module_value ModuleOpcodeFloat) (le_bytes 4 x) ()"
      unfolding skip_module_value_def module_opcodes by (simp, rule parses_bind_ret [OF f]) simp
    with MFloat show ?thesis
      by (intro exI [of _ ModuleOpcodeFloat] exI [of _ "le_bytes 4 x"]) (simp add: module_opcodes)
  next
    case (MDouble x)
    have "parses (skip_module_value ModuleOpcodeDouble) (le_bytes 8 x) ()"
      unfolding skip_module_value_def module_opcodes by (simp, rule parses_bind_ret [OF parses_readFloat]) simp
    with MDouble show ?thesis
      by (intro exI [of _ ModuleOpcodeDouble] exI [of _ "le_bytes 8 x"]) (simp add: module_opcodes)
  next
    case (MString x)
    have "parses (skip_module_value ModuleOpcodeString) (string_bytes c x) ()"
      unfolding skip_module_value_def module_opcodes
      by (simp, rule parses_bind_ret [OF parses_string]) (use assms MString in simp_all)
    with MString show ?thesis
      by (intro exI [of _ ModuleOpcodeString] exI [of _ "string_bytes c x"]) (simp add: module_opcodes)
  qed
qed

lemma parses_skip_module:
  assumes "list_all module_value_ok vs"
  shows "parses (bind ReadOpcode skip_module_loop) (module_bytes c vs) ()"
  using assms
proof (induction vs)
  case Nil
  have "parses (skip_module_loop ModuleOpcodeEOF) [] ()"
    by (rule parsesI) (simp add: skip_module_loop.simps advance_Nil)
  from parses_bind [where f = skip_module_loop, OF parses_ReadOpcode this]
  show ?case by (simp add: module_bytes_def module_opcodes)
next
  case (Cons v vs)
  then have "module_value_ok v" by simp
  from module_value_split [OF this, of c] obtain op bs where
    v: "module_value_bytes c v = length_bytes op @ bs" "op \<noteq> ModuleOpcodeEOF" "op \<le> 5"
      "parses (skip_module_value op) bs ()" by blast
  have "parses (bind (skip_module_value op) (\<lambda>_. bind ReadOpcode skip_module_loop)) (bs @ module_bytes c vs) ()"
    using Cons by (intro parses_bind [OF v(4)]) simp
  moreover have "skip_module_loop op = bind (skip_module_value op) (\<lambda>_. bind ReadOpcode skip_module_loop)"
    using v(2) by (intro ext, subst skip_module_loop.simps)
      (auto simp: seq_def bind_def split: result.splits prod.splits)
  ultimately have "parses (skip_module_loop op) (bs @ module_bytes c vs) ()" by simp
  from parses_bind [where f = skip_module_loop, OF parses_ReadOpcode [OF v(3)] this] show ?case by (simp add: module_bytes_def v(1))
qed

text \<open>
  C28. A module value without a handler is skipped exactly: whatever integers, floats and strings stand in
  it, \<open>readModuleType\<close> takes the identifier, the values and the end opcode off the input, nothing of what
  follows, and returns the name that the identifier spells, with no value.
\<close>

theorem unknown_module_skipped:
  assumes "list_all module_value_ok vs" and "handlers (moduleTypeNameByID moduleId) = None"
  shows "parses (readModuleType handlers) (length_bytes moduleId @ module_bytes c vs) (moduleTypeNameByID moduleId, None)"
proof -
  have "parses (skipModuleAuxData v :: 'a option dec) (module_bytes c vs) None" for v
  proof -
    have "(skipModuleAuxData v :: 'a option dec) = bind (bind ReadOpcode skip_module_loop) (\<lambda>_. ret None)"
      by (simp add: skipModuleAuxData_def bind_assoc seq_def)
    then show ?thesis by (simp only:) (rule parses_bind_ret [OF parses_skip_module [OF assms(1)]], simp)
  qed
  then have "parses (handleModuleType handlers moduleId) (module_bytes c vs) (moduleTypeNameByID moduleId, None)"
    unfolding handleModuleType_def Let_def assms(2) option.case by (rule parses_bind_ret) simp
  then show ?thesis unfolding readModuleType_def by (rule parses_bind [OF parses_readLen])
qed

theorem unknown_module_skipped_witness:
  "parses (readModuleType (\<lambda>_. None :: (int \<Rightarrow> nat option dec) option))
    (length_bytes 1234567890123456789 @ module_bytes False [MSInt 7, MString [97, 98], MDouble 0])
    (moduleTypeNameByID 1234567890123456789, None)"
  by (rule unknown_module_skipped) (simp_all add: short_string_def)

lemma module_name_loop_eq:
  "module_name_loop n x name =
     rev (map (\<lambda>i. ModuleTypeNameCharSet ! unat (drop_bit (6 * i) x AND 63)) [0..<n]) @ name"
proof (induction n arbitrary: x name)
  case (Suc n)
  have "[0..<Suc n] = 0 # map Suc [0..<n]" by (simp add: map_Suc_upt upt_conv_Cons del: upt_Suc)
  then show ?case using Suc.IH [of "drop_bit 6 x"] by (simp add: drop_bit_drop_bit comp_def add.commute del: upt_Suc)
qed simp

lemma charset_index:
  assumes "ModuleTypeNameCharSet ! unat (x AND 63) = ModuleTypeNameCharSet ! unat (y AND 63)"
  shows "x AND 63 = (y AND 63 :: u64)"
proof -
  have d: "distinct ModuleTypeNameCharSet" "length ModuleTypeNameCharSet = 64" by (code_simp, code_simp)
  have "unat (z AND 63) < 64" for z :: u64
  proof -
    have "z AND 63 = take_bit 6 z" by (simp add: take_bit_eq_mask mask_eq_exp_minus_1)
    then show ?thesis using take_bit_nat_less_exp [of 6 "unat z"] by (simp add: unsigned_take_bit_eq)
  qed
  with assms d have "unat (x AND 63) = unat (y AND 63)" by (simp only: nth_eq_iff_index_eq)
  then show ?thesis by (rule unsigned_word_eqI)
qed

text \<open>
  C39. A module identifier is determined by the name and the version that the code reads out of it: no two
  of the 2^64 identifiers have both in common, so a handler registered for a name gets exactly the
  values of that module.
\<close>

theorem module_id_faithful:
  "moduleTypeNameByID a = moduleTypeNameByID b \<and> moduleTypeEncVersionByID a = moduleTypeEncVersionByID b \<longleftrightarrow> a = b"
proof
  assume eq: "moduleTypeNameByID a = moduleTypeNameByID b \<and> moduleTypeEncVersionByID a = moduleTypeEncVersionByID b"
  have ver: "take_bit 10 a = take_bit 10 b"
    using eq by (simp add: moduleTypeEncVersionByID_def take_bit_eq_mask mask_eq_exp_minus_1)
  have "\<forall>i \<in> set [0..<9]. drop_bit (6 * i) (drop_bit 10 a) AND 63 = drop_bit (6 * i) (drop_bit 10 b) AND 63"
  proof -
    from eq have "map (\<lambda>i. ModuleTypeNameCharSet ! unat (drop_bit (6 * i) (drop_bit 10 a) AND 63)) [0..<9] =
        map (\<lambda>i. ModuleTypeNameCharSet ! unat (drop_bit (6 * i) (drop_bit 10 b) AND 63)) [0..<9]"
      unfolding moduleTypeNameByID_def module_name_loop_eq by (simp only: append_Nil2 rev_is_rev_conv)
    then show ?thesis unfolding map_eq_conv using charset_index by blast
  qed
  then have digits: "take_bit 6 (drop_bit (6 * i + 10) a) = take_bit 6 (drop_bit (6 * i + 10) b)" if "i < 9" for i
    using that by (simp add: take_bit_eq_mask mask_eq_exp_minus_1 drop_bit_drop_bit)
  show "a = b"
  proof (rule bit_word_eqI)
    fix k assume k: "k < LENGTH(64)"
    show "bit a k = bit b k"
    proof (cases "k < 10")
      case True
      then have "bit x k = bit (take_bit 10 x) k" for x :: u64 by (simp add: bit_take_bit_iff)
      with ver show ?thesis by metis
    next
      case False
      define i where "i = (k - 10) div 6"
      define r where "r = (k - 10) mod 6"
      have "k = 6 * i + 10 + r" "r < 6" "i < 9" using False k by (auto simp: i_def r_def)
      then have "bit x k = bit (take_bit 6 (drop_bit (6 * i + 10) x)) r" for x :: u64
        by (simp add: bit_take_bit_iff bit_drop_bit_eq ac_simps)
      with digits [OF \<open>i < 9\<close>] show ?thesis by metis
    qed
  qed
qed simp

end
