(* ===== verification/Memprofiler.thy ===== *)
theory Memprofiler
  imports RdbModel Strconv
begin

text \<open>
  Package \<open>memprofiler\<close>: the estimate of the memory that an object takes in a server. Lengths and sums are
  far below 2^63, so \<open>int\<close> is unbounded here. An index out of range and a failed type assertion are
  panics, so the functions are computations (over any state, which they leave alone).
  \<open>zsetRandomLevel\<close>, which nothing calls, is not modelled.
\<close>

section \<open>Allocation classes\<close>

definition jemallocClasses :: "int list" where
  "jemallocClasses = [
    8, 16, 24, 32, 40, 48, 56, 64, 80, 96, 112, 128, 160, 192, 224, 256, 320, 384, 448, 512, 640, 768, 896,
    1024, 1280, 1536, 1792, 2048, 2560, 3072, 3584, 4096, 5120, 6144, 7168, 8192, 10240, 12288, 14336,
    16384, 20480, 24576, 28672, 32768, 40960, 49152, 57344, 65536, 81920, 98304, 114688, 131072, 163840,
    196608, 229376, 262144, 327680, 393216, 458752, 524288, 655360, 786432, 917504, 1048576, 1310720,
    1572864, 1835008, 2097152, 2621440, 3145728, 3670016, 4194304, 5242880, 6291456, 7340032, 8388608,
    10485760, 12582912, 14680064, 16777216, 20971520, 25165824, 29360128, 33554432, 41943040, 50331648,
    58720256, 67108864, 83886080, 100663296, 117440512, 134217728, 167772160, 201326592, 234881024,
    268435456, 335544320, 402653184, 469762048, 536870912, 671088640, 805306368, 939524096, 1073741824,
    1342177280, 1610612736, 1879048192, 2147483648, 2684354560, 3221225472, 3758096384, 4294967296,
    5368709120, 6442450944, 7516192768, 8589934592, 10737418240, 12884901888, 15032385536, 17179869184,
    21474836480, 25769803776, 30064771072, 34359738368, 42949672960, 51539607552, 60129542144, 68719476736,
    85899345920, 103079215104, 120259084288, 137438953472, 171798691840, 206158430208, 240518168576,
    274877906944, 343597383680, 412316860416, 481036337152, 549755813888, 687194767360, 824633720832,
    962072674304, 1099511627776, 1374389534720, 1649267441664, 1924145348608, 2199023255552, 2748779069440,
    3298534883328, 3848290697216, 4398046511104, 5497558138880, 6597069766656, 7696581394432, 8796093022208,
    10995116277760, 13194139533312, 15393162788864, 17592186044416, 21990232555520, 26388279066624,
    30786325577728, 35184372088832, 43980465111040, 52776558133248, 61572651155456, 70368744177664,
    87960930222080, 105553116266496, 123145302310912, 140737488355328, 175921860444160, 211106232532992,
    246290604621824, 281474976710656, 351843720888320, 422212465065984, 492581209243648, 562949953421312,
    703687441776640, 844424930131968, 985162418487296, 1125899906842624, 1407374883553280, 1688849860263936,
    1970324836974592, 2251799813685248, 2814749767106560, 3377699720527872, 3940649673949184,
    4503599627370496, 5629499534213120, 6755399441055744, 7881299347898368, 9007199254740992,
    11258999068426240, 13510798882111488, 15762598695796736, 18014398509481984, 22517998136852480,
    27021597764222976, 31525197391593472, 36028797018963968, 45035996273704960, 54043195528445952,
    63050394783186944, 72057594037927936, 90071992547409920, 108086391056891904, 126100789566373888,
    144115188075855872, 180143985094819840, 216172782113783808, 252201579132747776, 288230376151711744,
    360287970189639680, 432345564227567616, 504403158265495552, 576460752303423488, 720575940379279360,
    864691128455135232, 1008806316530991104, 1152921504606846976, 1441151880758558720, 1729382256910270464,
    2017612633061982208, 2305843009213693952, 2882303761517117440, 3458764513820540928, 4035225266123964416,
    4611686018427387904, 5764607523034234880, 6917529027641081856, 8070450532247928832]"

text \<open>\<open>sort.Search(n, f)\<close>: the binary search of the standard library.\<close>

function sort_search :: "(nat \<Rightarrow> bool) \<Rightarrow> nat \<Rightarrow> nat \<Rightarrow> nat" where
  "sort_search f i j =
     (if i < j then
        (let h = (i + j) div 2 in
         if \<not> f h then sort_search f (h + 1) j else sort_search f i h)
      else i)"
  by pat_completeness auto
termination
  by (relation "measure (\<lambda>(f, i, j). j - i)") (auto simp: Let_def)

declare sort_search.simps [simp del]

definition getJemallocSize :: "int \<Rightarrow> ('s, int) comp" where
  "getJemallocSize req =
     (let i = sort_search (\<lambda>i. req \<le> jemallocClasses ! i) 0 (length jemallocClasses) in
      if i < length jemallocClasses then ret (jemallocClasses ! i) else panic IndexRange)"

section \<open>Strings and overheads\<close>

definition sizeOfString :: "bytes \<Rightarrow> ('s, int) comp" where
  "sizeOfString str =
     (if parse_int 64 str \<noteq> None then ret 0
      else
        let size = int (length str) in
        if size < 32 then getJemallocSize (size + 1 + 1)
        else if size < 256 then getJemallocSize (size + 2 + 1)
        else if size < 25536 then getJemallocSize (size + 1 + 4 + 1)
        else if size < 4294967296 then getJemallocSize (size + 1 + 8 + 1)
        else getJemallocSize (size + 1 + 16 + 1))"

definition sizeOfPointer :: int where "sizeOfPointer = 8"
definition sizeOfLong :: int where "sizeOfLong = 8"

definition redisObjOverhead :: int where "redisObjOverhead = sizeOfPointer + 8"
definition hashTableEntryOverhead :: int where "hashTableEntryOverhead = 2 * sizeOfPointer + 8"
definition expiryOverhead :: int where "expiryOverhead = hashTableEntryOverhead + 8"

definition topLevelObjectOverhead :: "bytes \<Rightarrow> bool \<Rightarrow> ('s, int) comp" where
  "topLevelObjectOverhead key hasTTl =
     bind (sizeOfString key) (\<lambda>n.
     let size = hashTableEntryOverhead + n + redisObjOverhead in
     ret (if \<not> hasTTl then size else size + expiryOverhead))"

text \<open>\<open>for power <= size { power <<= 1 }\<close>, where \<open>power\<close> is \<open>1 << k\<close>.\<close>

function next_power_loop :: "nat \<Rightarrow> nat \<Rightarrow> nat" where
  "next_power_loop n k = (if 2 ^ k \<le> n then next_power_loop n (k + 1) else 2 ^ k)"
  by pat_completeness auto
termination
proof (relation "measure (\<lambda>(n, k). n - k)")
  fix n k :: nat assume "2 ^ k \<le> n"
  moreover have "k < 2 ^ k" by simp
  ultimately have "k < n" by linarith
  then show "((n, k + 1), n, k) \<in> measure (\<lambda>(n, k). n - k)" by simp
qed simp

declare next_power_loop.simps [simp del]

definition nextPower :: "nat \<Rightarrow> nat" where
  "nextPower n = next_power_loop n 0"

definition hashtableOverhead :: "nat \<Rightarrow> int" where
  "hashtableOverhead n =
     4 + 7 * sizeOfLong + 4 * sizeOfPointer + int (nextPower n) * sizeOfPointer * 3 div 2"

text \<open>\<open>for _, x := range xs { size += f(x) }\<close>\<close>

definition sum_comp :: "('a \<Rightarrow> ('s, int) comp) \<Rightarrow> 'a list \<Rightarrow> int \<Rightarrow> ('s, int) comp" where
  "sum_comp f xs size0 = fold (\<lambda>x m. bind m (\<lambda>size. bind (f x) (\<lambda>n. ret (size + n)))) xs (ret size0)"

section \<open>Lists\<close>

text \<open>\<open>int(math.Pow(2, 8))\<close> and so on are the powers.\<close>

definition zipListIntEntryOverhead :: "int \<Rightarrow> int" where
  "zipListIntEntryOverhead v =
     (let header = 1;
          size = (if v < 12 then 0 else if v < 2 ^ 8 then 1 else if v < 2 ^ 16 then 2
            else if v < 2 ^ 24 then 3 else if v < 2 ^ 32 then 4 else 8);
          prevLen = (if size < 254 then 5 else 1) in
      prevLen + header + size)"

definition zipListStrEntryOverhead :: "bytes \<Rightarrow> int" where
  "zipListStrEntryOverhead v =
     (let size = int (length v);
          header = (if size \<le> 63 then 1 else if size \<le> 1 then 2 else 5);
          prevLen = (if size < 254 then 5 else 1) in
      prevLen + header + size)"

definition sizeOfZiplist :: "bytes list \<Rightarrow> int" where
  "sizeOfZiplist vs =
     foldl (\<lambda>size v. size + (case parse_int 64 v of
         None \<Rightarrow> zipListStrEntryOverhead v
       | Some i \<Rightarrow> zipListIntEntryOverhead i)) (4 + 4 + 2 + 1) vs"

definition sizeOfQuicklist :: "bytes list list \<Rightarrow> int" where
  "sizeOfQuicklist ziplists =
     (let size = 2 * sizeOfPointer + sizeOfLong + 2 * 4;
          nodeOverhead = 4 * sizeOfPointer + sizeOfLong + 2 * 4 in
      foldl (\<lambda>size zl. size + sizeOfZiplist zl) (size + int (length ziplists) * nodeOverhead) ziplists)"

text \<open>
  \<open>values[i]\<close> and \<open>ListPackEntrySize[i]\<close> are taken at the index of the node, although there is one value per
  entry and one list of sizes per packed node.
\<close>

definition index_list :: "'a list \<Rightarrow> nat \<Rightarrow> ('s, 'a) comp" where
  "index_list xs i = (if i < length xs then ret (xs ! i) else panic IndexRange)"

definition quicklist2_node_size :: "bytes list \<Rightarrow> nat list list \<Rightarrow> nat \<times> nat \<Rightarrow> ('s, int) comp" where
  "quicklist2_node_size vs entrySizes node =
     (case node of (i, enc) \<Rightarrow>
      if enc = QuicklistNodeContainerPlain then bind (index_list vs i) sizeOfString
      else bind (index_list entrySizes i) (\<lambda>ss. ret (4 + 2 + 1 + int (sum_list ss))))"

definition sizeOfQuicklist2 :: "bytes list \<Rightarrow> nat list \<Rightarrow> nat list list \<Rightarrow> ('s, int) comp" where
  "sizeOfQuicklist2 vs encs entrySizes =
     (let size = 2 * sizeOfPointer + 2 * sizeOfLong + 2 * 4;
          nodeOverhead = 3 * sizeOfPointer + sizeOfLong + 4 in
      sum_comp (quicklist2_node_size vs entrySizes) (enumerate 0 encs) (size + nodeOverhead * int (length encs)))"

definition sizeOfList :: "bytes list \<Rightarrow> ('s, int) comp" where
  "sizeOfList vs =
     (let size = 5 * sizeOfPointer + sizeOfLong; entryHeadSize = 3 * sizeOfPointer in
      sum_comp sizeOfString vs (size + int (length vs) * entryHeadSize))"

text \<open>\<open>obj.Extra.(*model.QuicklistDetail)\<close> panics on any other detail.\<close>

definition sizeOfListObject :: "base_object \<Rightarrow> bytes list \<Rightarrow> ('s, int) comp" where
  "sizeOfListObject base vs =
     (if obj_encoding base = QuickListEncoding then
        (case extra base of QuicklistDetail zls \<Rightarrow> ret (sizeOfQuicklist zls) | _ \<Rightarrow> panic TypeAssertion)
      else if obj_encoding base = ListEncoding then sizeOfList vs
      else if obj_encoding base = ZipListEncoding then ret (sizeOfZiplist vs)
      else if obj_encoding base = QuickList2Encoding then
        (case extra base of Quicklist2Detail encs sizes \<Rightarrow> sizeOfQuicklist2 vs encs sizes | _ \<Rightarrow> panic TypeAssertion)
      else ret 0)"

section \<open>Hashes, sets, sorted sets\<close>

definition sizeOfHashObject :: "base_object \<Rightarrow> bytes gomap \<Rightarrow> ('s, int) comp" where
  "sizeOfHashObject base hash =
     (if obj_encoding base = ZipListEncoding then
        (case extra base of ZiplistDetail n \<Rightarrow> ret (int n) | _ \<Rightarrow> panic TypeAssertion)
      else if obj_encoding base = ListPackEncoding then
        (case extra base of ListpackDetail n \<Rightarrow> ret (int n) | _ \<Rightarrow> panic TypeAssertion)
      else
        sum_comp (\<lambda>(k, v). bind (sizeOfString k) (\<lambda>n1. bind (sizeOfString v) (\<lambda>n2.
          ret (hashTableEntryOverhead + n1 + n2)))) hash (hashtableOverhead (length hash)))"

definition sizeOfSetObject :: "base_object \<Rightarrow> bytes list \<Rightarrow> ('s, int) comp" where
  "sizeOfSetObject base members =
     (if obj_encoding base = IntSetEncoding then
        (case extra base of IntsetDetail n \<Rightarrow> ret (int n) | _ \<Rightarrow> panic TypeAssertion)
      else if obj_encoding base = ListPackEncoding then
        (case extra base of ListpackDetail n \<Rightarrow> ret (int n) | _ \<Rightarrow> panic TypeAssertion)
      else
        sum_comp (\<lambda>v. bind (sizeOfString v) (\<lambda>n. ret (hashTableEntryOverhead + n))) members
          (hashtableOverhead (length members)))"

definition skipListOverhead :: "nat \<Rightarrow> int" where
  "skipListOverhead n = 2 * sizeOfPointer + hashtableOverhead n + (2 * sizeOfPointer + 16)"

text \<open>\<open>int(math.Round(float64(16) * 1.33))\<close> is 21.\<close>

definition skipListEntryOverhead :: int where
  "skipListEntryOverhead = hashTableEntryOverhead + 2 * sizeOfPointer + 8 + 21"

definition sizeOfZSetObject :: "base_object \<Rightarrow> (bytes \<times> f64) list \<Rightarrow> ('s, int) comp" where
  "sizeOfZSetObject base entries =
     (if obj_encoding base = ZipListEncoding then
        (case extra base of ZiplistDetail n \<Rightarrow> ret (int n) | _ \<Rightarrow> panic TypeAssertion)
      else if obj_encoding base = ListPackEncoding then
        (case extra base of ListpackDetail n \<Rightarrow> ret (int n) | _ \<Rightarrow> panic TypeAssertion)
      else
        sum_comp (\<lambda>(member, score). bind (sizeOfString member) (\<lambda>n. ret (n + 8 + skipListEntryOverhead)))
          entries (skipListOverhead (length entries)))"

section \<open>Streams\<close>

text \<open>\<open>int(float64(n) * 2.5)\<close>, exact for every length.\<close>

definition sizeOfStreamRaxTree :: "nat \<Rightarrow> int" where
  "sizeOfStreamRaxTree elementCount =
     (let nodeCount = int (5 * elementCount div 2) in
      16 * int elementCount + 4 * nodeCount + 30 * sizeOfLong * nodeCount)"

definition sizeOfStreamConsumer :: "stream_consumer \<Rightarrow> ('s, int) comp" where
  "sizeOfStreamConsumer consumer =
     bind (sizeOfString (consumer_name consumer)) (\<lambda>n.
     ret (sizeOfPointer * 2 + 8 + n + sizeOfStreamRaxTree (length (consumer_pending consumer))))"

definition sizeOfStreamGroup :: "nat \<Rightarrow> stream_group \<Rightarrow> ('s, int) comp" where
  "sizeOfStreamGroup version g =
     (let pendingCount = length (group_pending g) in
      sum_comp sizeOfStreamConsumer (group_consumers g)
        (sizeOfPointer * 2 + 16 + (if 2 \<le> version then 8 else 0) +
         sizeOfStreamRaxTree pendingCount + int pendingCount * (sizeOfPointer + 8 * 2)))"

definition sizeOfStreamObject :: "stream \<Rightarrow> ('s, int) comp" where
  "sizeOfStreamObject s =
     sum_comp (sizeOfStreamGroup (stream_version s)) (stream_groups s)
       (sizeOfPointer * 2 + 8 + 16 + sizeOfPointer + 8 * 2 + sizeOfStreamRaxTree (length (stream_entries s)) +
        (if 2 \<le> stream_version s then 16 * 2 + 8 else 0))"

section \<open>Objects\<close>

fun value_size :: "'v redis_object \<Rightarrow> ('s, int) comp" where
  "value_size (StringObject b v) = sizeOfString v"
| "value_size (ListObject b vs) = sizeOfListObject b vs"
| "value_size (SetObject b ms) = sizeOfSetObject b ms"
| "value_size (HashObject b h e) = sizeOfHashObject b h"
| "value_size (ZSetObject b es) = sizeOfZSetObject b es"
| "value_size (StreamObject b s) = sizeOfStreamObject s"
| "value_size _ = ret 0"

definition SizeOfObject :: "'v redis_object \<Rightarrow> ('s, int) comp" where
  "SizeOfObject obj =
     bind (topLevelObjectOverhead (GetKey obj) (GetExpiration obj \<noteq> None)) (\<lambda>size.
     bind (value_size obj) (\<lambda>n. ret (size + n)))"


section \<open>Allocation classes are found by the binary search\<close>

lemma sort_search_step:
  "i < j \<Longrightarrow> sort_search f i j =
     (if f ((i + j) div 2) then sort_search f i ((i + j) div 2) else sort_search f ((i + j) div 2 + 1) j)"
  "\<not> i < j \<Longrightarrow> sort_search f i j = i"
  by (subst sort_search.simps, simp add: Let_def)+

lemma sort_search_spec:
  assumes mono: "\<forall>a b. a \<le> b \<longrightarrow> b < n \<longrightarrow> f a \<longrightarrow> f b" and "j \<le> n"
    and "i \<le> j" and "\<forall>k < i. \<not> f k" and "\<forall>k. j \<le> k \<longrightarrow> k < n \<longrightarrow> f k"
  shows "sort_search f i j \<le> n \<and> (\<forall>k < sort_search f i j. \<not> f k) \<and>
    (\<forall>k. sort_search f i j \<le> k \<longrightarrow> k < n \<longrightarrow> f k)"
  using assms(2-)
proof (induction "j - i" arbitrary: i j rule: less_induct)
  case less
  show ?case
  proof (cases "i < j")
    case False
    with less.prems show ?thesis by (simp add: sort_search_step(2))
  next
    case True
    define h where "h = (i + j) div 2"
    have h: "i \<le> h" "h < j" "h < n" using True less.prems(1) by (auto simp: h_def)
    show ?thesis
    proof (cases "f h")
      case fh: True
      have "\<forall>k. h \<le> k \<longrightarrow> k < n \<longrightarrow> f k" using mono fh by blast
      with less.hyps [of h i] h less.prems(3) show ?thesis
        by (simp add: sort_search_step(1) [OF True] fh [unfolded h_def] flip: h_def)
    next
      case fh: False
      have "\<forall>k < h + 1. \<not> f k" using mono fh h(3) by (metis Suc_eq_plus1 less_Suc_eq_le)
      with less.hyps [of j "h + 1"] h less.prems(1,4) show ?thesis
        by (simp add: sort_search_step(1) [OF True] fh [unfolded h_def] flip: h_def)
    qed
  qed
qed

lemma find_first:
  assumes "r \<le> length xs" and "\<forall>k < r. \<not> P (xs ! k)" and "\<forall>k. r \<le> k \<longrightarrow> k < length xs \<longrightarrow> P (xs ! k)"
  shows "List.find P xs = (if r < length xs then Some (xs ! r) else None)"
proof (cases "r < length xs")
  case True
  then show ?thesis using assms by (auto simp: find_Some_iff)
next
  case False
  with assms show ?thesis by (auto simp: find_None_iff in_set_conv_nth)
qed

lemma sorted_classes: "sorted jemallocClasses"
  unfolding jemallocClasses_def by (simp only: sorted2 sorted1 simp_thms) simp

text \<open>
  C35. The binary search finds the allocation class that a search from the smallest one would: the smallest
  class that holds the request; a request above the largest class is a panic.
\<close>

theorem getJemallocSize_first_fit:
  "getJemallocSize req s = (case List.find (\<lambda>c. req \<le> c) jemallocClasses of
     Some c \<Rightarrow> (Ok c, s)
   | None \<Rightarrow> (Panic IndexRange, s))"
proof -
  let ?n = "length jemallocClasses" and ?f = "\<lambda>i. req \<le> jemallocClasses ! i"
  define r where "r = sort_search ?f 0 ?n"
  have "r \<le> ?n \<and> (\<forall>k < r. \<not> ?f k) \<and> (\<forall>k. r \<le> k \<longrightarrow> k < ?n \<longrightarrow> ?f k)"
    unfolding r_def
    by (rule sort_search_spec) (auto intro: order_trans sorted_nth_mono [OF sorted_classes])
  then have "List.find (\<lambda>c. req \<le> c) jemallocClasses = (if r < ?n then Some (jemallocClasses ! r) else None)"
    by (intro find_first) auto
  then show ?thesis by (simp add: getJemallocSize_def r_def [symmetric] Let_def ret_def panic_def)
qed

lemma next_power_loop_bounds:
  "n < next_power_loop n k \<and> next_power_loop n k \<le> max (2 ^ k) (2 * n) \<and> (\<exists>j. next_power_loop n k = 2 ^ j)"
proof (induction n k rule: next_power_loop.induct)
  case (1 n k)
  show ?case
  proof (cases "2 ^ k \<le> n")
    case True
    then have "next_power_loop n k = next_power_loop n (k + 1)" by (simp add: next_power_loop.simps [of n k])
    with "1.IH" [OF True] True show ?thesis by auto
  next
    case False
    then have "next_power_loop n k = 2 ^ k" by (simp add: next_power_loop.simps [of n k])
    with False show ?thesis by auto
  qed
qed

text \<open>
  The table size that the estimate assumes for \<open>n\<close> entries is a power of two above \<open>n\<close>, at most twice
  \<open>n\<close> (and 1 for an empty table); the loop that finds it ends.
\<close>

theorem nextPower_bounds:
  "n < nextPower n \<and> nextPower n \<le> max 1 (2 * n) \<and> (\<exists>j. nextPower n = 2 ^ j)"
  using next_power_loop_bounds [of n 0] by (simp add: nextPower_def)

section \<open>When the estimate panics\<close>

text \<open>Computations that leave the state alone, and a sum of them.\<close>

definition stateless :: "('s, 'a) comp \<Rightarrow> bool" where
  "stateless m \<longleftrightarrow> (\<forall>s. snd (m s) = s)"

named_theorems stateless_intros \<open>computations that leave the state alone\<close>

lemma stateless_basic [stateless_intros]: "stateless (ret a)" "stateless (panic p)"
  by (simp_all add: stateless_def ret_def panic_def)

lemma stateless_bind [stateless_intros]:
  "stateless m \<Longrightarrow> (\<And>a. stateless (f a)) \<Longrightarrow> stateless (bind m f)"
  unfolding stateless_def bind_def by (auto split: result.splits prod.splits) (metis snd_conv)+

lemma stateless_if [stateless_intros]: "stateless m \<Longrightarrow> stateless n \<Longrightarrow> stateless (if b then m else n)"
  by simp

lemma sum_comp_snoc: "sum_comp f (xs @ [x]) a = bind (sum_comp f xs a) (\<lambda>n. bind (f x) (\<lambda>k. ret (n + k)))"
  by (simp add: sum_comp_def)

lemma sum_comp_Nil: "sum_comp f [] a = ret a"
  by (simp add: sum_comp_def)

lemma sum_comp_ok_iff:
  assumes "\<And>x. stateless (f x)"
  shows "(\<exists>n. sum_comp f xs a s = (Ok n, s)) \<longleftrightarrow> (\<forall>x \<in> set xs. \<exists>k. f x s = (Ok k, s))"
    and "stateless (sum_comp f xs a)"
proof -
  show st: "stateless (sum_comp f xs a)" for xs
    using assms by (induction xs rule: rev_induct) (auto simp: sum_comp_Nil sum_comp_snoc intro: stateless_intros)
  show "(\<exists>n. sum_comp f xs a s = (Ok n, s)) \<longleftrightarrow> (\<forall>x \<in> set xs. \<exists>k. f x s = (Ok k, s))"
  proof (induction xs rule: rev_induct)
    case Nil
    then show ?case by (simp add: sum_comp_Nil ret_def)
  next
    case (snoc x xs)
    obtain r where r: "sum_comp f xs a s = (r, s)" using st [of xs] unfolding stateless_def by (metis prod.collapse)
    obtain q where q: "f x s = (q, s)" using assms [of x] unfolding stateless_def by (metis prod.collapse)
    show ?case using snoc.IH r q
      by (cases r; cases q) (auto simp: sum_comp_snoc bind_def ret_def)
  qed
qed

lemma stateless_sizes [stateless_intros]:
  "stateless (getJemallocSize n)" "stateless (sizeOfString v)" "stateless (index_list xs i)"
proof -
  show g: "stateless (getJemallocSize n)" for n
    unfolding getJemallocSize_def Let_def by (intro stateless_intros)
  show "stateless (sizeOfString v)" unfolding sizeOfString_def Let_def by (intro stateless_intros g)
  show "stateless (index_list xs i)" unfolding index_list_def by (intro stateless_intros)
qed

lemma sizeOfString_ok:
  assumes "length v < 2 ^ 62"
  shows "\<exists>n. sizeOfString v s = (Ok n, s)"
proof -
  have "8070450532247928832 \<in> set jemallocClasses" unfolding jemallocClasses_def by simp
  then have "\<exists>n. getJemallocSize k s = (Ok n, s)" if "k \<le> 8070450532247928832" for k
    using that unfolding getJemallocSize_first_fit
    by (cases "List.find (\<lambda>c. k \<le> c) jemallocClasses") (auto simp: find_None_iff)
  with assms show ?thesis by (simp add: sizeOfString_def Let_def ret_def)
qed

text \<open>
  C32. When the size of a quicklist of plain and packed nodes can be estimated: exactly when every plain
  node stands at an index below the number of entries, and every packed node at an index below the number
  of packed nodes. In particular the estimate, and with it the parsing of the whole file, panics on every
  such list in which a plain node stands in front of the last packed one.
\<close>

theorem quicklist2_size_iff:
  assumes "\<forall>v \<in> set vs. length v < 2 ^ 62"
  shows "(\<exists>n. sizeOfQuicklist2 vs encs entrySizes s = (Ok n, s)) \<longleftrightarrow>
    (\<forall>i < length encs. i < (if encs ! i = QuicklistNodeContainerPlain then length vs else length entrySizes))"
proof -
  have st: "stateless (quicklist2_node_size vs entrySizes node)" for node
    by (cases node) (auto simp: quicklist2_node_size_def intro!: stateless_intros)
  have node: "(\<exists>k. quicklist2_node_size vs entrySizes (i, enc) s = (Ok k, s)) \<longleftrightarrow>
      i < (if enc = QuicklistNodeContainerPlain then length vs else length entrySizes)" for i enc
    using sizeOfString_ok [of "vs ! i" s] assms
    by (force simp: quicklist2_node_size_def index_list_def bind_def ret_def panic_def)
  have "(\<exists>n. sizeOfQuicklist2 vs encs entrySizes s = (Ok n, s)) \<longleftrightarrow>
      (\<forall>(i, enc) \<in> set (enumerate 0 encs). i < (if enc = QuicklistNodeContainerPlain then length vs else length entrySizes))"
    unfolding sizeOfQuicklist2_def Let_def sum_comp_ok_iff(1) [OF st]
    by (intro ball_cong refl) (simp only: split_paired_all prod.case node)
  also have "\<dots> \<longleftrightarrow> (\<forall>i < length encs. i < (if encs ! i = QuicklistNodeContainerPlain then length vs else length entrySizes))"
    by (auto simp: in_set_enumerate_eq)
  finally show ?thesis .
qed

theorem quicklist2_size_iff_witness:
  "\<not> (\<exists>n. sizeOfQuicklist2 [[97], [98]] [QuicklistNodeContainerPlain, QuicklistNodeContainerPacked] [[3]] () = (Ok n, ()))"
  using quicklist2_size_iff [of "[[97], [98]]" "[QuicklistNodeContainerPlain, QuicklistNodeContainerPacked]" "[[3]]" "()"]
  by (auto simp: QuicklistNodeContainerPlain_def QuicklistNodeContainerPacked_def)

end
