(* ===== verification/RdbParse.thy ===== *)
theory RdbParse
  imports ModuleObj Memprofiler
begin

text \<open>
  The decoder itself (\<open>core/decoder.go\<close>): the header check, the switch over the type of an object, the
  loop over opcodes and objects with the state it keeps for the next object, and \<open>Parse\<close>, which
  turns a panic into an error. The callback is a function of the objects it has been given so far
  and the next one; the handlers of module types and \<open>strconv.ParseFloat\<close> are arguments.
\<close>

section \<open>Header\<close>

definition magicNumberRedis :: bytes where "magicNumberRedis = ascii ''REDIS''"
definition magicNumberValkey :: bytes where "magicNumberValkey = ascii ''VALKEY''"
definition minVersion :: int where "minVersion = 1"
definition maxVersion :: int where "maxVersion = 12"
definition minVersionValkey :: int where "minVersionValkey = 80"
definition maxVersionValkey :: int where "maxVersionValkey = 80"

text \<open>The text of the header behind the magic number, and whether the file is one of Valkey.\<close>

definition header_version :: "bytes \<Rightarrow> (bool \<times> bytes) option" where
  "header_version header =
     (if take 5 header = magicNumberRedis then Some (False, drop 5 header)
      else if take 6 header = magicNumberValkey then Some (True, drop 6 header)
      else None)"

definition version_ok :: "bool \<Rightarrow> int \<Rightarrow> bool" where
  "version_ok vk version \<longleftrightarrow>
     \<not> (\<not> vk \<and> (version < minVersion \<or> maxVersion < version)) \<and>
     \<not> (vk \<and> (version < minVersionValkey \<or> maxVersionValkey < version))"

definition check_version :: "bytes \<Rightarrow> unit dec" where
  "check_version header =
     (case header_version header of
        None \<Rightarrow> throw (ErrMsg ''file is not a RDB file'')
      | Some (vk, versionString) \<Rightarrow>
          seq (modify (\<lambda>d. d\<lparr>valkey := vk\<rparr>)) (
          case parse_int 64 versionString of
            None \<Rightarrow> throw (ErrMsg '' is not valid version number'')
          | Some version \<Rightarrow>
              if \<not> version_ok vk version then throw (ErrMsg ''cannot parse version: '')
              else modify (\<lambda>d. d\<lparr>rdbVersion := version\<rparr>)))"

definition checkHeader :: "unit dec" where
  "checkHeader d =
     (case readFull 9 d of
        (Err IoEOF, d') \<Rightarrow> (Err (ErrMsg ''empty file''), d')
      | (Err e, d') \<Rightarrow> (Err (ErrWrap ''io error'' e), d')
      | (Panic p, d') \<Rightarrow> (Panic p, d')
      | (Ok header, d') \<Rightarrow> check_version header d')"

section \<open>Objects\<close>

definition with_extra :: "base_object \<Rightarrow> detail \<Rightarrow> base_object" where
  "with_extra base x = base\<lparr>extra := x\<rparr>"

definition readObject ::
  "'v handlers \<Rightarrow> (bytes \<Rightarrow> f64 option) \<Rightarrow> byte \<Rightarrow> base_object \<Rightarrow> 'v redis_object dec" where
  "readObject handlers parseFloat flag base0 =
    (let base = base0\<lparr>obj_encoding := encodingMap flag\<rparr> in
     if flag = typeString then bind readString (\<lambda>bs. ret (StringObject base bs))
     else if flag = typeList then bind readList (\<lambda>vs. ret (ListObject base vs))
     else if flag = typeSet then bind readSet (\<lambda>ms. ret (SetObject base ms))
     else if flag = typeSetIntSet then
       bind readIntSet (\<lambda>(ms, x). ret (SetObject (with_extra base x) ms))
     else if flag = typeHash then bind readHashMap (\<lambda>h. ret (HashObject base h []))
     else if flag = typeListZipList then bind readZipList (\<lambda>vs. ret (ListObject base vs))
     else if flag = typeListQuickList then
       bind readQuickList (\<lambda>(vs, x). ret (ListObject (with_extra base x) vs))
     else if flag = typeListQuickList2 then
       bind readQuickList2 (\<lambda>(vs, x). ret (ListObject (with_extra base x) vs))
     else if flag = typeHashZipMap then bind readZipMapHash (\<lambda>h. ret (HashObject base h []))
     else if flag = typeHashZipList then
       bind readZipListHash (\<lambda>(h, x). ret (HashObject (with_extra base x) h []))
     else if flag = typeHashListPack then
       bind readListPackHash (\<lambda>(h, x). ret (HashObject (with_extra base x) h []))
     else if flag = typeZset then bind (readZSet parseFloat False) (\<lambda>es. ret (ZSetObject base es))
     else if flag = typeZset2 then bind (readZSet parseFloat True) (\<lambda>es. ret (ZSetObject base es))
     else if flag = typeZsetZipList then
       bind (readZipListZSet parseFloat) (\<lambda>(es, x). ret (ZSetObject (with_extra base x) es))
     else if flag = typeZsetListPack then
       bind (readListPackZSet parseFloat) (\<lambda>(es, x). ret (ZSetObject (with_extra base x) es))
     else if flag = typeStreamListPacks \<or> flag = typeStreamListPacks2 \<or> flag = typeStreamListPacks3 then
       bind (readStreamListPacks
         (if flag = typeStreamListPacks2 then 2 else if flag = typeStreamListPacks3 then 3 else 1))
         (\<lambda>s. ret (StreamObject base s))
     else if flag = typeModule2 then
       bind (readModuleType handlers) (\<lambda>(t, val). ret (ModuleTypeObject base (map (\<lambda>b. char_of (unat b)) t) val))
     else if flag = typeSetListPack then
       bind readListPackSet (\<lambda>(ms, x). ret (SetObject (with_extra base x) ms))
     else if flag = typeHashWithHfe \<or> flag = typeHashWithHfeRc then
       bind (gets valkey) (\<lambda>vk.
       bind (if vk then readHashMapExValkey else readHashMapEx (flag = typeHashWithHfeRc)) (\<lambda>(h, e).
       ret (HashObject base h e)))
     else if flag = typeHashListPackWithHfe \<or> flag = typeHashListPackWithHfeRc then
       bind (readListPackHashEx (flag = typeHashListPackWithHfeRc)) (\<lambda>((h, e), x).
       ret (HashObject (with_extra base x) h e))
     else throw (ErrMsg ''unknown type flag: ''))"

section \<open>The loop\<close>

text \<open>The decoder and the local variables of \<open>parse\<close>; what the callback has been given.\<close>

record 'v pstate =
  pdec :: decoder
  dbIndex :: int
  expireMs :: int
  lru :: "int option"
  lfu :: "int option"
  delivered :: "'v redis_object list"

type_synonym 'v callback = "'v redis_object list \<Rightarrow> 'v redis_object \<Rightarrow> bool"

definition with_dec :: "'a dec \<Rightarrow> ('v pstate, 'a) comp" where
  "with_dec m s = (case m (pdec s) of (r, d) \<Rightarrow> (r, s\<lparr>pdec := d\<rparr>))"

definition deliver :: "'v callback \<Rightarrow> 'v redis_object \<Rightarrow> ('v pstate, bool) comp" where
  "deliver cb obj s = (Ok (cb (delivered s) obj), s\<lparr>delivered := delivered s @ [obj]\<rparr>)"

text \<open>
  \<open>if err != nil { err = ...; break }\<close>: the assignment is to the variable of the block, and the loop is
  left as at the end of the file. A computation for one round of the loop returns whether to go on.
\<close>

definition break_on_err :: "('v pstate, 'a) comp \<Rightarrow> ('a \<Rightarrow> ('v pstate, bool) comp) \<Rightarrow> ('v pstate, bool) comp" where
  "break_on_err m f s = (case m s of
     (Ok x, s') \<Rightarrow> f x s'
   | (Err e, s') \<Rightarrow> (Ok False, s')
   | (Panic p, s') \<Rightarrow> (Panic p, s'))"

definition special_only :: "('v pstate, bool) comp \<Rightarrow> ('v pstate, bool) comp" where
  "special_only m = bind (gets (\<lambda>s. withSpecialOpCode (pdec s))) (\<lambda>sp. if sp then m else ret True)"

definition parse_select_db :: "('v pstate, bool) comp" where
  "parse_select_db =
     bind (with_dec readLen) (\<lambda>dbIndex64.
     seq (modify (\<lambda>s. s\<lparr>dbIndex := sint dbIndex64\<rparr>)) (ret True))"

definition parse_expire_time :: "('v pstate, bool) comp" where
  "parse_expire_time =
     bind (with_dec (readFull 4)) (\<lambda>bs.
     seq (modify (\<lambda>s. s\<lparr>expireMs := uint (le_word bs :: u32) * 1000\<rparr>)) (ret True))"

definition parse_expire_time_ms :: "('v pstate, bool) comp" where
  "parse_expire_time_ms =
     bind (with_dec (readFull 8)) (\<lambda>bs.
     seq (modify (\<lambda>s. s\<lparr>expireMs := sint (le_word bs :: u64)\<rparr>)) (ret True))"

definition parse_resize_db :: "'v callback \<Rightarrow> ('v pstate, bool) comp" where
  "parse_resize_db cb =
     bind (with_dec readLen) (\<lambda>keyCount.
     break_on_err (with_dec readLen) (\<lambda>ttlCount.
     special_only (
       bind (gets dbIndex) (\<lambda>i.
       deliver cb (DBSizeObject (empty_base\<lparr>db := i\<rparr>) keyCount ttlCount)))))"

definition parse_aux :: "'v callback \<Rightarrow> ('v pstate, bool) comp" where
  "parse_aux cb =
     bind (with_dec readString) (\<lambda>key.
     break_on_err (with_dec readString) (\<lambda>v.
     special_only (
       deliver cb (AuxObject (empty_base\<lparr>obj_type := AuxType, obj_key := key\<rparr>) v))))"

definition parse_freq :: "('v pstate, bool) comp" where
  "parse_freq =
     bind (with_dec readByte) (\<lambda>b.
     seq (modify (\<lambda>s. s\<lparr>lfu := Some (uint b)\<rparr>)) (ret True))"

definition parse_idle :: "('v pstate, bool) comp" where
  "parse_idle =
     bind (with_dec readLen) (\<lambda>idle.
     seq (modify (\<lambda>s. s\<lparr>lru := Some (sint idle)\<rparr>)) (ret True))"

definition parse_function :: "'v callback \<Rightarrow> ('v pstate, bool) comp" where
  "parse_function cb =
     bind (with_dec readString) (\<lambda>functionsLua.
     special_only (
       deliver cb (FunctionsObject (empty_base\<lparr>obj_key := ascii ''functions'', obj_type := FunctionsType,
         obj_encoding := ''functions''\<rparr>) functionsLua)))"

definition parse_slot_info :: "('v pstate, bool) comp" where
  "parse_slot_info =
     bind (gets (\<lambda>s. valkey (pdec s))) (\<lambda>vk.
     if \<not> vk then throw (ErrMsg ''unsupported opcode 244 in Redis RDB version '')
     else
       bind (with_dec readLen) (\<lambda>slot_id.
       bind (with_dec readLen) (\<lambda>slot_size.
       bind (with_dec readLen) (\<lambda>expires_slot_size.
       ret True))))"

text \<open>The ranges are formatted into a slice made beforehand; only its size matters.\<close>

definition slot_ranges :: "unit dec" where
  "slot_ranges =
     bind readString (\<lambda>job.
     bind readLen (\<lambda>num_slot_ranges.
     seq (make_check 16 (uint num_slot_ranges)) (
     iter_comp (unat num_slot_ranges) (\<lambda>_.
       bind readLen (\<lambda>slot_from.
       bind readLen (\<lambda>slot_to. ret ()))) ())))"

definition parse_slot_import :: "('v pstate, bool) comp" where
  "parse_slot_import =
     bind (gets (\<lambda>s. valkey (pdec s))) (\<lambda>vk.
     if vk then seq (with_dec slot_ranges) (ret True)
     else throw (ErrMsg ''unsupported opcode: RDB_OPCODE_KEY_META (243) in Redis RDB version ''))"

text \<open>
  The base of the next object takes the expiration, idle time and frequency read before it, and resets
  them. \<open>time.Unix(0, expireMs * 1000000)\<close> is computed in \<open>int64\<close>.
\<close>

definition expiration_of :: "int \<Rightarrow> int option" where
  "expiration_of ms = (if 0 < ms then Some (sint (of_int (ms * 1000000) :: u64)) else None)"

definition new_base :: "bytes \<Rightarrow> ('v pstate, base_object) comp" where
  "new_base key s =
     (Ok (empty_base\<lparr>db := dbIndex s, obj_key := key, expiration := expiration_of (expireMs s),
        idleTime := lru s, freq := lfu s\<rparr>),
      s\<lparr>expireMs := (if 0 < expireMs s then 0 else expireMs s), lru := None, lfu := None\<rparr>)"

definition parse_object ::
  "'v handlers \<Rightarrow> (bytes \<Rightarrow> f64 option) \<Rightarrow> 'v callback \<Rightarrow> byte \<Rightarrow> ('v pstate, bool) comp" where
  "parse_object handlers parseFloat cb b =
     bind (with_dec readString) (\<lambda>key.
     bind (new_base key) (\<lambda>base.
     bind (with_dec (readObject handlers parseFloat b base)) (\<lambda>obj.
     bind (SizeOfObject obj) (\<lambda>n.
     deliver cb (map_base (\<lambda>o1. o1\<lparr>obj_size := n, obj_type := GetType obj\<rparr>) obj)))))"

definition parse_step ::
  "'v handlers \<Rightarrow> (bytes \<Rightarrow> f64 option) \<Rightarrow> 'v callback \<Rightarrow> ('v pstate, bool) comp" where
  "parse_step handlers parseFloat cb =
     bind (with_dec readByte) (\<lambda>b.
     if b = opCodeEOF then ret False
     else if b = opCodeSelectDB then parse_select_db
     else if b = opCodeExpireTime then parse_expire_time
     else if b = opCodeExpireTimeMs then parse_expire_time_ms
     else if b = opCodeResizeDB then parse_resize_db cb
     else if b = opCodeAux then parse_aux cb
     else if b = opCodeFreq then parse_freq
     else if b = opCodeIdle then parse_idle
     else if b = opCodeModuleAux then seq (with_dec (readModuleType handlers)) (ret True)
     else if b = opCodeFunction then parse_function cb
     else if b = opCodeSlotInfo then parse_slot_info
     else if b = opCodeSlotImport then parse_slot_import
     else parse_object handlers parseFloat cb b)"

text \<open>
  The loop, with as many rounds as the fuel allows: \<open>None\<close> when that is not enough, which theorem
  \<open>parse_loop_terminates\<close> excludes. Behind the loop the checksum is read and not looked at.
\<close>

fun parse_loop :: "nat \<Rightarrow> ('v pstate, bool) comp \<Rightarrow> 'v pstate \<Rightarrow> (unit result \<times> 'v pstate) option" where
  "parse_loop 0 step s = None"
| "parse_loop (Suc n) step s =
     (case step s of
        (Ok True, s') \<Rightarrow> parse_loop n step s'
      | (Ok False, s') \<Rightarrow> Some (Ok (), s')
      | (Err e, s') \<Rightarrow> Some (Err e, s')
      | (Panic p, s') \<Rightarrow> Some (Panic p, s'))"

definition loop_fuel :: "'v pstate \<Rightarrow> nat" where
  "loop_fuel s = Suc (length (input (pdec s)))"

definition parse ::
  "'v handlers \<Rightarrow> (bytes \<Rightarrow> f64 option) \<Rightarrow> 'v callback \<Rightarrow> ('v pstate, unit) comp" where
  "parse handlers parseFloat cb s =
     (case parse_loop (loop_fuel s) (parse_step handlers parseFloat cb) s of
        None \<Rightarrow> (Panic OutOfFuel, s)
      | Some (Ok (), s') \<Rightarrow> seq (ignore_err [] (with_dec (readFull 8))) (ret ()) s'
      | Some (r, s') \<Rightarrow> (r, s'))"

definition parse_start :: "decoder \<Rightarrow> 'v pstate" where
  "parse_start dec = \<lparr>pdec = dec, dbIndex = 0, expireMs = 0, lru = None, lfu = None, delivered = []\<rparr>"

text \<open>\<open>defer func() { if err2 := recover(); err2 != nil { err = ... } }()\<close>\<close>

definition recovered :: "unit result \<times> 's \<Rightarrow> unit result \<times> 's" where
  "recovered rs = (case rs of (Panic p, s) \<Rightarrow> (Err (ErrRecovered p), s) | _ \<Rightarrow> rs)"

definition Parse ::
  "'v handlers \<Rightarrow> (bytes \<Rightarrow> f64 option) \<Rightarrow> 'v callback \<Rightarrow> decoder \<Rightarrow> unit result \<times> 'v pstate" where
  "Parse handlers parseFloat cb dec =
     recovered (seq (with_dec checkHeader) (parse handlers parseFloat cb) (parse_start dec))"


section \<open>Reading never goes back\<close>

text \<open>
  \<open>reads m\<close>: whatever a round does, it has taken a prefix off the input, and counted it exactly as long as
  the input is not exhausted.
\<close>

definition took_input :: "decoder \<Rightarrow> bytes \<Rightarrow> decoder \<Rightarrow> bool" where
  "took_input d p d' \<longleftrightarrow> input d = p @ input d' \<and> readCount d' \<le> readCount d + length p \<and>
     (input d' \<noteq> [] \<longrightarrow> readCount d' = readCount d + length p)"

definition reads :: "('v pstate, 'a) comp \<Rightarrow> bool" where
  "reads m \<longleftrightarrow> (\<forall>s r s'. m s = (r, s') \<longrightarrow> (\<exists>p. took_input (pdec s) p (pdec s')))"

named_theorems reads_intros \<open>rounds that only take input\<close>

lemma took_input_refl: "took_input d [] d"
  by (simp add: took_input_def)

lemma took_input_trans: "took_input d p d1 \<Longrightarrow> took_input d1 q d2 \<Longrightarrow> took_input d (p @ q) d2"
  by (auto simp: took_input_def)

lemma took_input_took: "took d p d' c \<Longrightarrow> took_input d p d'"
  by (auto simp: took_def took_input_def)

lemma readsI: "(\<And>s r s'. m s = (r, s') \<Longrightarrow> \<exists>p. took_input (pdec s) p (pdec s')) \<Longrightarrow> reads m"
  by (simp add: reads_def)

lemma readsD: "reads m \<Longrightarrow> m s = (r, s') \<Longrightarrow> \<exists>p. took_input (pdec s) p (pdec s')"
  unfolding reads_def by blast

lemma reads_same: "(\<And>s r s'. m s = (r, s') \<Longrightarrow> pdec s' = pdec s) \<Longrightarrow> reads m"
  by (rule readsI) (metis took_input_refl)

lemma reads_basic [reads_intros]:
  "reads (ret a)" "reads (throw e)" "reads (panic q)" "reads (gets f)" "reads (deliver cb obj)" "reads (new_base key)"
  "reads (make_check k n)"
  by (rule reads_same, auto simp: monad_defs deliver_def new_base_def make_check_def split: if_splits)+

lemma reads_modify [reads_intros]: "(\<And>s. pdec (f s) = pdec s) \<Longrightarrow> reads (modify f)"
  by (rule reads_same) (auto simp: modify_def)

lemma reads_stateless: "stateless m \<Longrightarrow> reads m"
  by (rule reads_same) (metis stateless_def snd_conv)

lemma reads_bind [reads_intros]:
  assumes "reads m" and "\<And>a. reads (f a)"
  shows "reads (bind m f)"
proof (rule readsI)
  fix s r s2 assume run: "bind m f s = (r, s2)"
  obtain r1 s1 where m1: "m s = (r1, s1)" by fastforce
  from readsD [OF assms(1) m1] obtain p where p: "took_input (pdec s) p (pdec s1)" by blast
  show "\<exists>p. took_input (pdec s) p (pdec s2)"
  proof (cases r1)
    case (Ok a)
    with run m1 have "f a s1 = (r, s2)" by (simp add: bind_Ok)
    from readsD [OF assms(2) this] p show ?thesis by (blast intro: took_input_trans)
  qed (use run m1 p in \<open>auto simp: bind_def\<close>)
qed

lemma reads_seq [reads_intros]: "reads m \<Longrightarrow> reads n \<Longrightarrow> reads (seq m n)"
  unfolding seq_def by (rule reads_bind)

lemma reads_if [reads_intros]: "reads m \<Longrightarrow> reads n \<Longrightarrow> reads (if b then m else n)"
  by simp

lemma reads_with_dec [reads_intros]:
  assumes "consumes m"
  shows "reads (with_dec m)"
proof (rule readsI)
  fix s :: "'v pstate" and r s' assume "with_dec m s = (r, s')"
  then have m: "m (pdec s) = (r, pdec s')" by (auto simp: with_dec_def split: prod.splits)
  from consumesD [OF assms m] show "\<exists>p. took_input (pdec s) p (pdec s')" by (blast intro: took_input_took)
qed

lemma reads_break_on_err [reads_intros]:
  assumes "reads m" and "\<And>a. reads (f a)"
  shows "reads (break_on_err m f)"
proof (rule readsI)
  fix s r s2 assume run: "break_on_err m f s = (r, s2)"
  obtain r1 s1 where m1: "m s = (r1, s1)" by fastforce
  from readsD [OF assms(1) m1] obtain p where p: "took_input (pdec s) p (pdec s1)" by blast
  show "\<exists>p. took_input (pdec s) p (pdec s2)"
  proof (cases r1)
    case (Ok a)
    with run m1 have "f a s1 = (r, s2)" by (simp add: break_on_err_def)
    from readsD [OF assms(2) this] p show ?thesis by (blast intro: took_input_trans)
  qed (use run m1 p in \<open>auto simp: break_on_err_def\<close>)
qed

lemma reads_special_only [reads_intros]: "reads m \<Longrightarrow> reads (special_only m)"
  unfolding special_only_def by (intro reads_intros)

lemma consumes_slot_ranges [consumes_intros]: "consumes slot_ranges"
  unfolding slot_ranges_def by (intro consumes_intros)

lemma consumes_case_prod_app [consumes_intros]:
  "(\<And>a b. consumes (f a b y)) \<Longrightarrow> consumes ((case x of (a, b) \<Rightarrow> f a b) y)"
  by (cases x) simp

lemma consumes_readObject:
  assumes "reading_handlers handlers"
  shows "consumes (readObject handlers pf flag base)"
proof -
  note consumes_readModuleType [OF assms, consumes_intros]
  show ?thesis unfolding readObject_def Let_def by (intro consumes_intros)
qed

lemma stateless_sum_comp [stateless_intros]: "(\<And>x. stateless (f x)) \<Longrightarrow> stateless (sum_comp f xs a)"
  by (rule sum_comp_ok_iff(2))

lemma stateless_case_prod [stateless_intros]: "(\<And>a b. stateless (f a b)) \<Longrightarrow> stateless (case x of (a, b) \<Rightarrow> f a b)"
  by (cases x) simp

lemma stateless_case_detail [stateless_intros]:
  assumes "stateless m" and "\<And>x. stateless (f1 x)" and "\<And>x y. stateless (f2 x y)" and "\<And>x. stateless (f3 x)"
    and "\<And>x. stateless (f4 x)" and "\<And>x. stateless (f5 x)"
  shows "stateless (case d of NoDetail \<Rightarrow> m | QuicklistDetail x \<Rightarrow> f1 x | Quicklist2Detail x y \<Rightarrow> f2 x y
    | IntsetDetail x \<Rightarrow> f3 x | ZiplistDetail x \<Rightarrow> f4 x | ListpackDetail x \<Rightarrow> f5 x)"
  using assms by (cases d) simp_all

lemma stateless_SizeOfObject [stateless_intros]: "stateless (SizeOfObject obj)"
proof -
  have q: "stateless (sizeOfQuicklist2 vs encs sizes)" for vs encs sizes
    unfolding sizeOfQuicklist2_def quicklist2_node_size_def [abs_def] Let_def by (intro stateless_intros)
  have "stateless (value_size obj)"
    by (cases obj) (auto simp: sizeOfListObject_def sizeOfSetObject_def sizeOfHashObject_def sizeOfZSetObject_def
        sizeOfStreamObject_def sizeOfStreamGroup_def sizeOfStreamConsumer_def sizeOfList_def Let_def
        intro!: stateless_intros q)
  then show ?thesis unfolding SizeOfObject_def topLevelObjectOverhead_def Let_def by (intro stateless_intros)
qed

lemma reads_rounds [reads_intros]:
  "reads parse_select_db" "reads parse_expire_time" "reads parse_expire_time_ms" "reads (parse_resize_db cb)"
  "reads (parse_aux cb)" "reads parse_freq" "reads parse_idle" "reads (parse_function cb)" "reads parse_slot_info"
  "reads parse_slot_import"
  unfolding parse_select_db_def parse_expire_time_def parse_expire_time_ms_def parse_resize_db_def parse_aux_def
    parse_freq_def parse_idle_def parse_function_def parse_slot_info_def parse_slot_import_def
  by (intro reads_intros consumes_intros; simp)+

text \<open>Every round that goes on has taken at least one byte.\<close>

lemma parse_step_reads:
  assumes "reading_handlers handlers" and run: "parse_step handlers pf cb s = (r, s')"
  shows "\<exists>p. took_input (pdec s) p (pdec s') \<and> (r = Ok b \<longrightarrow> p \<noteq> [])"
proof -
  define k where "k = (\<lambda>b. if b = opCodeEOF then ret False
     else if b = opCodeSelectDB then parse_select_db
     else if b = opCodeExpireTime then parse_expire_time
     else if b = opCodeExpireTimeMs then parse_expire_time_ms
     else if b = opCodeResizeDB then parse_resize_db cb
     else if b = opCodeAux then parse_aux cb
     else if b = opCodeFreq then parse_freq
     else if b = opCodeIdle then parse_idle
     else if b = opCodeModuleAux then seq (with_dec (readModuleType handlers)) (ret True)
     else if b = opCodeFunction then parse_function cb
     else if b = opCodeSlotInfo then parse_slot_info
     else if b = opCodeSlotImport then parse_slot_import
     else parse_object handlers pf cb b)"
  have k: "reads (k b)" for b
    unfolding k_def parse_object_def
    by (intro reads_intros consumes_intros consumes_readModuleType [OF assms(1)] consumes_readObject [OF assms(1)]
        reads_stateless stateless_SizeOfObject)
  obtain r1 d1 where b: "readByte (pdec s) = (r1, d1)" by fastforce
  show ?thesis
  proof (cases r1)
    case (Ok c)
    then have rd: "k c (s\<lparr>pdec := d1\<rparr>) = (r, s')"
      using run b by (simp add: parse_step_def with_dec_def bind_def k_def)
    from readsD [OF k rd] obtain q where q: "took_input d1 q (pdec s')" by auto
    have "took_input (pdec s) [c] d1"
      using b Ok by (auto simp: readByte_def took_input_def split: list.splits)
    from took_input_trans [OF this q] show ?thesis by (intro exI [of _ "[c] @ q"]) simp
  qed (use run b in \<open>auto simp: parse_step_def with_dec_def bind_def readByte_def took_input_def split: list.splits\<close>)
qed

section \<open>The loop ends\<close>

lemma parse_loop_more: "parse_loop n step s = Some x \<Longrightarrow> parse_loop (n + m) step s = Some x"
proof (induction n arbitrary: s)
  case (Suc n)
  obtain r s' where run: "step s = (r, s')" by fastforce
  with Suc show ?case by (cases r) (auto split: bool.splits)
qed simp

lemma parse_loop_ends:
  assumes "reading_handlers handlers"
  shows "\<exists>r s'. \<forall>n \<ge> loop_fuel s. parse_loop n (parse_step handlers parseFloat cb) s = Some (r, s')"
proof (induction "length (input (pdec s))" arbitrary: s rule: less_induct)
  case less
  obtain r1 s1 where run: "parse_step handlers parseFloat cb s = (r1, s1)" by fastforce
  have loop: "parse_loop n (parse_step handlers parseFloat cb) s =
      (case (r1, s1) of (Ok True, s') \<Rightarrow> parse_loop (n - 1) (parse_step handlers parseFloat cb) s'
       | (Ok False, s') \<Rightarrow> Some (Ok (), s') | (Err e, s') \<Rightarrow> Some (Err e, s') | (Panic p, s') \<Rightarrow> Some (Panic p, s'))"
    if "loop_fuel s \<le> n" for n
  proof -
    from that obtain m where "n = Suc m" by (cases n) (auto simp: loop_fuel_def)
    with run show ?thesis by (simp split: result.splits bool.splits)
  qed
  show ?case
  proof (cases "r1 = Ok True")
    case True
    from parse_step_reads [OF assms run] True obtain p where "input (pdec s) = p @ input (pdec s1)" "p \<noteq> []"
      by (auto simp: took_input_def)
    then have short: "length (input (pdec s1)) < length (input (pdec s))" by simp
    with less.hyps obtain r s' where
      IH: "\<forall>n \<ge> loop_fuel s1. parse_loop n (parse_step handlers parseFloat cb) s1 = Some (r, s')" by blast
    have "parse_loop n (parse_step handlers parseFloat cb) s = Some (r, s')" if n: "loop_fuel s \<le> n" for n
    proof -
      have "loop_fuel s1 \<le> n - 1" using n short by (auto simp: loop_fuel_def)
      with IH loop [OF n] True show ?thesis by simp
    qed
    then show ?thesis by blast
  next
    case False
    then show ?thesis using loop by (cases r1) auto
  qed
qed

text \<open>
  C6. The loop of \<open>parse\<close> ends on every input, whatever the callback says, provided the handlers of module
  types only read: with one round more than there are bytes it has a result, and more rounds do not
  change it. So \<open>Parse\<close> returns, and \<open>OutOfFuel\<close> never stands for its result.
\<close>

theorem parse_loop_terminates:
  assumes "reading_handlers handlers"
  shows "\<exists>r s'. \<forall>n \<ge> loop_fuel s. parse_loop n (parse_step handlers parseFloat cb) s = Some (r, s')"
  by (rule parse_loop_ends [OF assms])

definition sample_state :: "nat pstate" where
  "sample_state = parse_start (NewDecoder [0, 1, 97, 1, 98, 255])"

theorem parse_loop_terminates_witness:
  "\<exists>r s'. \<forall>n \<ge> loop_fuel sample_state.
     parse_loop n (parse_step (\<lambda>_. None) (\<lambda>_. None) (\<lambda>_ _. True)) sample_state = Some (r, s')"
  by (rule parse_loop_terminates) (simp add: reading_handlers_def)

end
