(* ===== verification/RdbFile.thy ===== *)
theory RdbFile
  imports EncoderRun RdbParse
begin

text \<open>
  Encoder and decoder together: what \<open>Parse\<close> delivers of a whole file that the encoder wrote, database by
  database and object by object. This composes the codecs of every encoding, the options, the state
  machine of the encoder and the loop of the decoder.
\<close>

section \<open>Values and what they are read back as\<close>

definition value_ok ::
  "enc_cfg \<Rightarrow> (bytes \<Rightarrow> f64 option) \<Rightarrow> (f64 \<Rightarrow> bytes) \<Rightarrow> object_value \<Rightarrow> bool" where
  "value_ok k pf ff v =
     (case k of (c, lo, ho, zo, limit, vk) \<Rightarrow>
      case v of
        VString s \<Rightarrow> short_string s
      | VList vs \<Rightarrow> list_ok lo limit vs \<and> 0 < limit
      | VSet ms \<Rightarrow> set_ok ms
      | VHash h \<Rightarrow> hash_ok h \<and> zl_opt_ok ho \<and> (\<forall>p \<in> set h. length (fst p) \<le> 16383)
      | VHashEx h ex \<Rightarrow> hash_ok h \<and> expire_ok h ex
      | VZSet es \<Rightarrow> zset_ok pf ff es \<and> zl_opt_ok zo
      | VStream s \<Rightarrow> stream_ok s)"

text \<open>A set stored as an intset comes back sorted; everything else comes back as it was.\<close>

fun value_shows :: "object_value \<Rightarrow> 'v redis_object \<Rightarrow> bool" where
  "value_shows (VString s) obj = (obj = StringObject (base_of obj) s)"
| "value_shows (VList vs) obj = (obj = ListObject (base_of obj) vs)"
| "value_shows (VSet ms) obj = (\<exists>ms'. obj = SetObject (base_of obj) ms' \<and> mset ms' = mset ms)"
| "value_shows (VHash h) obj = (obj = HashObject (base_of obj) h [])"
| "value_shows (VHashEx h ex) obj =
     (obj = HashObject (base_of obj) h (map (\<lambda>(k, v). (k, field_expire ex k)) h))"
| "value_shows (VZSet es) obj = (obj = ZSetObject (base_of obj) es)"
| "value_shows (VStream s) obj = (obj = StreamObject (base_of obj) s)"

fun value_body :: "(f64 \<Rightarrow> bytes) \<Rightarrow> bytes \<Rightarrow> object_value \<Rightarrow> unit enc" where
  "value_body ff key (VString v) = seq (enc_write [typeString]) (seq (writeString key) (writeString v))"
| "value_body ff key (VList vs) = list_body key vs"
| "value_body ff key (VSet vs) = set_body key vs"
| "value_body ff key (VHash h) = hash_body key h"
| "value_body ff key (VHashEx h ex) = hash_ex_body key h ex"
| "value_body ff key (VZSet es) = zset_body ff key es"
| "value_body ff key (VStream s) = stream_body key s"

lemma write_value_body: "write_value ff key v options = write_object options (value_body ff key v)"
  by (cases v) (simp_all add: WriteStringObject_def WriteListObject_def WriteSetObject_def WriteHashMapObject_def
      WriteHashMapObjectEx_def WriteZSetObject_def WriteStreamObject_def)

section \<open>The size of what was read\<close>

definition sized :: "'v redis_object \<Rightarrow> bool" where
  "sized obj \<longleftrightarrow> (\<exists>n. \<forall>s :: 'v pstate. SizeOfObject obj s = (Ok n, s))"

definition size_ok :: "('s, int) comp \<Rightarrow> bool" where
  "size_ok m \<longleftrightarrow> (\<exists>n. \<forall>s. m s = (Ok n, s))"

lemma size_ok_ret: "size_ok (ret n)"
  by (auto simp: size_ok_def ret_def)

lemma size_ok_bind: "size_ok m \<Longrightarrow> (\<And>n. size_ok (f n)) \<Longrightarrow> size_ok (bind m f)"
  unfolding size_ok_def bind_def by (metis (no_types, lifting) old.prod.case result.simps(10))

lemma size_ok_sum:
  assumes "\<And>x. x \<in> set xs \<Longrightarrow> size_ok (f x)"
  shows "size_ok (sum_comp f xs a)"
  using assms
  by (induction xs rule: rev_induct) (auto simp: sum_comp_Nil sum_comp_snoc intro!: size_ok_ret size_ok_bind)

lemma jemalloc_const: "\<exists>r. \<forall>s. getJemallocSize k s = (r, s)"
  by (cases "List.find (\<lambda>c. k \<le> c) jemallocClasses") (auto simp: getJemallocSize_first_fit)

lemma sizeOfString_const: "\<exists>r. \<forall>s. sizeOfString v s = (r, s)"
  by (auto simp: sizeOfString_def Let_def ret_def intro: jemalloc_const)

lemma size_ok_string:
  assumes "short_string v"
  shows "size_ok (sizeOfString v :: ('s, int) comp)"
proof -
  obtain r where r: "\<forall>s :: 's. sizeOfString v s = (r, s)" using sizeOfString_const by blast
  have "length v < 2 ^ 62" using assms by (simp add: short_string_def)
  from sizeOfString_ok [OF this, of "undefined :: 's"] r obtain n where "r = Ok n" by auto
  with r show ?thesis unfolding size_ok_def by blast
qed

lemma sized_value:
  assumes "short_string (obj_key (base_of obj))" and "size_ok (value_size obj :: ('v pstate, int) comp)"
  shows "sized (obj :: 'v redis_object)"
proof -
  have "size_ok (SizeOfObject obj :: ('v pstate, int) comp)"
    unfolding SizeOfObject_def topLevelObjectOverhead_def Let_def GetKey_def
    by (intro size_ok_bind size_ok_string assms size_ok_ret)
  then show ?thesis by (simp add: sized_def size_ok_def)
qed


section \<open>One object\<close>

text \<open>\<open>parses\<close>, for a decoder that knows whether the file is one of Valkey.\<close>

definition parses_as :: "bool \<Rightarrow> 'a dec \<Rightarrow> bytes \<Rightarrow> 'a \<Rightarrow> bool" where
  "parses_as vk m bs x \<longleftrightarrow>
     (\<forall>d rest. valkey d = vk \<longrightarrow> input d = bs @ rest \<longrightarrow> m d = (Ok x, advance bs rest d))"

lemma parses_as_parses: "parses m bs x \<Longrightarrow> parses_as vk m bs x"
  by (simp add: parses_as_def parses_def)

lemma parses_as_valkey: "parses (f vk) bs x \<Longrightarrow> parses_as vk (bind (gets valkey) f) bs x"
  by (simp add: parses_as_def parses_def bind_def gets_def)

lemma readObject_cases:
  "readObject handlers pf typeString base =
     bind readString (\<lambda>bs. ret (StringObject (base\<lparr>obj_encoding := StringEncoding\<rparr>) bs))"
  "readObject handlers pf typeListZipList base =
     bind readZipList (\<lambda>vs. ret (ListObject (base\<lparr>obj_encoding := ZipListEncoding\<rparr>) vs))"
  "readObject handlers pf typeListQuickList base =
     bind readQuickList (\<lambda>(vs, x). ret (ListObject (with_extra (base\<lparr>obj_encoding := QuickListEncoding\<rparr>) x) vs))"
  "readObject handlers pf typeSet base =
     bind readSet (\<lambda>ms. ret (SetObject (base\<lparr>obj_encoding := SetEncoding\<rparr>) ms))"
  "readObject handlers pf typeSetIntSet base =
     bind readIntSet (\<lambda>(ms, x). ret (SetObject (with_extra (base\<lparr>obj_encoding := IntSetEncoding\<rparr>) x) ms))"
  "readObject handlers pf typeHash base =
     bind readHashMap (\<lambda>h. ret (HashObject (base\<lparr>obj_encoding := HashEncoding\<rparr>) h []))"
  "readObject handlers pf typeHashZipList base =
     bind readZipListHash (\<lambda>(h, x). ret (HashObject (with_extra (base\<lparr>obj_encoding := ZipListEncoding\<rparr>) x) h []))"
  "readObject handlers pf typeZset2 base =
     bind (readZSet pf True) (\<lambda>es. ret (ZSetObject (base\<lparr>obj_encoding := ZSet2Encoding\<rparr>) es))"
  "readObject handlers pf typeZsetZipList base =
     bind (readZipListZSet pf) (\<lambda>(es, x). ret (ZSetObject (with_extra (base\<lparr>obj_encoding := ZipListEncoding\<rparr>) x) es))"
  by (simp_all add: readObject_def encodingMap_def type_codes Let_def)

lemma readObject_hash_ex:
  "readObject handlers pf (if vk then typeHash2 else typeHashWithHfe) base =
     bind (gets valkey) (\<lambda>vk'. bind (if vk' then readHashMapExValkey else readHashMapEx vk)
       (\<lambda>(h, e). ret (HashObject (base\<lparr>obj_encoding := HashExEncoding\<rparr>) h e)))"
proof -
  have "typeHash2 = typeHashWithHfeRc" "typeHashWithHfe \<noteq> typeHashWithHfeRc" by (simp_all add: type_codes)
  then show ?thesis
    by (cases vk) (simp_all add: readObject_def encodingMap_def type_codes Let_def cong: if_cong)
qed

lemma type_small [simp]:
  "typeString < 128" "typeListZipList < 128" "typeListQuickList < 128" "typeSet < 128" "typeSetIntSet < 128"
  "typeHash < 128" "typeHashZipList < 128" "typeZset2 < 128" "typeZsetZipList < 128" "typeHash2 < 128"
  "typeHashWithHfe < 128" "stream_type v < 128"
  by (simp_all add: type_codes stream_type_def)

lemma encodings_differ [simp]:
  "ZipListEncoding \<noteq> QuickListEncoding" "ZipListEncoding \<noteq> ListEncoding" "SetEncoding \<noteq> IntSetEncoding"
  "SetEncoding \<noteq> ListPackEncoding" "HashEncoding \<noteq> ZipListEncoding" "HashEncoding \<noteq> ListPackEncoding"
  "HashExEncoding \<noteq> ZipListEncoding" "HashExEncoding \<noteq> ListPackEncoding" "ZSet2Encoding \<noteq> ZipListEncoding"
  "ZSet2Encoding \<noteq> ListPackEncoding"
  by (simp_all add: encoding_names)

lemma readObject_stream:
  assumes "1 \<le> v" and "v \<le> 3"
  shows "readObject handlers pf (stream_type v) base =
     bind (readStreamListPacks v) (\<lambda>s. ret (StreamObject (base\<lparr>obj_encoding := encodingMap (stream_type v)\<rparr>) s))"
proof -
  have "v = 1 \<or> v = 2 \<or> v = 3" using assms by linarith
  then show ?thesis by (auto simp: readObject_def stream_type_def type_codes Let_def)
qed

definition object_reads ::
  "'v itself \<Rightarrow> (bytes \<Rightarrow> f64 option) \<Rightarrow> bool \<Rightarrow> byte \<Rightarrow> bytes \<Rightarrow> object_value \<Rightarrow> bool" where
  "object_reads _ pf vk typ content v \<longleftrightarrow> typ < 128 \<and>
     (\<forall>(base :: base_object) handlers. short_string (obj_key base) \<longrightarrow>
       (\<exists>obj en x. parses_as vk (readObject (handlers :: 'v handlers) pf typ base) content (obj :: 'v redis_object) \<and>
          value_shows v obj \<and> base_of obj = base\<lparr>obj_encoding := en, extra := x\<rparr> \<and> sized obj))"

lemma object_readsI:
  assumes "typ < 128"
    and "\<And>base handlers. short_string (obj_key base) \<Longrightarrow>
       parses_as vk (readObject handlers pf typ base) content (f base :: 'v redis_object)"
    and "\<And>base. base_of (f base) = base\<lparr>obj_encoding := en, extra := ext base\<rparr>"
    and "\<And>base. value_shows v (f base)"
    and "\<And>base. size_ok (value_size (f base) :: ('v pstate, int) comp)"
  shows "object_reads TYPE('v) pf vk typ content v"
  unfolding object_reads_def
proof (intro conjI allI impI exI)
  fix base :: base_object and handlers :: "'v handlers" assume k: "short_string (obj_key base)"
  show "parses_as vk (readObject handlers pf typ base) content (f base)" by (rule assms(2) [OF k])
  show "base_of (f base) = base\<lparr>obj_encoding := en, extra := ext base\<rparr>" by (rule assms(3))
  show "sized (f base)" using k assms(3) by (intro sized_value assms(5)) simp
qed (use assms in simp_all)

lemmas sizes = size_ok_ret size_ok_string size_ok_bind size_ok_sum

lemma string_reads:
  assumes "short_string s"
  shows "object_reads TYPE('v) pf vk typeString (string_bytes c s) (VString s)"
  by (rule object_readsI [where f = "\<lambda>base. StringObject (base\<lparr>obj_encoding := StringEncoding\<rparr>) s"
        and en = StringEncoding and ext = extra])
    (auto simp: readObject_cases intro!: sizes assms parses_as_parses
      parses_bind_ret [OF parses_string [OF assms]])

lemma list_reads:
  "parses readZipList content vs \<Longrightarrow> object_reads TYPE('v) pf vk typeListZipList content (VList vs)"
  "parses readQuickList content (vs, QuicklistDetail pages) \<Longrightarrow>
     object_reads TYPE('v) pf vk typeListQuickList content (VList vs)"
proof -
  assume p: "parses readZipList content vs"
  show "object_reads TYPE('v) pf vk typeListZipList content (VList vs)"
    by (rule object_readsI [where f = "\<lambda>base. ListObject (base\<lparr>obj_encoding := ZipListEncoding\<rparr>) vs"
          and en = ZipListEncoding and ext = extra])
      (auto simp: readObject_cases sizeOfListObject_def
        intro!: sizes parses_as_parses parses_bind_ret [OF p])
next
  assume p: "parses readQuickList content (vs, QuicklistDetail pages)"
  show "object_reads TYPE('v) pf vk typeListQuickList content (VList vs)"
    by (rule object_readsI [where f = "\<lambda>base. ListObject (with_extra (base\<lparr>obj_encoding := QuickListEncoding\<rparr>)
          (QuicklistDetail pages)) vs" and en = QuickListEncoding and ext = "\<lambda>_. QuicklistDetail pages"])
      (auto simp: readObject_cases sizeOfListObject_def with_extra_def
        intro!: sizes parses_as_parses parses_bind_ret [OF p])
qed

lemma set_reads:
  assumes "list_all short_string ms"
  shows "parses readSet content ms \<Longrightarrow> object_reads TYPE('v) pf vk typeSet content (VSet ms)"
    and "parses readIntSet content (ms', IntsetDetail n) \<Longrightarrow> mset ms' = mset ms \<Longrightarrow>
      object_reads TYPE('v) pf vk typeSetIntSet content (VSet ms)"
proof -
  have sz: "size_ok (sum_comp (\<lambda>v. bind (sizeOfString v) (\<lambda>n. ret (hashTableEntryOverhead + n))) ms a)" for a
    using assms by (auto simp: list_all_iff intro!: sizes)
  assume p: "parses readSet content ms"
  show "object_reads TYPE('v) pf vk typeSet content (VSet ms)"
    by (rule object_readsI [where f = "\<lambda>base. SetObject (base\<lparr>obj_encoding := SetEncoding\<rparr>) ms"
          and en = SetEncoding and ext = extra])
      (auto simp: readObject_cases sizeOfSetObject_def
        intro!: sz parses_as_parses parses_bind_ret [OF p])
next
  assume p: "parses readIntSet content (ms', IntsetDetail n)" and m: "mset ms' = mset ms"
  show "object_reads TYPE('v) pf vk typeSetIntSet content (VSet ms)"
    by (rule object_readsI [where f = "\<lambda>base. SetObject (with_extra (base\<lparr>obj_encoding := IntSetEncoding\<rparr>)
          (IntsetDetail n)) ms'" and en = IntSetEncoding and ext = "\<lambda>_. IntsetDetail n"])
      (auto simp: readObject_cases sizeOfSetObject_def with_extra_def m
        intro!: sizes parses_as_parses parses_bind_ret [OF p])
qed


lemma hash_reads:
  assumes h: "hash_ok h"
  shows "parses readHashMap content h \<Longrightarrow> object_reads TYPE('v) pf vk typeHash content (VHash h)"
    and "parses readZipListHash content (h, ZiplistDetail n) \<Longrightarrow>
      object_reads TYPE('v) pf vk typeHashZipList content (VHash h)"
    and "parses (if vk then readHashMapExValkey else readHashMapEx False) content
        (h, map (\<lambda>(k, v). (k, field_expire ex k)) h) \<Longrightarrow>
      object_reads TYPE('v) pf vk (if vk then typeHash2 else typeHashWithHfe) content (VHashEx h ex)"
proof -
  have "size_ok (sum_comp (\<lambda>(k, v). bind (sizeOfString k) (\<lambda>n1. bind (sizeOfString v) (\<lambda>n2.
          ret (hashTableEntryOverhead + n1 + n2)))) h a :: ('v pstate, int) comp)" for a
  proof (rule size_ok_sum)
    fix p assume p: "p \<in> set h"
    obtain k v where kv: "p = (k, v)" by fastforce
    have "short_string k" "short_string v" using p h kv by (auto simp: hash_ok_def)
    then show "size_ok (case p of (k, v) \<Rightarrow> bind (sizeOfString k) (\<lambda>n1. bind (sizeOfString v) (\<lambda>n2.
          ret (hashTableEntryOverhead + n1 + n2))))" unfolding kv prod.case by (intro sizes)
  qed
  note sz = this
  show "object_reads TYPE('v) pf vk typeHash content (VHash h)" if p: "parses readHashMap content h"
    by (rule object_readsI [where f = "\<lambda>base. HashObject (base\<lparr>obj_encoding := HashEncoding\<rparr>) h []"
          and en = HashEncoding and ext = extra])
      (auto simp: readObject_cases sizeOfHashObject_def intro!: sz parses_as_parses parses_bind_ret [OF p])
  show "object_reads TYPE('v) pf vk typeHashZipList content (VHash h)"
    if p: "parses readZipListHash content (h, ZiplistDetail n)"
    by (rule object_readsI [where f = "\<lambda>base. HashObject (with_extra (base\<lparr>obj_encoding := ZipListEncoding\<rparr>)
          (ZiplistDetail n)) h []" and en = ZipListEncoding and ext = "\<lambda>_. ZiplistDetail n"])
      (auto simp: readObject_cases sizeOfHashObject_def with_extra_def
        intro!: sizes parses_as_parses parses_bind_ret [OF p])
  show "object_reads TYPE('v) pf vk (if vk then typeHash2 else typeHashWithHfe) content (VHashEx h ex)"
    if p: "parses (if vk then readHashMapExValkey else readHashMapEx False) content
        (h, map (\<lambda>(k, v). (k, field_expire ex k)) h)"
  proof (rule object_readsI [where f = "\<lambda>base. HashObject (base\<lparr>obj_encoding := HashExEncoding\<rparr>) h
          (map (\<lambda>(k, v). (k, field_expire ex k)) h)" and en = HashExEncoding and ext = extra])
    fix base :: base_object and handlers :: "'v handlers"
    have "parses (bind (if vk then readHashMapExValkey else readHashMapEx vk)
        (\<lambda>(h, e). ret (HashObject (base\<lparr>obj_encoding := HashExEncoding\<rparr>) h e)))
      content (HashObject (base\<lparr>obj_encoding := HashExEncoding\<rparr>) h (map (\<lambda>(k, v). (k, field_expire ex k)) h) :: 'v redis_object)"
      by (rule parses_bind_ret [where x = "(h, map (\<lambda>(k, v). (k, field_expire ex k)) h)"])
        (use p in \<open>cases vk; simp\<close>, simp)
    then show "parses_as vk (readObject handlers pf (if vk then typeHash2 else typeHashWithHfe) base) content
        (HashObject (base\<lparr>obj_encoding := HashExEncoding\<rparr>) h (map (\<lambda>(k, v). (k, field_expire ex k)) h))"
      unfolding readObject_hash_ex by (rule parses_as_valkey)
  qed (auto simp: sizeOfHashObject_def intro!: sz)
qed

lemma zset_reads:
  assumes "\<forall>(m, s) \<in> set es. short_string m"
  shows "parses (readZSet pf True) content es \<Longrightarrow> object_reads TYPE('v) pf vk typeZset2 content (VZSet es)"
    and "parses (readZipListZSet pf) content (es, ZiplistDetail n) \<Longrightarrow>
      object_reads TYPE('v) pf vk typeZsetZipList content (VZSet es)"
proof -
  have sz: "size_ok (sum_comp (\<lambda>(member, score). bind (sizeOfString member) (\<lambda>n. ret (n + 8 + skipListEntryOverhead)))
      es a)" for a
    using assms by (intro size_ok_sum) (auto intro!: sizes)
  show "object_reads TYPE('v) pf vk typeZset2 content (VZSet es)" if p: "parses (readZSet pf True) content es"
    by (rule object_readsI [where f = "\<lambda>base. ZSetObject (base\<lparr>obj_encoding := ZSet2Encoding\<rparr>) es"
          and en = ZSet2Encoding and ext = extra])
      (auto simp: readObject_cases sizeOfZSetObject_def intro!: sz parses_as_parses parses_bind_ret [OF p])
  show "object_reads TYPE('v) pf vk typeZsetZipList content (VZSet es)"
    if p: "parses (readZipListZSet pf) content (es, ZiplistDetail n)"
    by (rule object_readsI [where f = "\<lambda>base. ZSetObject (with_extra (base\<lparr>obj_encoding := ZipListEncoding\<rparr>)
          (ZiplistDetail n)) es" and en = ZipListEncoding and ext = "\<lambda>_. ZiplistDetail n"])
      (auto simp: readObject_cases sizeOfZSetObject_def with_extra_def
        intro!: sizes parses_as_parses parses_bind_ret [OF p])
qed

lemma stream_reads:
  assumes "stream_ok s"
  shows "object_reads TYPE('v) pf vk (stream_type (stream_version s)) (stream_bytes c s) (VStream s)"
proof -
  have v: "1 \<le> stream_version s" "stream_version s \<le> 3" using assms by (simp_all add: stream_ok_def)
  have p: "parses (readStreamListPacks (stream_version s)) (stream_bytes c s) s"
    by (rule stream_codec.parses_rd) (simp add: assms)
  have cons: "size_ok (sizeOfStreamConsumer c :: ('v pstate, int) comp)" if "consumer_ok v c" for v c
    unfolding sizeOfStreamConsumer_def using that by (intro sizes) (simp add: consumer_ok_def)
  have "size_ok (sizeOfStreamGroup w g :: ('v pstate, int) comp)" if "group_ok v g" for v w g
    unfolding sizeOfStreamGroup_def Let_def using that
    by (intro size_ok_sum cons [of v]) (simp add: group_ok_def list_all_iff)
  then have sz: "size_ok (sizeOfStreamObject s :: ('v pstate, int) comp)"
    unfolding sizeOfStreamObject_def using assms by (intro size_ok_sum) (auto simp: stream_ok_def list_all_iff)
  show ?thesis
    by (rule object_readsI [where f = "\<lambda>base. StreamObject (base\<lparr>obj_encoding := encodingMap (stream_type (stream_version s))\<rparr>) s"
          and en = "encodingMap (stream_type (stream_version s))" and ext = extra])
      (auto simp: readObject_stream [OF v] intro!: sz parses_as_parses parses_bind_ret [OF p])
qed

text \<open>Every encoding of every value: what the encoder writes, the decoder reads.\<close>

lemma value_reads:
  assumes ok: "value_ok k pf ff v" and key: "short_string key" and k: "k = (c, lo, ho, zo, limit, vk)"
  shows "\<exists>typ content. emits_in k (value_body ff key v) (typ # string_bytes c key @ content) () \<and>
    object_reads TYPE('v) pf vk typ content v"
proof (cases v)
  case (VString s)
  with ok k have s: "short_string s" by (simp add: value_ok_def)
  have "emits c (value_body ff key v) ([typeString] @ string_bytes c key @ string_bytes c s) ()"
    unfolding VString value_body.simps by (intro emits_intros key s)
  then have "emits_in k (value_body ff key v) (typeString # string_bytes c key @ string_bytes c s) ()"
    by (intro emits_in_emits) (simp add: k)
  with string_reads [OF s] VString show ?thesis by blast
next
  case (VList vs)
  with ok k have "list_ok lo limit vs" "0 < limit" by (simp_all add: value_ok_def)
  from list_body_emits [OF key this k] VList list_reads [of _ vs] show ?thesis by (simp only: value_body.simps) blast
next
  case (VSet ms)
  with ok k have s: "set_ok ms" by (simp add: value_ok_def)
  then have "list_all short_string ms" by (simp add: set_ok_def)
  note reads = set_reads [where 'v='v and pf=pf and vk=vk, OF this]
  from set_body_emits [OF key s, of c] obtain ty content where
    e: "emits c (set_body key ms) (ty # string_bytes c key @ content) ()" and
    r: "ty = typeSet \<and> parses readSet content ms \<or>
        ty = typeSetIntSet \<and> (\<exists>ms' n. parses readIntSet content (ms', IntsetDetail n) \<and> mset ms' = mset ms)"
    by blast
  from e have "emits_in k (value_body ff key v) (ty # string_bytes c key @ content) ()"
    by (intro emits_in_emits) (simp add: k VSet)
  moreover from r reads VSet have "object_reads TYPE('v) pf vk ty content v" by blast
  ultimately show ?thesis by blast
next
  case (VHash h)
  with ok k have h: "hash_ok h" "zl_opt_ok ho" "\<forall>p \<in> set h. length (fst p) \<le> 16383" by (simp_all add: value_ok_def)
  from hash_body_emits [OF key h k] VHash hash_reads(1,2) [OF h(1)] show ?thesis
    by (simp only: value_body.simps) blast
next
  case (VHashEx h ex)
  with ok k have h: "hash_ok h" "expire_ok h ex" by (simp_all add: value_ok_def)
  from hash_ex_emits [OF key h k] VHashEx hash_reads(3) [OF h(1)] show ?thesis
    by (simp only: value_body.simps) blast
next
  case (VZSet es)
  with ok k have z: "zset_ok pf ff es" "zl_opt_ok zo" by (simp_all add: value_ok_def)
  then have "\<forall>(m, s) \<in> set es. short_string m" by (auto simp: zset_ok_def)
  from zset_body_emits [OF key z k] VZSet zset_reads [OF this] show ?thesis
    by (simp only: value_body.simps) blast
next
  case (VStream s)
  with ok k have s: "stream_ok s" by (simp add: value_ok_def)
  have "emits_in k (value_body ff key v) (stream_type (stream_version s) # string_bytes c key @ stream_bytes c s) ()"
    using stream_body_emits [OF key s, of c] by (intro emits_in_emits) (simp add: k VStream)
  with stream_reads [OF s] VStream show ?thesis by blast
qed

end
