(* ===== verification/RdbRoundtrip.thy ===== *)
theory RdbRoundtrip
  imports RdbFile
begin

text \<open>
  Whole files: what \<open>Parse\<close> delivers of a file that a client of the encoder wrote, with its aux fields, its
  databases and their objects in order.
\<close>

section \<open>Rounds of the loop\<close>

definition rounds :: "('v pstate, bool) comp \<Rightarrow> 'v pstate \<Rightarrow> 'v pstate \<Rightarrow> bool" where
  "rounds step s s' \<longleftrightarrow> (\<exists>n. \<forall>m. parse_loop (n + m) step s = parse_loop m step s')"

lemma rounds_refl: "rounds step s s"
  unfolding rounds_def by (rule exI [of _ 0]) simp

lemma rounds_trans: "rounds step s s1 \<Longrightarrow> rounds step s1 s2 \<Longrightarrow> rounds step s s2"
  unfolding rounds_def by (metis add.assoc)

lemma rounds_step: "step s = (Ok True, s') \<Longrightarrow> rounds step s s'"
  unfolding rounds_def by (rule exI [of _ 1]) simp

lemma parse_ends:
  assumes "reading_handlers handlers"
    and "rounds (parse_step handlers pf cb) s s1" and "parse_step handlers pf cb s1 = (Ok False, s2)"
  shows "parse handlers pf cb s = seq (ignore_err [] (with_dec (readFull 8))) (ret ()) s2"
proof -
  obtain n where "parse_loop (n + 1) (parse_step handlers pf cb) s = parse_loop 1 (parse_step handlers pf cb) s1"
    using assms(2) unfolding rounds_def by blast
  then have n: "parse_loop (n + 1) (parse_step handlers pf cb) s = Some (Ok (), s2)"
    using assms(3) by simp
  obtain r s' where "\<forall>k \<ge> loop_fuel s. parse_loop k (parse_step handlers pf cb) s = Some (r, s')"
    using parse_loop_ends [OF assms(1)] by blast
  then have "parse_loop (n + 1 + loop_fuel s) (parse_step handlers pf cb) s =
      parse_loop (loop_fuel s) (parse_step handlers pf cb) s"
    by (simp del: parse_loop.simps)
  then have "parse_loop (loop_fuel s) (parse_step handlers pf cb) s = Some (Ok (), s2)"
    using parse_loop_more [OF n, of "loop_fuel s"] by (simp only:)
  then show ?thesis by (simp only: parse_def option.case prod.case result.case unit.case)
qed

section \<open>Chunks of a file\<close>

text \<open>
  \<open>chunk k step bs i i' objs\<close>: with no expiration, idle time or frequency pending, the loop reads \<open>bs\<close>, whatever
  follows, moves from database \<open>i\<close> to \<open>i'\<close> and has then delivered \<open>objs\<close>. The flags are those of a
  Valkey file and of \<open>WithSpecialOpCode\<close>.
\<close>

definition quiet :: "bool \<Rightarrow> bool \<Rightarrow> 'v pstate \<Rightarrow> bool" where
  "quiet vk sp s \<longleftrightarrow> valkey (pdec s) = vk \<and> withSpecialOpCode (pdec s) = sp \<and>
     expireMs s = 0 \<and> lru s = None \<and> lfu s = None"

definition chunk ::
  "bool \<Rightarrow> bool \<Rightarrow> ('v pstate, bool) comp \<Rightarrow> bytes \<Rightarrow> int \<Rightarrow> int \<Rightarrow> 'v redis_object list \<Rightarrow> bool" where
  "chunk vk sp step bs i i' objs \<longleftrightarrow> (\<forall>s rest. quiet vk sp s \<longrightarrow> dbIndex s = i \<longrightarrow> input (pdec s) = bs @ rest \<longrightarrow>
     rounds step s (s\<lparr>pdec := advance bs rest (pdec s), dbIndex := i', delivered := delivered s @ objs\<rparr>))"

lemma chunkI:
  "(\<And>s rest. quiet vk sp s \<Longrightarrow> dbIndex s = i \<Longrightarrow> input (pdec s) = bs @ rest \<Longrightarrow>
     rounds step s (s\<lparr>pdec := advance bs rest (pdec s), dbIndex := i', delivered := delivered s @ objs\<rparr>)) \<Longrightarrow>
   chunk vk sp step bs i i' objs"
  by (simp add: chunk_def)

lemma chunk_Nil: "chunk vk sp (step :: ('v pstate, bool) comp) [] i i []"
proof (rule chunkI)
  fix s :: "'v pstate" and rest assume "dbIndex s = i" "input (pdec s) = [] @ rest"
  then have "s\<lparr>pdec := advance [] rest (pdec s), dbIndex := i, delivered := delivered s @ []\<rparr> = s"
    by (simp add: advance_Nil)
  then show "rounds step s (s\<lparr>pdec := advance [] rest (pdec s), dbIndex := i, delivered := delivered s @ []\<rparr>)"
    by (simp only: rounds_refl)
qed

lemma chunk_append:
  assumes "chunk vk sp (step :: ('v pstate, bool) comp) bs i j objs" and "chunk vk sp step cs j k objs'"
  shows "chunk vk sp step (bs @ cs) i k (objs @ objs')"
proof (rule chunkI)
  fix s :: "'v pstate" and rest
  assume s: "quiet vk sp s" "dbIndex s = i" "input (pdec s) = (bs @ cs) @ rest"
  let ?s1 = "s\<lparr>pdec := advance bs (cs @ rest) (pdec s), dbIndex := j, delivered := delivered s @ objs\<rparr>"
  have "rounds step s ?s1" using assms(1) s by (simp add: chunk_def)
  moreover have "rounds step ?s1 (?s1\<lparr>pdec := advance cs rest (pdec ?s1), dbIndex := k,
      delivered := delivered ?s1 @ objs'\<rparr>)"
    using assms(2) s unfolding chunk_def by (elim allE [of _ ?s1] allE [of _ rest]) (simp add: quiet_def)
  ultimately show "rounds step s (s\<lparr>pdec := advance (bs @ cs) rest (pdec s), dbIndex := k,
      delivered := delivered s @ objs @ objs'\<rparr>)"
    by (auto intro: rounds_trans)
qed

lemma chunk_concat:
  assumes "\<And>x. x \<in> set xs \<Longrightarrow> \<exists>objs. chunk vk sp step (enc x) i i objs \<and> list_all2 R (expect x) objs"
  shows "\<exists>objs. chunk vk sp step (concat (map enc xs)) i i objs \<and> list_all2 R (concat (map expect xs)) objs"
  using assms
proof (induction xs)
  case Nil
  then show ?case by (auto intro: chunk_Nil)
next
  case (Cons x xs)
  from Cons.prems [of x] obtain o1 where "chunk vk sp step (enc x) i i o1" "list_all2 R (expect x) o1" by auto
  moreover from Cons obtain o2 where "chunk vk sp step (concat (map enc xs)) i i o2"
    "list_all2 R (concat (map expect xs)) o2" by auto
  ultimately show ?case by (auto intro: chunk_append list_all2_appendI)
qed

lemma with_dec_parses_as:
  assumes "parses_as vk m bs x" and "valkey (pdec s) = vk" and "input (pdec s) = bs @ rest"
  shows "with_dec m s = (Ok x, s\<lparr>pdec := advance bs rest (pdec s)\<rparr>)"
  using assms by (simp add: parses_as_def with_dec_def)

lemma with_dec_parses:
  assumes "parses m bs x" and "input (pdec s) = bs @ rest"
  shows "with_dec m s = (Ok x, s\<lparr>pdec := advance bs rest (pdec s)\<rparr>)"
  using with_dec_parses_as [OF parses_as_parses [OF assms(1)] refl assms(2)] .

text \<open>The byte of a round picks the branch.\<close>

lemma parse_step_byte:
  assumes "input (pdec s) = b # rest"
  shows "parse_step handlers pf cb s =
    (if b = opCodeEOF then ret False
     else if b = opCodeSelectDB then parse_select_db
     else if b = opCodeExpireTime then parse_expire_time
     else if b = opCodeExpireTimeMs then parse_expire_time_ms
     else if b = opCodeResizeDB then parse_resize_db cb
     else if b = opCodeAux then parse_aux cb
     else if b = opCodeFreq then parse_freq
     else if b = opCodeIdle then parse_idle
     else if b = opCodeModuleAux then seq (with_dec (readModuleType handlers)) (ret True)
     else if b = opCodeFunction then parse_function cb
     else if b = opCodeSlotInfo then parse_slot_info
     else if b = opCodeSlotImport then parse_slot_import
     else parse_object handlers pf cb b) (s\<lparr>pdec := advance [b] rest (pdec s)\<rparr>)"
  using with_dec_parses [OF parses_readByte, of s b rest] assms by (simp add: parse_step_def bind_Ok)

lemma parse_step_ops:
  "input (pdec s) = opCodeSelectDB # rest \<Longrightarrow>
     parse_step handlers pf cb s = parse_select_db (s\<lparr>pdec := advance [opCodeSelectDB] rest (pdec s)\<rparr>)"
  "input (pdec s) = opCodeResizeDB # rest \<Longrightarrow>
     parse_step handlers pf cb s = parse_resize_db cb (s\<lparr>pdec := advance [opCodeResizeDB] rest (pdec s)\<rparr>)"
  "input (pdec s) = opCodeAux # rest \<Longrightarrow>
     parse_step handlers pf cb s = parse_aux cb (s\<lparr>pdec := advance [opCodeAux] rest (pdec s)\<rparr>)"
  "input (pdec s) = opCodeExpireTimeMs # rest \<Longrightarrow>
     parse_step handlers pf cb s = parse_expire_time_ms (s\<lparr>pdec := advance [opCodeExpireTimeMs] rest (pdec s)\<rparr>)"
  "input (pdec s) = opCodeEOF # rest \<Longrightarrow>
     parse_step handlers pf cb s = (Ok False, s\<lparr>pdec := advance [opCodeEOF] rest (pdec s)\<rparr>)"
  by (subst parse_step_byte, assumption, simp add: op_codes ret_def)+

lemma parse_step_object:
  assumes "input (pdec s) = b # rest" and "b < 128"
  shows "parse_step handlers pf cb s = parse_object handlers pf cb b (s\<lparr>pdec := advance [b] rest (pdec s)\<rparr>)"
proof -
  have "b \<notin> {opCodeEOF, opCodeSelectDB, opCodeExpireTime, opCodeExpireTimeMs, opCodeResizeDB, opCodeAux, opCodeFreq,
      opCodeIdle, opCodeModuleAux, opCodeFunction, opCodeSlotInfo, opCodeSlotImport}"
    using assms(2) by (auto simp: op_codes)
  then show ?thesis by (subst parse_step_byte [OF assms(1)]) simp
qed

abbreviation always :: "'v callback" where "always \<equiv> \<lambda>_ _. True"

lemma chunk_aux:
  assumes "short_string k" and "short_string v"
  shows "chunk vk sp (parse_step (handlers :: 'v handlers) pf always) (aux_bytes c k v) i i
    (if sp then [AuxObject (empty_base\<lparr>obj_type := AuxType, obj_key := k\<rparr>) v] else [])"
proof (rule chunkI)
  fix s :: "'v pstate" and rest
  assume s: "quiet vk sp s" "dbIndex s = i" "input (pdec s) = aux_bytes c k v @ rest"
  let ?s1 = "s\<lparr>pdec := advance [opCodeAux] (string_bytes c k @ string_bytes c v @ rest) (pdec s)\<rparr>"
  have step: "parse_step handlers pf always s = parse_aux always ?s1"
    by (rule parse_step_ops) (use s in \<open>simp add: aux_bytes_def\<close>)
  have k: "with_dec readString ?s1 = (Ok k, ?s1\<lparr>pdec := advance (string_bytes c k) (string_bytes c v @ rest) (pdec ?s1)\<rparr>)"
    by (rule with_dec_parses [OF parses_string [OF assms(1)]]) simp
  let ?s2 = "?s1\<lparr>pdec := advance (string_bytes c k) (string_bytes c v @ rest) (pdec ?s1)\<rparr>"
  have v: "with_dec readString ?s2 = (Ok v, ?s2\<lparr>pdec := advance (string_bytes c v) rest (pdec ?s2)\<rparr>)"
    by (rule with_dec_parses [OF parses_string [OF assms(2)]]) simp
  show "rounds (parse_step handlers pf always) s (s\<lparr>pdec := advance (aux_bytes c k v) rest (pdec s), dbIndex := i,
      delivered := delivered s @ (if sp then [AuxObject (empty_base\<lparr>obj_type := AuxType, obj_key := k\<rparr>) v] else [])\<rparr>)"
    by (rule rounds_step)
      (use k v s in \<open>simp add: step parse_aux_def bind_Ok break_on_err_def special_only_def gets_def quiet_def
        deliver_def ret_def aux_bytes_def bind_def\<close>)
qed

lemma chunk_db:
  "chunk vk sp (parse_step (handlers :: 'v handlers) pf always) (db_bytes i n m) j (sint i)
    (if sp then [DBSizeObject (empty_base\<lparr>db := sint i\<rparr>) n m] else [])"
proof -
  have "chunk vk sp (parse_step handlers pf always) (opCodeSelectDB # length_bytes i) j (sint i) []"
  proof (rule chunkI)
    fix s :: "'v pstate" and rest
    assume s: "quiet vk sp s" "dbIndex s = j" "input (pdec s) = (opCodeSelectDB # length_bytes i) @ rest"
    let ?s1 = "s\<lparr>pdec := advance [opCodeSelectDB] (length_bytes i @ rest) (pdec s)\<rparr>"
    have step: "parse_step handlers pf always s = parse_select_db ?s1"
      by (rule parse_step_ops) (use s in simp)
    have l: "with_dec readLen ?s1 = (Ok i, ?s1\<lparr>pdec := advance (length_bytes i) rest (pdec ?s1)\<rparr>)"
      by (rule with_dec_parses [OF parses_readLen]) simp
    show "rounds (parse_step handlers pf always) s (s\<lparr>pdec := advance (opCodeSelectDB # length_bytes i) rest (pdec s),
        dbIndex := sint i, delivered := delivered s @ []\<rparr>)"
      by (rule rounds_step) (use l in \<open>simp add: step parse_select_db_def bind_Ok seq_def modify_def ret_def\<close>)
  qed
  moreover have "chunk vk sp (parse_step handlers pf always) (opCodeResizeDB # length_bytes n @ length_bytes m)
      (sint i) (sint i) (if sp then [DBSizeObject (empty_base\<lparr>db := sint i\<rparr>) n m] else [])"
  proof (rule chunkI)
    fix s :: "'v pstate" and rest
    assume s: "quiet vk sp s" "dbIndex s = sint i"
      "input (pdec s) = (opCodeResizeDB # length_bytes n @ length_bytes m) @ rest"
    let ?s1 = "s\<lparr>pdec := advance [opCodeResizeDB] (length_bytes n @ length_bytes m @ rest) (pdec s)\<rparr>"
    have step: "parse_step handlers pf always s = parse_resize_db always ?s1"
      by (rule parse_step_ops) (use s in simp)
    have n: "with_dec readLen ?s1 = (Ok n, ?s1\<lparr>pdec := advance (length_bytes n) (length_bytes m @ rest) (pdec ?s1)\<rparr>)"
      by (rule with_dec_parses [OF parses_readLen]) simp
    let ?s2 = "?s1\<lparr>pdec := advance (length_bytes n) (length_bytes m @ rest) (pdec ?s1)\<rparr>"
    have m: "with_dec readLen ?s2 = (Ok m, ?s2\<lparr>pdec := advance (length_bytes m) rest (pdec ?s2)\<rparr>)"
      by (rule with_dec_parses [OF parses_readLen]) simp
    show "rounds (parse_step handlers pf always) s (s\<lparr>pdec := advance (opCodeResizeDB # length_bytes n @ length_bytes m)
        rest (pdec s), dbIndex := sint i,
        delivered := delivered s @ (if sp then [DBSizeObject (empty_base\<lparr>db := sint i\<rparr>) n m] else [])\<rparr>)"
      by (rule rounds_step)
        (use n m s in \<open>simp add: step parse_resize_db_def bind_Ok break_on_err_def special_only_def gets_def quiet_def
          deliver_def ret_def bind_def\<close>)
  qed
  ultimately show ?thesis unfolding db_bytes_def using chunk_append by fastforce
qed

section \<open>Objects\<close>

text \<open>What a client asked the encoder for, and what the callback is to get.\<close>

datatype expect = EAux bytes bytes | ESize u64 u64 u64 | EObj u64 bytes object_value "u64 option"

definition ttl_ok :: "u64 option \<Rightarrow> bool" where
  "ttl_ok t \<longleftrightarrow> (\<forall>ms. t = Some ms \<longrightarrow> 0 < sint ms \<and> sint ms * 1000000 < 2 ^ 63)"

fun meets :: "expect \<Rightarrow> 'v redis_object \<Rightarrow> bool" where
  "meets (EAux k v) obj \<longleftrightarrow> obj = AuxObject (empty_base\<lparr>obj_type := AuxType, obj_key := k\<rparr>) v"
| "meets (ESize i n m) obj \<longleftrightarrow> obj = DBSizeObject (empty_base\<lparr>db := sint i\<rparr>) n m"
| "meets (EObj i key v t) obj \<longleftrightarrow> value_shows v obj \<and> GetDBIndex obj = sint i \<and> GetKey obj = key \<and>
     GetExpiration obj = map_option (\<lambda>ms. sint ms * 1000000) t \<and> obj_type (base_of obj) = GetType obj \<and>
     idleTime (base_of obj) = None \<and> freq (base_of obj) = None"

lemma value_shows_map_base: "value_shows v obj \<Longrightarrow> value_shows v (map_base f obj)"
  by (cases v; cases obj) auto

lemma SizeOf_sized: "sized (obj :: 'v redis_object) \<Longrightarrow> \<exists>n. \<forall>s :: 'v pstate. SizeOfObject obj s = (Ok n, s)"
  by (simp add: sized_def)

lemma expiration_of_ok: "ttl_ok (Some ms) \<Longrightarrow> expiration_of (sint ms) = Some (sint ms * 1000000)"
proof -
  assume "ttl_ok (Some ms)"
  then have "0 < sint ms" "sint ms * 1000000 < 2 ^ 63" by (simp_all add: ttl_ok_def)
  moreover from this have "sint (of_int (sint ms * 1000000) :: u64) = sint ms * 1000000"
    by (intro sint_of_int_range) simp_all
  ultimately show ?thesis by (simp add: expiration_of_def)
qed

text \<open>An object that stands behind a time to live, or behind none, is read in one round.\<close>

definition object_step ::
  "'v handlers \<Rightarrow> (bytes \<Rightarrow> f64 option) \<Rightarrow> bool \<Rightarrow> bytes \<Rightarrow> int \<Rightarrow> int \<Rightarrow> 'v redis_object \<Rightarrow> bool" where
  "object_step handlers pf vk bs e i obj \<longleftrightarrow>
    (\<forall>s rest. valkey (pdec s) = vk \<longrightarrow> lru s = None \<longrightarrow> lfu s = None \<longrightarrow> expireMs s = e \<longrightarrow> dbIndex s = i \<longrightarrow>
      input (pdec s) = bs @ rest \<longrightarrow>
      parse_step handlers pf always s = (Ok True, s\<lparr>pdec := advance bs rest (pdec s), expireMs := 0,
        delivered := delivered s @ [obj]\<rparr>))"

lemma object_round:
  fixes handlers :: "'v handlers"
  assumes reads: "object_reads TYPE('v) pf vk tb content v" and key: "short_string key" and "0 \<le> e"
  shows "\<exists>obj :: 'v redis_object.
    object_step handlers pf vk (tb # string_bytes c key @ content) e i obj \<and>
    value_shows v obj \<and> GetDBIndex obj = i \<and> GetKey obj = key \<and> GetExpiration obj = expiration_of e \<and>
    obj_type (base_of obj) = GetType obj \<and> idleTime (base_of obj) = None \<and> freq (base_of obj) = None"
proof -
  let ?base = "empty_base\<lparr>db := i, obj_key := key, expiration := expiration_of e\<rparr>"
  have small: "tb < 128" using reads by (simp add: object_reads_def)
  have "short_string (obj_key ?base)" using key by simp
  with reads obtain obj en x where obj: "parses_as vk (readObject handlers pf tb ?base) content obj" "value_shows v obj"
    "base_of obj = ?base\<lparr>obj_encoding := en, extra := x\<rparr>" "sized (obj :: 'v redis_object)"
    unfolding object_reads_def by blast
  obtain n where n: "SizeOfObject obj s = (Ok n, s)" for s :: "'v pstate" using SizeOf_sized [OF obj(4)] by blast
  let ?obj = "map_base (\<lambda>o1. o1\<lparr>obj_size := n, obj_type := GetType obj\<rparr>) obj"
  have "parse_step handlers pf always s = (Ok True, s\<lparr>pdec := advance (tb # string_bytes c key @ content) rest (pdec s),
        expireMs := 0, delivered := delivered s @ [?obj]\<rparr>)"
    if s: "valkey (pdec s) = vk" "lru s = None" "lfu s = None" "expireMs s = e" "dbIndex s = i"
      and inp: "input (pdec s) = (tb # string_bytes c key @ content) @ rest" for s :: "'v pstate" and rest
  proof -
    define s1 where "s1 = s\<lparr>pdec := advance [tb] (string_bytes c key @ content @ rest) (pdec s)\<rparr>"
    define s2 where "s2 = s1\<lparr>pdec := advance (string_bytes c key) (content @ rest) (pdec s1)\<rparr>"
    define s3 where "s3 = s2\<lparr>expireMs := 0\<rparr>"
    define s4 where "s4 = s3\<lparr>pdec := advance content rest (pdec s3)\<rparr>"
    have step: "parse_step handlers pf always s = parse_object handlers pf always tb s1"
      unfolding s1_def by (rule parse_step_object [OF _ small]) (simp add: inp)
    have k: "with_dec readString s1 = (Ok key, s2)"
      unfolding s2_def by (rule with_dec_parses [OF parses_string [OF key]]) (simp add: s1_def)
    have base: "new_base key s2 = (Ok ?base, s3)"
      using s \<open>0 \<le> e\<close> by (simp add: new_base_def empty_base_def s1_def s2_def s3_def)
    have rd: "with_dec (readObject handlers pf tb ?base) s3 = (Ok obj, s4)"
      unfolding s4_def by (rule with_dec_parses_as [OF obj(1)]) (use s in \<open>simp_all add: s1_def s2_def s3_def\<close>)
    have "parse_object handlers pf always tb s1 = (Ok True, s4\<lparr>delivered := delivered s4 @ [?obj]\<rparr>)"
      by (simp add: parse_object_def bind_Ok base rd n deliver_def k)
    then show ?thesis by (simp add: step s1_def s2_def s3_def s4_def)
  qed
  then have "object_step handlers pf vk (tb # string_bytes c key @ content) e i ?obj"
    by (simp add: object_step_def)
  moreover have "value_shows v ?obj" by (rule value_shows_map_base [OF obj(2)])
  ultimately show ?thesis
    by (intro exI [of _ ?obj]) (simp add: GetDBIndex_def GetKey_def GetExpiration_def obj(3) empty_base_def)
qed

lemma chunk_object:
  fixes handlers :: "'v handlers"
  assumes "object_reads TYPE('v) pf vk tb content v" and "short_string key" and t: "ttl_ok t"
  shows "\<exists>objs. chunk vk sp (parse_step handlers pf always)
      (ttl_bytes t @ tb # string_bytes c key @ content) (sint i) (sint i) objs \<and> list_all2 meets [EObj i key v t] objs"
proof -
  define e where "e = (case t of None \<Rightarrow> 0 | Some ms \<Rightarrow> sint ms)"
  have e: "0 \<le> e \<and> expiration_of e = map_option (\<lambda>ms. sint ms * 1000000) t"
  proof (cases t)
    case None
    then show ?thesis by (simp add: e_def expiration_of_def)
  next
    case (Some ms)
    with t have "0 < sint ms" by (simp add: ttl_ok_def)
    with expiration_of_ok [of ms] t Some show ?thesis by (simp add: e_def)
  qed
  obtain obj :: "'v redis_object" where
    step: "object_step handlers pf vk (tb # string_bytes c key @ content) e (sint i) obj"
    and m: "meets (EObj i key v t) obj"
    using object_round [OF assms(1,2) e [THEN conjunct1], where handlers = handlers and i = "sint i" and c = c] e
    by auto
  have "chunk vk sp (parse_step handlers pf always) (ttl_bytes t @ tb # string_bytes c key @ content)
      (sint i) (sint i) [obj]"
  proof (rule chunkI)
    fix s :: "'v pstate" and rest
    assume s: "quiet vk sp s" "dbIndex s = sint i"
      "input (pdec s) = (ttl_bytes t @ tb # string_bytes c key @ content) @ rest"
    let ?s1 = "s\<lparr>pdec := advance (ttl_bytes t) ((tb # string_bytes c key @ content) @ rest) (pdec s), expireMs := e\<rparr>"
    have "rounds (parse_step handlers pf always) s ?s1"
    proof (cases t)
      case None
      then have "?s1 = s" using s by (simp add: ttl_bytes_def e_def advance_Nil quiet_def)
      then show ?thesis by (simp only: rounds_refl)
    next
      case (Some ms)
      let ?s0 = "s\<lparr>pdec := advance [opCodeExpireTimeMs] (le_bytes 8 ms @ (tb # string_bytes c key @ content) @ rest) (pdec s)\<rparr>"
      have "parse_step handlers pf always s = parse_expire_time_ms ?s0"
        by (rule parse_step_ops) (use s Some in \<open>simp add: ttl_bytes_def\<close>)
      moreover have "with_dec (readFull 8) ?s0 =
          (Ok (le_bytes 8 ms), ?s0\<lparr>pdec := advance (le_bytes 8 ms) ((tb # string_bytes c key @ content) @ rest) (pdec ?s0)\<rparr>)"
        by (rule with_dec_parses [OF parses_readFull_eq]) simp_all
      ultimately show ?thesis
        by (intro rounds_step)
          (simp add: parse_expire_time_ms_def bind_Ok seq_def modify_def ret_def ttl_bytes_def Some e_def le_word_le_bytes)
    qed
    moreover have "parse_step handlers pf always ?s1 = (Ok True, ?s1\<lparr>pdec := advance (tb # string_bytes c key @ content)
        rest (pdec ?s1), expireMs := 0, delivered := delivered ?s1 @ [obj]\<rparr>)"
      by (rule step [unfolded object_step_def, rule_format]) (use s in \<open>simp_all add: quiet_def\<close>)
    ultimately have "rounds (parse_step handlers pf always) s (?s1\<lparr>pdec := advance (tb # string_bytes c key @ content)
        rest (pdec ?s1), expireMs := 0, delivered := delivered ?s1 @ [obj]\<rparr>)"
      using rounds_trans rounds_step by blast
    moreover have "?s1\<lparr>pdec := advance (tb # string_bytes c key @ content) rest (pdec ?s1), expireMs := 0,
        delivered := delivered ?s1 @ [obj]\<rparr> = s\<lparr>pdec := advance (ttl_bytes t @ tb # string_bytes c key @ content) rest
        (pdec s), dbIndex := sint i, delivered := delivered s @ [obj]\<rparr>"
      using s by (cases s) (simp add: quiet_def)
    ultimately show "rounds (parse_step handlers pf always) s (s\<lparr>pdec := advance (ttl_bytes t @ tb # string_bytes c key @
        content) rest (pdec s), dbIndex := sint i, delivered := delivered s @ [obj]\<rparr>)"
      by (simp only:)
  qed
  with m show ?thesis by (intro exI [of _ "[obj]"]) simp
qed

section \<open>Writing a file\<close>

text \<open>
  A client that writes aux fields and databases: index, the two counts, and objects with their key, value and
  time to live.
\<close>

type_synonym db_spec = "u64 \<times> u64 \<times> u64 \<times> (bytes \<times> object_value \<times> u64 option) list"

definition write_entry :: "(f64 \<Rightarrow> bytes) \<Rightarrow> bytes \<times> object_value \<times> u64 option \<Rightarrow> unit enc" where
  "write_entry ff entry = (case entry of (key, v, t) \<Rightarrow> write_value ff key v (ttl_options t))"

definition write_db :: "(f64 \<Rightarrow> bytes) \<Rightarrow> db_spec \<Rightarrow> unit enc" where
  "write_db ff d = (case d of (i, n, m, entries) \<Rightarrow> seq (WriteDBHeader i n m) (for_each entries (write_entry ff)))"

definition write_file :: "(f64 \<Rightarrow> bytes) \<Rightarrow> (bytes \<times> bytes) list \<Rightarrow> db_spec list \<Rightarrow> unit enc" where
  "write_file ff auxs dbs =
     seq WriteHeader (
     seq (for_each auxs (\<lambda>(k, v). WriteAux k v)) (
     seq (for_each dbs (write_db ff)) WriteEnd))"

definition expect_db :: "bool \<Rightarrow> db_spec \<Rightarrow> expect list" where
  "expect_db sp d = (case d of (i, n, m, entries) \<Rightarrow>
     (if sp then [ESize i n m] else []) @ map (\<lambda>(key, v, t). EObj i key v t) entries)"

definition expect_file :: "bool \<Rightarrow> (bytes \<times> bytes) list \<Rightarrow> db_spec list \<Rightarrow> expect list" where
  "expect_file sp auxs dbs = concat (map (\<lambda>(k, v). if sp then [EAux k v] else []) auxs) @ concat (map (expect_db sp) dbs)"

definition entry_ok ::
  "enc_cfg \<Rightarrow> (bytes \<Rightarrow> f64 option) \<Rightarrow> (f64 \<Rightarrow> bytes) \<Rightarrow> bytes \<times> object_value \<times> u64 option \<Rightarrow> bool" where
  "entry_ok k pf ff entry = (case entry of (key, v, t) \<Rightarrow> short_string key \<and> value_ok k pf ff v \<and> ttl_ok t)"

definition file_ok ::
  "enc_cfg \<Rightarrow> (bytes \<Rightarrow> f64 option) \<Rightarrow> (f64 \<Rightarrow> bytes) \<Rightarrow> (bytes \<times> bytes) list \<Rightarrow> db_spec list \<Rightarrow> bool" where
  "file_ok k pf ff auxs dbs \<longleftrightarrow>
     list_all (\<lambda>(a, b). short_string a \<and> short_string b) auxs \<and> distinct (map fst dbs) \<and>
     list_all (\<lambda>(i, n, m, entries). entries \<noteq> [] \<and> list_all (entry_ok k pf ff) entries) dbs"

text \<open>
  \<open>written vk sp step e e' j i ex\<close>: from \<open>e\<close> to \<open>e'\<close> a chunk has been added to the output that reads as \<open>ex\<close>.
\<close>

definition written ::
  "bool \<Rightarrow> bool \<Rightarrow> ('v pstate, bool) comp \<Rightarrow> encoder \<Rightarrow> encoder \<Rightarrow> int \<Rightarrow> int \<Rightarrow> expect list \<Rightarrow> bool" where
  "written vk sp step e e' j i ex \<longleftrightarrow> reliable e' \<and> cfg e' = cfg e \<and>
     (\<exists>bs objs. out e' = out e @ bs \<and> chunk vk sp step bs j i objs \<and> list_all2 meets ex objs)"

lemma writtenI:
  "reliable e' \<Longrightarrow> cfg e' = cfg e \<Longrightarrow> out e' = out e @ bs \<Longrightarrow> chunk vk sp step bs j i objs \<Longrightarrow>
   list_all2 meets ex objs \<Longrightarrow> written vk sp step e e' j i ex"
  by (auto simp: written_def)

lemma written_refl: "reliable e \<Longrightarrow> written vk sp step e e i i []"
  by (rule writtenI [where bs = "[]" and objs = "[]"]) (simp_all add: chunk_Nil)

lemma written_trans:
  assumes "written vk sp step e e1 j k ex" and "written vk sp step e1 e2 k i ex'"
  shows "written vk sp step e e2 j i (ex @ ex')"
proof -
  from assms(1) obtain bs objs where 1: "reliable e1" "cfg e1 = cfg e" "out e1 = out e @ bs"
    "chunk vk sp step bs j k objs" "list_all2 meets ex objs" by (auto simp: written_def)
  from assms(2) obtain cs objs' where 2: "reliable e2" "cfg e2 = cfg e1" "out e2 = out e1 @ cs"
    "chunk vk sp step cs k i objs'" "list_all2 meets ex' objs'" by (auto simp: written_def)
  show ?thesis
    by (rule writtenI [OF 2(1) _ _ chunk_append [OF 1(4) 2(4)] list_all2_appendI [OF 1(5) 2(5)]])
      (simp_all add: 1 2)
qed

lemma write_auxs:
  fixes handlers :: "'v handlers"
  assumes "list_all (\<lambda>(a, b). short_string a \<and> short_string b) auxs" and "reliable e"
    and "state e = writtenHeaderState \<or> state e = writtenAuxState"
  shows "\<exists>e'. for_each auxs (\<lambda>(k, v). WriteAux k v) e = (Ok (), e') \<and>
    written vk sp (parse_step handlers pf always) e e' i i (concat (map (\<lambda>(k, v). if sp then [EAux k v] else []) auxs)) \<and>
    (state e' = writtenHeaderState \<or> state e' = writtenAuxState) \<and> existDB e' = existDB e"
  using assms
proof (induction auxs arbitrary: e)
  case Nil
  then show ?case by (auto simp: ret_def written_refl)
next
  case (Cons kv auxs)
  obtain k v where kv: "kv = (k, v)" by fastforce
  then have s: "short_string k" "short_string v" using Cons.prems by simp_all
  let ?e1 = "(put (aux_bytes (compress e) k v) e)\<lparr>state := writtenAuxState\<rparr>"
  have w1: "WriteAux k v e = (Ok (), ?e1)" by (rule WriteAux_reliable [OF Cons.prems(2,3) s])
  have 1: "written vk sp (parse_step handlers pf always) e ?e1 i i (if sp then [EAux k v] else [])"
    by (rule writtenI [OF _ _ _ chunk_aux [OF s]]) (use Cons.prems in \<open>simp_all add: cfg_def reliable_def put_def\<close>)
  have "reliable ?e1" using Cons.prems by (simp add: reliable_def put_def)
  with Cons obtain e2 where "for_each auxs (\<lambda>(k, v). WriteAux k v) ?e1 = (Ok (), e2)"
    "written vk sp (parse_step handlers pf always) ?e1 e2 i i (concat (map (\<lambda>(k, v). if sp then [EAux k v] else []) auxs))"
    "state e2 = writtenHeaderState \<or> state e2 = writtenAuxState" "existDB e2 = existDB ?e1"
    by fastforce
  then show ?case using w1 written_trans [OF 1] kv by (auto simp: seq_Ok put_def)
qed

lemma write_entry_written:
  fixes handlers :: "'v handlers"
  assumes "entry_ok (cfg e) pf ff (key, v, t)" and "reliable e"
    and "state e = writtenDBHeaderState \<or> state e = writtenObjectState"
  shows "\<exists>e'. write_entry ff (key, v, t) e = (Ok (), e') \<and>
    written (enc_valkey e) sp (parse_step handlers pf always) e e' (sint i) (sint i) [EObj i key v t] \<and>
    state e' = writtenObjectState \<and> existDB e' = existDB e"
proof -
  have ok: "short_string key" "value_ok (cfg e) pf ff v" "ttl_ok t" using assms(1) by (simp_all add: entry_ok_def)
  obtain tb content where em: "emits_in (cfg e) (value_body ff key v) (tb # string_bytes (compress e) key @ content) ()"
    and rd: "object_reads TYPE('v) pf (enc_valkey e) tb content v"
    using value_reads [OF ok(2,1) cfg_def, where 'v = 'v] by blast
  let ?bs = "ttl_bytes t @ tb # string_bytes (compress e) key @ content"
  have w: "write_entry ff (key, v, t) e = (Ok (), (put ?bs e)\<lparr>state := writtenObjectState\<rparr>)"
    using write_object_reliable [OF assms(2) _ em, of t] assms(3)
    by (auto simp: write_entry_def write_value_body object_state_def)
  obtain objs where "chunk (enc_valkey e) sp (parse_step handlers pf always) ?bs (sint i) (sint i) objs"
    "list_all2 meets [EObj i key v t] objs"
    using chunk_object [OF rd ok(1,3)] by blast
  then have "written (enc_valkey e) sp (parse_step handlers pf always) e ((put ?bs e)\<lparr>state := writtenObjectState\<rparr>)
      (sint i) (sint i) [EObj i key v t]"
    by (intro writtenI) (use assms(2) in \<open>simp_all add: cfg_def reliable_def put_def\<close>)
  with w show ?thesis by (intro exI conjI) (assumption | simp)+
qed

lemma cfg_valkey: "cfg e = cfg e' \<Longrightarrow> enc_valkey e = enc_valkey e'"
  by (simp add: cfg_def)

lemma write_entries:
  fixes handlers :: "'v handlers"
  assumes "list_all (entry_ok (cfg e) pf ff) entries" and "reliable e"
    and "state e = writtenDBHeaderState \<or> state e = writtenObjectState"
  shows "\<exists>e'. for_each entries (write_entry ff) e = (Ok (), e') \<and>
    written (enc_valkey e) sp (parse_step handlers pf always) e e' (sint i) (sint i)
      (map (\<lambda>(key, v, t). EObj i key v t) entries) \<and>
    (state e' = (if entries = [] then state e else writtenObjectState)) \<and> existDB e' = existDB e"
  using assms
proof (induction entries arbitrary: e)
  case Nil
  then show ?case by (auto simp: ret_def written_refl)
next
  case (Cons entry entries)
  obtain key v t where entry: "entry = (key, v, t)" by (cases entry)
  obtain e1 where 1: "write_entry ff (key, v, t) e = (Ok (), e1)"
    "written (enc_valkey e) sp (parse_step handlers pf always) e e1 (sint i) (sint i) [EObj i key v t]"
    "state e1 = writtenObjectState" "existDB e1 = existDB e"
    using write_entry_written [of e pf ff key v t sp handlers i] Cons.prems entry by auto
  from 1(2) have e1: "reliable e1" "cfg e1 = cfg e" by (auto simp: written_def)
  obtain e2 where "for_each entries (write_entry ff) e1 = (Ok (), e2)"
    "written (enc_valkey e) sp (parse_step handlers pf always) e1 e2 (sint i) (sint i)
      (map (\<lambda>(key, v, t). EObj i key v t) entries)"
    "state e2 = writtenObjectState" "existDB e2 = existDB e1"
    using Cons.IH [of e1] Cons.prems 1(3) e1 cfg_valkey [OF e1(2)] by (auto split: if_splits)
  with 1 written_trans [OF 1(2)] entry show ?case by (auto simp: seq_Ok)
qed

lemma write_dbs:
  fixes handlers :: "'v handlers"
  assumes "list_all (\<lambda>(i, n, m, entries). entries \<noteq> [] \<and> list_all (entry_ok (cfg e) pf ff) entries) dbs"
    and "distinct (map fst dbs)" and "set (map fst dbs) \<inter> set (existDB e) = {}"
    and "reliable e" and "closable (state e)"
  shows "\<exists>e' i. for_each dbs (write_db ff) e = (Ok (), e') \<and> closable (state e') \<and>
    written (enc_valkey e) sp (parse_step handlers pf always) e e' j i (concat (map (expect_db sp) dbs))"
  using assms
proof (induction dbs arbitrary: e j)
  case Nil
  then show ?case by (auto simp: ret_def intro: written_refl)
next
  case (Cons d dbs)
  obtain i n m entries where d: "d = (i, n, m, entries)" by (cases d)
  let ?e1 = "(put (db_bytes i n m) e)\<lparr>existDB := i # existDB e, state := writtenDBHeaderState\<rparr>"
  have hd: "WriteDBHeader i n m e = (Ok (), ?e1)"
    using Cons.prems d by (intro WriteDBHeader_reliable) auto
  have r1: "reliable ?e1" "cfg ?e1 = cfg e" "enc_valkey ?e1 = enc_valkey e"
    using Cons.prems by (simp_all add: reliable_def put_def cfg_def)
  have 1: "written (enc_valkey e) sp (parse_step handlers pf always) e ?e1 j (sint i) (if sp then [ESize i n m] else [])"
    by (rule writtenI [OF r1(1,2) _ chunk_db [where n = n and m = m]]) simp_all
  obtain e2 where 2: "for_each entries (write_entry ff) ?e1 = (Ok (), e2)"
    "written (enc_valkey e) sp (parse_step handlers pf always) ?e1 e2 (sint i) (sint i)
      (map (\<lambda>(key, v, t). EObj i key v t) entries)"
    "state e2 = writtenObjectState" "existDB e2 = i # existDB e"
    using write_entries [of ?e1 pf ff entries sp handlers i] Cons.prems(1) r1 d by auto
  have r2: "reliable e2" "cfg e2 = cfg e" using 2(2) r1 by (simp_all add: written_def)
  have db: "write_db ff d e = (Ok (), e2)" by (simp add: write_db_def d seq_Ok hd 2(1))
  have "set (map fst dbs) \<inter> set (existDB e2) = {}" using Cons.prems(2,3) d 2(4) by auto
  then obtain e3 i' where 3: "for_each dbs (write_db ff) e2 = (Ok (), e3)" "closable (state e3)"
    "written (enc_valkey e) sp (parse_step handlers pf always) e2 e3 (sint i) i' (concat (map (expect_db sp) dbs))"
    using Cons.IH [of e2 "sint i"] Cons.prems r2 cfg_valkey [OF r2(2)] 2(3) by (auto simp: closable_def)
  have "for_each (d # dbs) (write_db ff) e = (Ok (), e3)" by (simp add: seq_Ok db 3(1))
  moreover have "concat (map (expect_db sp) (d # dbs)) = (if sp then [ESize i n m] else []) @
      map (\<lambda>(key, v, t). EObj i key v t) entries @ concat (map (expect_db sp) dbs)"
    by (simp add: expect_db_def d)
  ultimately show ?case
    using written_trans [OF 1 written_trans [OF 2(2) 3(3)]] 3(2) by (intro exI conjI) (assumption | simp only:)+
qed

section \<open>Reading it back\<close>

lemma checkHeader_written:
  assumes "input d = header_bytes vk @ rest"
  shows "checkHeader d = (Ok (), (advance (header_bytes vk) rest d)
    \<lparr>valkey := vk, rdbVersion := (if vk then 80 else 11)\<rparr>)"
proof -
  have h: "readFull 9 d = (Ok (header_bytes vk), advance (header_bytes vk) rest d)"
    by (rule parsesD [OF parses_readFull_eq assms]) (simp add: header_bytes_def rdbHeaderRedis_def rdbHeaderValkey_def)
  have v: "header_version (header_bytes vk) = Some (vk, if vk then ascii ''080'' else ascii ''0011'')"
    by (simp add: header_version_def header_bytes_def rdbHeaderRedis_def rdbHeaderValkey_def magicNumberRedis_def
        magicNumberValkey_def ascii_def)
  have "parse_int 64 (ascii ''080'') = Some 80" "parse_int 64 (ascii ''0011'') = Some 11" by (simp_all add: parse_int_def ascii_def parse_digits_def is_digit_byte_def digits_val_def digit_val_def)
  then have p: "parse_int 64 (if vk then ascii ''080'' else ascii ''0011'') = Some (if vk then 80 else 11)" by simp
  show ?thesis
    by (simp add: checkHeader_def h check_version_def v p version_ok_def minVersion_def maxVersion_def
        minVersionValkey_def maxVersionValkey_def seq_def bind_def modify_def)
qed

lemma whole_file:
  fixes handlers :: "'v handlers"
  assumes ok: "file_ok (cfg e) pf ff auxs dbs" and e: "reliable e" "state e = startState" "existDB e = []" "out e = []"
    and h: "reading_handlers handlers"
  shows "\<exists>e'. write_file ff auxs dbs e = (Ok (), e') \<and>
    (\<forall>d. withSpecialOpCode d = sp \<longrightarrow> input d = out e' \<longrightarrow> (\<exists>s. Parse handlers pf always d = (Ok (), s) \<and>
      list_all2 meets (expect_file sp auxs dbs) (delivered s) \<and> input (pdec s) = [] \<and>
      GetReadCount (pdec s) = GetReadCount d + length (out e')))"
proof -
  let ?vk = "enc_valkey e" and ?step = "parse_step handlers pf always"
  let ?e1 = "(put (header_bytes ?vk) e)\<lparr>state := writtenHeaderState\<rparr>"
  have e1: "WriteHeader e = (Ok (), ?e1)" by (rule WriteHeader_reliable [OF e(1,2)])
  have r1: "reliable ?e1" "cfg ?e1 = cfg e" "existDB ?e1 = []" using e by (simp_all add: reliable_def put_def cfg_def)
  obtain e2 where 2: "for_each auxs (\<lambda>(k, v). WriteAux k v) ?e1 = (Ok (), e2)"
    "written ?vk sp ?step ?e1 e2 0 0 (concat (map (\<lambda>(k, v). if sp then [EAux k v] else []) auxs))"
    "closable (state e2)" "existDB e2 = []"
    using write_auxs [of auxs ?e1 ?vk sp handlers pf 0] ok r1 by (auto simp: file_ok_def closable_def)
  have r2: "reliable e2" "cfg e2 = cfg e" using 2(2) r1 by (simp_all add: written_def)
  obtain e3 i where 3: "for_each dbs (write_db ff) e2 = (Ok (), e3)" "closable (state e3)"
    "written ?vk sp ?step e2 e3 0 i (concat (map (expect_db sp) dbs))"
    using write_dbs [of e2 pf ff dbs sp handlers 0] ok r2 2(3,4) cfg_valkey [OF r2(2)] by (auto simp: file_ok_def)
  from written_trans [OF 2(2) 3(3)] obtain bs objs where w: "reliable e3" "out e3 = header_bytes ?vk @ bs"
    "chunk ?vk sp ?step bs 0 i objs" "list_all2 meets (expect_file sp auxs dbs) objs"
    using e(4) by (auto simp: written_def expect_file_def)
  obtain e4 where 4: "WriteEnd e3 = (Ok (), e4)"
    "out e4 = out e3 @ [opCodeEOF] @ digest_sum (digest_write (crc e3) [opCodeEOF])"
    using WriteEnd_reliable_ok [OF w(1) 3(2)] by blast
  define sum where "sum = digest_sum (digest_write (crc e3) [opCodeEOF])"
  have len: "length sum = 8" by (simp add: sum_def digest_sum_def)
  have wr: "write_file ff auxs dbs e = (Ok (), e4)"
    by (simp add: write_file_def seq_Ok e1 2(1) 3(1) 4(1))
  have bytes: "out e4 = header_bytes ?vk @ bs @ opCodeEOF # sum" by (simp add: 4(2) w(2) sum_def)
  have "\<exists>s. Parse handlers pf always d = (Ok (), s) \<and> delivered s = objs \<and> input (pdec s) = [] \<and>
      GetReadCount (pdec s) = GetReadCount d + length (out e4)" if sp: "withSpecialOpCode d = sp" and inp: "input d = out e4" for d
  proof -
    obtain n where n: "checkHeader d = (Ok (), (advance (header_bytes ?vk) (bs @ opCodeEOF # sum) d)
        \<lparr>valkey := ?vk, rdbVersion := n\<rparr>)"
      using checkHeader_written [of d ?vk "bs @ opCodeEOF # sum"] inp bytes by simp
    define s0 :: "'v pstate" where "s0 = (parse_start d)\<lparr>pdec := (advance (header_bytes ?vk) (bs @ opCodeEOF # sum) d)
        \<lparr>valkey := ?vk, rdbVersion := n\<rparr>\<rparr>"
    have hd: "with_dec checkHeader (parse_start d) = (Ok (), s0)"
      by (simp add: with_dec_def n s0_def parse_start_def)
    have q: "quiet ?vk sp s0" "dbIndex s0 = 0" "input (pdec s0) = bs @ opCodeEOF # sum"
      by (simp_all add: quiet_def s0_def parse_start_def sp advance_def)
    define s1 where "s1 = s0\<lparr>pdec := advance bs (opCodeEOF # sum) (pdec s0), dbIndex := i,
        delivered := delivered s0 @ objs\<rparr>"
    have r: "rounds ?step s0 s1" using w(3) q unfolding chunk_def s1_def by blast
    define s2 where "s2 = s1\<lparr>pdec := advance [opCodeEOF] sum (pdec s1)\<rparr>"
    have eof: "?step s1 = (Ok False, s2)" unfolding s2_def by (rule parse_step_ops) (simp add: s1_def)
    have sum: "with_dec (readFull 8) s2 = (Ok sum, s2\<lparr>pdec := advance sum [] (pdec s2)\<rparr>)"
      by (rule with_dec_parses [OF parses_readFull_eq [OF len]]) (simp add: s2_def)
    have "parse handlers pf always s0 = (Ok (), s2\<lparr>pdec := advance sum [] (pdec s2)\<rparr>)"
      unfolding parse_ends [OF h r eof] by (simp add: seq_def bind_def ignore_err_def sum ret_def)
    then have "Parse handlers pf always d = (Ok (), s2\<lparr>pdec := advance sum [] (pdec s2)\<rparr>)"
      by (simp add: Parse_def seq_Ok hd recovered_def)
    then show ?thesis
      by (intro exI conjI, assumption)
        (simp_all add: s2_def s1_def s0_def parse_start_def GetReadCount_def bytes advance_def)
  qed
  with wr w(4) show ?thesis by blast
qed

text \<open>
  C1. A file is read back as it was written. Over a reliable writer a new encoder, with any settings, accepts
  the header, any aux fields, and databases of distinct index with at least one object each; and
  \<open>Parse\<close> of its output, with a callback that always goes on, returns no error, has read the whole file, and
  has delivered, in order, every object with its database, key, value and expiration (and, under
  \<open>WithSpecialOpCode\<close>, the aux fields and the database sizes). A value is a string, list, set, hash (with or without
  expirations of fields), sorted set or stream, in whichever encoding the settings select.
\<close>

theorem file_roundtrip:
  assumes "file_ok (cfg e) pf ff auxs dbs"
    and "reliable e" and "state e = startState" and "existDB e = []" and "out e = []"
    and "reading_handlers handlers"
  shows "\<exists>e' s. write_file ff auxs dbs e = (Ok (), e') \<and>
    Parse handlers pf (\<lambda>_ _. True) ((if sp then WithSpecialOpCode else (\<lambda>d. d)) (NewDecoder (out e'))) = (Ok (), s) \<and>
    list_all2 meets (expect_file sp auxs dbs) (delivered s) \<and> input (pdec s) = [] \<and>
    GetReadCount (pdec s) = length (out e')"
proof -
  obtain e' where e': "write_file ff auxs dbs e = (Ok (), e')"
    "\<forall>d. withSpecialOpCode d = sp \<longrightarrow> input d = out e' \<longrightarrow> (\<exists>s. Parse handlers pf always d = (Ok (), s) \<and>
      list_all2 meets (expect_file sp auxs dbs) (delivered s) \<and> input (pdec s) = [] \<and>
      GetReadCount (pdec s) = GetReadCount d + length (out e'))"
    using whole_file [OF assms, where sp = sp] by (elim exE conjE) (rule that)
  let ?d = "(if sp then WithSpecialOpCode else (\<lambda>d. d)) (NewDecoder (out e'))"
  have "withSpecialOpCode ?d = sp" "input ?d = out e'" "GetReadCount ?d = 0"
    by (simp_all add: WithSpecialOpCode_def NewDecoder_def GetReadCount_def)
  with e'(2) obtain s where "Parse handlers pf always ?d = (Ok (), s)" "list_all2 meets (expect_file sp auxs dbs) (delivered s)"
    "input (pdec s) = []" "GetReadCount (pdec s) = length (out e')"
    by (metis add_0)
  with e'(1) show ?thesis by blast
qed

definition sample_dbs :: "db_spec list" where
  "sample_dbs =
    [(0, 2, 1, [([107], VString [118], Some 1700000000000), ([108], VList [[49], [97, 98]], None)]),
     (5, 1, 0, [([115], VSet [[51], [49]], None)])]"

theorem file_roundtrip_witness:
  "\<exists>e' s. write_file (\<lambda>_. []) [([97], [98])] sample_dbs (NewEncoderValkey (\<lambda>_ _. None)) = (Ok (), e') \<and>
    Parse (\<lambda>_. None :: (int \<Rightarrow> nat option dec) option) (\<lambda>_. None) (\<lambda>_ _. True)
      ((if True then WithSpecialOpCode else (\<lambda>d. d)) (NewDecoder (out e'))) = (Ok (), s) \<and>
    list_all2 meets (expect_file True [([97], [98])] sample_dbs) (delivered s) \<and> input (pdec s) = [] \<and>
    GetReadCount (pdec s) = length (out e')"
proof (rule file_roundtrip)
  show "file_ok (cfg (NewEncoderValkey (\<lambda>_ _. None))) (\<lambda>_. None) (\<lambda>_. []) [([97], [98])] sample_dbs"
    by (simp add: file_ok_def sample_dbs_def entry_ok_def value_ok_def cfg_def NewEncoderValkey_def NewEncoder_def
        short_string_def ttl_ok_def list_ok_def set_ok_def zl_ok_def)
qed (simp_all add: NewEncoderValkey_def NewEncoder_def reliable_def reading_handlers_def)

end
