(* ===== verification/Toplist.thy ===== *)
theory Toplist
  imports Memprofiler "HOL-Library.Multiset"
begin

text \<open>
  The bounded lists that keep the largest elements seen: \<open>topList\<close> (\<open>helper/toplist.go\<close>) and \<open>hotKeyList\<close>
  (\<open>helper/hotkey.go\<close>), the same algorithm over another number. The method of the interface \<open>Sized\<close> is an
  argument. The locale \<open>ranking\<close> is what their clients rely on: one insertion into a sorted list; from it
  follows what is in the list after any sequence of insertions.
\<close>

section \<open>Insertion\<close>

text \<open>
  \<open>tl.list = append(tl.list, x); copy(tl.list[index+1:], tl.list[index:]); tl.list[index] = x\<close>; \<open>copy\<close>
  moves as many elements as the destination holds, as if by way of a temporary.
\<close>

definition shift_in :: "nat \<Rightarrow> 'x \<Rightarrow> 'x list \<Rightarrow> 'x list" where
  "shift_in index x l =
     (let l1 = l @ [x];
          l2 = take (index + 1) l1 @ take (length l1 - (index + 1)) (drop index l1) in
      l2[index := x])"

definition cut_list :: "int \<Rightarrow> 'x list \<Rightarrow> 'x list result" where
  "cut_list capacity l =
     (if capacity < int (length l) then
        (if capacity < 0 then Panic SliceRange else Ok (take (nat capacity) l))
      else Ok l)"

definition topList_add :: "('x \<Rightarrow> int) \<Rightarrow> int \<Rightarrow> 'x list \<Rightarrow> 'x \<Rightarrow> 'x list result" where
  "topList_add getSize capacity l x =
     (let index = sort_search (\<lambda>i. getSize (l ! i) \<le> getSize x) 0 (length l) in
      cut_list capacity (shift_in index x l))"

record 'v hotKeyEntry =
  hk_object :: "'v redis_object"
  hk_freq :: int

definition hotKeyList_add :: "int \<Rightarrow> 'v hotKeyEntry list \<Rightarrow> 'v hotKeyEntry \<Rightarrow> 'v hotKeyEntry list result" where
  "hotKeyList_add capacity l entry =
     (let index = sort_search (\<lambda>i. hk_freq (l ! i) \<le> hk_freq entry) 0 (length l) in
      cut_list capacity (shift_in index entry l))"

text \<open>A sequence of insertions; a panic ends it.\<close>

fun add_all :: "('x list \<Rightarrow> 'x \<Rightarrow> 'x list result) \<Rightarrow> 'x list \<Rightarrow> 'x list \<Rightarrow> 'x list result" where
  "add_all add l [] = Ok l"
| "add_all add l (x # xs) = (case add l x of Ok l' \<Rightarrow> add_all add l' xs | Err e \<Rightarrow> Err e | Panic p \<Rightarrow> Panic p)"

section \<open>What the lists keep\<close>

abbreviation ranked :: "('x \<Rightarrow> int) \<Rightarrow> 'x list \<Rightarrow> bool" where
  "ranked score l \<equiv> sorted (map (\<lambda>x. - score x) l)"

definition ranking_of :: "('x \<Rightarrow> int) \<Rightarrow> 'x list \<Rightarrow> 'x list" where
  "ranking_of score xs = sort_key (\<lambda>x. - score x) (rev xs)"

lemma take_insort_take:
  fixes f :: "'x \<Rightarrow> int"
  shows "take n (insort_key f x (take n l)) = take n (insort_key f x l)"
proof (induction l arbitrary: n)
  case (Cons y l)
  then show ?case by (cases n) (auto simp: take_Cons' split: nat.splits)
qed simp

locale ranking =
  fixes score :: "'x \<Rightarrow> int" and add :: "int \<Rightarrow> 'x list \<Rightarrow> 'x \<Rightarrow> 'x list result"
  assumes add_spec: "0 \<le> cap \<Longrightarrow> ranked score l \<Longrightarrow> int (length l) \<le> cap \<Longrightarrow>
    add cap l x = Ok (take (nat cap) (insort_key (\<lambda>x. - score x) x l))"
begin

lemma add_ranked:
  assumes "0 \<le> cap" and "ranked score l" and "int (length l) \<le> cap"
  obtains l' where "add cap l x = Ok l'" "ranked score l'" "int (length l') \<le> cap"
proof
  let ?l = "take (nat cap) (insort_key (\<lambda>x. - score x) x l)"
  show "add cap l x = Ok ?l" by (rule add_spec [OF assms])
  show "ranked score ?l" using assms(2) by (simp add: take_map [symmetric] sorted_wrt_take sorted_insort_key)
  show "int (length ?l) \<le> cap" using assms(1) by simp
qed

lemma add_all_append: "add_all f l (xs @ ys) = rbind (add_all f l xs) (\<lambda>l'. add_all f l' ys)"
  by (induction xs arbitrary: l) (auto simp: rbind_def split: result.splits)

lemma add_all_ranked:
  assumes "0 \<le> cap" and "ranked score l" and "int (length l) \<le> cap"
  obtains l' where "add_all (add cap) l xs = Ok l'" "ranked score l'" "int (length l') \<le> cap"
  using assms
proof (induction xs arbitrary: l thesis)
  case (Cons x xs)
  obtain l1 where 1: "add cap l x = Ok l1" "ranked score l1" "int (length l1) \<le> cap"
    by (rule add_ranked [OF Cons.prems(2-4)])
  show ?case by (rule Cons.IH [OF _ Cons.prems(2) 1(2,3)]) (rule Cons.prems(1), simp_all add: 1(1))
qed simp

lemma add_all_from:
  assumes "0 \<le> cap" and "ranked score l"
  shows "add_all (add cap) (take (nat cap) l) xs = Ok (take (nat cap) (fold (insort_key (\<lambda>x. - score x)) xs l))"
  using assms(2)
proof (induction xs arbitrary: l)
  case (Cons x xs)
  have "ranked score (take (nat cap) l)" using Cons.prems by (simp add: take_map [symmetric] sorted_wrt_take)
  moreover have "int (length (take (nat cap) l)) \<le> cap" using assms(1) by simp
  ultimately have "add cap (take (nat cap) l) x = Ok (take (nat cap) (insort_key (\<lambda>x. - score x) x l))"
    using add_spec [OF assms(1)] by (simp add: take_insort_take)
  moreover have "ranked score (insort_key (\<lambda>x. - score x) x l)" using Cons.prems by (simp add: sorted_insort_key)
  ultimately show ?case using Cons.IH by simp
qed simp

lemma add_all_top: "0 \<le> cap \<Longrightarrow> add_all (add cap) [] xs = Ok (take (nat cap) (ranking_of score xs))"
  using add_all_from [of cap "[]" xs] by (simp add: ranking_of_def sort_key_def foldr_conv_fold)

end

lemma ranking_of_props:
  "ranked score (ranking_of score xs)" "mset (ranking_of score xs) = mset xs"
  "length (ranking_of score xs) = length xs"
  by (simp_all add: ranking_of_def)

text \<open>Nothing that is left out is larger than anything that is kept.\<close>

lemma ranking_of_kept:
  assumes "x \<in> set (take n (ranking_of score xs))" and "y \<in> set (drop n (ranking_of score xs))"
  shows "score y \<le> score x"
proof -
  have "sorted (map (\<lambda>x. - score x) (take n (ranking_of score xs) @ drop n (ranking_of score xs)))"
    by (simp only: append_take_drop_id ranking_of_props(1))
  then have "- score x \<le> - score y" using assms unfolding map_append sorted_append by auto
  then show ?thesis by simp
qed

section \<open>The code's insertion is the contract's\<close>

lemma shift_in_eq:
  assumes "index \<le> length l"
  shows "shift_in index x l = take index l @ x # drop index l"
proof -
  let ?l2 = "take (index + 1) (l @ [x]) @ take (length (l @ [x]) - (index + 1)) (drop index (l @ [x]))"
  have "take index ?l2 = take index l" "drop (Suc index) ?l2 = drop index l" "index < length ?l2"
    using assms by simp_all
  then show ?thesis by (simp only: shift_in_def Let_def upd_conv_take_nth_drop)
qed

lemma insort_key_split:
  fixes f :: "'x \<Rightarrow> int"
  assumes "\<forall>y \<in> set ys. f y < f x" and "\<forall>y \<in> set zs. f x \<le> f y"
  shows "insort_key f x (ys @ zs) = ys @ x # zs"
  using assms(1)
proof (induction ys)
  case Nil
  then show ?case using assms(2) by (cases zs) auto
qed auto

lemma search_insort:
  assumes "ranked score l"
  shows "shift_in (sort_search (\<lambda>i. score (l ! i) \<le> score x) 0 (length l)) x l = insort_key (\<lambda>x. - score x) x l"
proof -
  let ?f = "\<lambda>i. score (l ! i) \<le> score x" and ?r = "sort_search (\<lambda>i. score (l ! i) \<le> score x) 0 (length l)"
  have "score (l ! b) \<le> score (l ! a)" if "a \<le> b" "b < length l" for a b
    using assms that sorted_nth_mono [of "map (\<lambda>x. - score x) l" a b] by simp
  then have "\<forall>a b. a \<le> b \<longrightarrow> b < length l \<longrightarrow> ?f a \<longrightarrow> ?f b" by (meson order_trans)
  then have "?r \<le> length l \<and> (\<forall>k < ?r. \<not> ?f k) \<and> (\<forall>k. ?r \<le> k \<longrightarrow> k < length l \<longrightarrow> ?f k)"
    by (rule sort_search_spec) simp_all
  then have r: "?r \<le> length l" "\<forall>k < ?r. \<not> ?f k" "\<forall>k. ?r \<le> k \<longrightarrow> k < length l \<longrightarrow> ?f k" by blast+
  have "\<forall>y \<in> set (take ?r l). - score y < - score x" using r(1,2) by (auto simp: in_set_conv_nth not_le)
  moreover have "\<forall>y \<in> set (drop ?r l). - score x \<le> - score y" using r(3) by (auto simp: in_set_conv_nth)
  ultimately have "insort_key (\<lambda>x. - score x) x (take ?r l @ drop ?r l) = take ?r l @ x # drop ?r l"
    by (rule insort_key_split)
  then show ?thesis by (simp add: shift_in_eq [OF r(1)])
qed

lemma cut_list_eq: "0 \<le> cap \<Longrightarrow> cut_list cap l = Ok (take (nat cap) l)"
  by (auto simp: cut_list_def)

interpretation top_list: ranking getSize "topList_add getSize"
  by unfold_locales (simp add: topList_add_def search_insort cut_list_eq)

interpretation hot_list: ranking hk_freq hotKeyList_add
  by unfold_locales (simp add: hotKeyList_add_def search_insort cut_list_eq)

end
