(* ===== verification/GoStrings.thy ===== *)
theory GoStrings
  imports Strconv
begin

text \<open>
  The functions of package \<open>strings\<close> that the helpers use, on byte strings. What they do with an empty
  separator (they cut after every UTF-8 character) is an argument, \<open>explode\<close>.
\<close>

fun index_of :: "bytes \<Rightarrow> bytes \<Rightarrow> nat option" where
  "index_of sep [] = (if sep = [] then Some 0 else None)"
| "index_of sep (c # s) =
     (if take (length sep) (c # s) = sep then Some 0 else map_option Suc (index_of sep s))"

text \<open>Cuts at the first \<open>n\<close> occurrences.\<close>

fun split_upto :: "nat \<Rightarrow> bytes \<Rightarrow> bytes \<Rightarrow> bytes list" where
  "split_upto 0 sep s = [s]"
| "split_upto (Suc n) sep s = (case index_of sep s of
     None \<Rightarrow> [s]
   | Some m \<Rightarrow> take m s # split_upto n sep (drop (m + length sep) s))"

definition SplitN :: "(bytes \<Rightarrow> int \<Rightarrow> bytes list) \<Rightarrow> bytes \<Rightarrow> bytes \<Rightarrow> int \<Rightarrow> bytes list" where
  "SplitN explode s sep n =
     (if n = 0 then []
      else if sep = [] then explode s n
      else if n < 0 then split_upto (length s) sep s
      else split_upto (nat n - 1) sep s)"

definition Split :: "(bytes \<Rightarrow> int \<Rightarrow> bytes list) \<Rightarrow> bytes \<Rightarrow> bytes \<Rightarrow> bytes list" where
  "Split explode s sep = SplitN explode s sep (-1)"

fun Join :: "bytes list \<Rightarrow> bytes \<Rightarrow> bytes" where
  "Join [] sep = []"
| "Join [s] sep = s"
| "Join (s # t # ss) sep = s @ sep @ Join (t # ss) sep"

text \<open>With an empty \<open>old\<close>, \<open>new\<close> is put in front of every character and at the end.\<close>

definition ReplaceAll :: "(bytes \<Rightarrow> int \<Rightarrow> bytes list) \<Rightarrow> bytes \<Rightarrow> bytes \<Rightarrow> bytes \<Rightarrow> bytes" where
  "ReplaceAll explode s old new =
     (if old = [] then new @ concat (map (\<lambda>c. c @ new) (explode s (-1)))
      else Join (Split explode s old) new)"

definition TrimSuffix :: "bytes \<Rightarrow> bytes \<Rightarrow> bytes" where
  "TrimSuffix s suffix =
     (if length suffix \<le> length s \<and> drop (length s - length suffix) s = suffix
      then take (length s - length suffix) s else s)"

section \<open>Laws\<close>

lemma index_of_Some:
  "index_of sep s = Some m \<Longrightarrow> m + length sep \<le> length s \<and> s = take m s @ sep @ drop (m + length sep) s"
proof (induction s arbitrary: m)
  case (Cons c s)
  show ?case
  proof (cases "take (length sep) (c # s) = sep")
    case True
    then have "length (take (length sep) (c # s)) = length sep" by simp
    then have "length sep \<le> length (c # s)" by simp
    moreover have "c # s = sep @ drop (length sep) (c # s)" using True by (metis append_take_drop_id)
    ultimately show ?thesis using True Cons.prems by (simp del: take_Cons' drop_Cons')
  next
    case False
    with Cons.prems obtain k where "index_of sep s = Some k" "m = Suc k" by auto
    with Cons.IH [of k] show ?thesis by simp
  qed
qed (auto split: if_splits)

lemma Join_Cons: "ss \<noteq> [] \<Longrightarrow> Join (s # ss) sep = s @ sep @ Join ss sep"
  by (cases ss) simp_all

lemma split_upto_not_Nil [simp]: "split_upto n sep s \<noteq> []"
  by (cases n) (simp_all split: option.splits)

lemma Join_split_upto [simp]: "Join (split_upto n sep s) sep = s"
proof (induction n arbitrary: s)
  case (Suc n)
  show ?case
  proof (cases "index_of sep s")
    case (Some m)
    then show ?thesis
      using index_of_Some [OF Some] Suc by (simp add: Join_Cons)
  qed simp
qed simp

lemma Join_Split: "sep \<noteq> [] \<Longrightarrow> Join (Split explode s sep) sep = s"
  by (simp add: Split_def SplitN_def)

lemma length_split_upto: "length (split_upto n sep s) \<le> Suc n"
  by (induction n arbitrary: s) (auto split: option.splits)

end
