(* ===== verification/Bytefmt.thy ===== *)
theory Bytefmt
  imports GoStrings
begin

text \<open>
  Package \<open>bytefmt\<close>: sizes as text and back. A \<open>float64\<close> that holds an integer is that integer rounded to 53
  bits, its quotient by a power of two is exact, and \<open>FormatFloat(v, 'f', 1, 64)\<close> rounds the exact value to a
  tenth, ties to even; so \<open>FormatSize\<close> needs no argument. In \<open>ParseSize\<close> \<open>ParseFloat\<close> is an argument, as is
  the conversion to \<open>uint64\<close> of a value that does not fit, which the language leaves open; its text is
  taken to be ASCII.
\<close>

section \<open>Formatting\<close>

text \<open>Division rounded to the nearest, ties to even.\<close>

definition round_div :: "nat \<Rightarrow> nat \<Rightarrow> nat" where
  "round_div n d =
     (let q = n div d; r = n mod d in
      if 2 * r < d \<or> (2 * r = d \<and> even q) then q else q + 1)"

fun bit_length :: "nat \<Rightarrow> nat" where
  "bit_length n = (if n = 0 then 0 else Suc (bit_length (n div 2)))"

declare bit_length.simps [simp del]

definition float_of_nat :: "nat \<Rightarrow> nat" where
  "float_of_nat n = (let e = bit_length n - 53 in round_div n (2 ^ e) * 2 ^ e)"

definition format_tenths :: "nat \<Rightarrow> bytes" where
  "format_tenths t = itoa (int (t div 10)) @ ascii ''.'' @ itoa (int (t mod 10))"

definition size_unit :: "u64 \<Rightarrow> bytes \<times> nat" where
  "size_unit n =
     (if n \<ge> 2 ^ 60 then (ascii ''E'', 60)
      else if n \<ge> 2 ^ 50 then (ascii ''P'', 50)
      else if n \<ge> 2 ^ 40 then (ascii ''T'', 40)
      else if n \<ge> 2 ^ 30 then (ascii ''G'', 30)
      else if n \<ge> 2 ^ 20 then (ascii ''M'', 20)
      else if n \<ge> 2 ^ 10 then (ascii ''K'', 10)
      else (ascii ''B'', 0))"

definition FormatSize :: "u64 \<Rightarrow> bytes" where
  "FormatSize n =
     (if n = 0 then ascii ''0''
      else (case size_unit n of (unit_name, k) \<Rightarrow>
        TrimSuffix (format_tenths (round_div (10 * float_of_nat (unat n)) (2 ^ k))) (ascii ''.0'') @ unit_name))"

section \<open>Parsing\<close>

text \<open>\<open>x < 0\<close> for a \<open>float64\<close>: not for NaN and not for minus zero.\<close>

definition f64_is_nan :: "u64 \<Rightarrow> bool" where
  "f64_is_nan x \<longleftrightarrow> drop_bit 52 x AND 0x7ff = 0x7ff \<and> x AND 0xFFFFFFFFFFFFF \<noteq> 0"

definition f64_neg :: "u64 \<Rightarrow> bool" where
  "f64_neg x \<longleftrightarrow> bit x 63 \<and> \<not> f64_is_nan x \<and> x \<noteq> 0x8000000000000000"

text \<open>
  \<open>uint64(x * 2^k)\<close> for a value that is not negative: the product with a power of two is exact unless it
  overflows, and the fraction is cut off.
\<close>

definition f64_scaled :: "(u64 \<Rightarrow> nat \<Rightarrow> u64) \<Rightarrow> u64 \<Rightarrow> nat \<Rightarrow> u64" where
  "f64_scaled out_of_range x k =
     (let e = unat (drop_bit 52 x AND 0x7ff);
          f = unat (x AND 0xFFFFFFFFFFFFF);
          m = (if e = 0 then f else f + 2 ^ 52);
          p = max e 1 + k;
          v = (if 1075 \<le> p then m * 2 ^ (p - 1075) else m div 2 ^ (1075 - p)) in
      if e = 0x7ff \<or> 2 ^ 64 \<le> v then out_of_range x k else of_nat v)"

definition is_space :: "byte \<Rightarrow> bool" where
  "is_space b \<longleftrightarrow> b = 32 \<or> (9 \<le> b \<and> b \<le> 13)"

definition TrimSpace :: "bytes \<Rightarrow> bytes" where
  "TrimSpace s = rev (dropWhile is_space (rev (dropWhile is_space s)))"

definition ToUpper :: "bytes \<Rightarrow> bytes" where
  "ToUpper s = map (\<lambda>b. if 97 \<le> b \<and> b \<le> 122 then b - 32 else b) s"

definition IsLetter :: "byte \<Rightarrow> bool" where
  "IsLetter b \<longleftrightarrow> (65 \<le> b \<and> b \<le> 90) \<or> (97 \<le> b \<and> b \<le> 122)"

definition unit_power :: "bytes \<Rightarrow> nat option" where
  "unit_power multiple =
     (if multiple \<in> {ascii ''E'', ascii ''EB'', ascii ''EIB''} then Some 60
      else if multiple \<in> {ascii ''P'', ascii ''PB'', ascii ''PIB''} then Some 50
      else if multiple \<in> {ascii ''T'', ascii ''TB'', ascii ''TIB''} then Some 40
      else if multiple \<in> {ascii ''G'', ascii ''GB'', ascii ''GIB''} then Some 30
      else if multiple \<in> {ascii ''M'', ascii ''MB'', ascii ''MIB''} then Some 20
      else if multiple \<in> {ascii ''K'', ascii ''KB'', ascii ''KIB''} then Some 10
      else if multiple = ascii ''B'' then Some 0
      else None)"

definition errInvalidByteQuantity :: go_error where
  "errInvalidByteQuantity =
     ErrMsg ''byte quantity must be a positive integer with a unit of measurement like M, MB, MiB, G, GiB, or GB''"

definition ParseSize ::
  "(bytes \<Rightarrow> u64 option) \<Rightarrow> (u64 \<Rightarrow> nat \<Rightarrow> u64) \<Rightarrow> bytes \<Rightarrow> u64 result" where
  "ParseSize parseFloat out_of_range s0 =
     (let s = ToUpper (TrimSpace s0);
          number = takeWhile (\<lambda>b. \<not> IsLetter b) s;
          multiple = dropWhile (\<lambda>b. \<not> IsLetter b) s in
      case parseFloat number of
        None \<Rightarrow> Err errInvalidByteQuantity
      | Some v \<Rightarrow>
          if f64_neg v then Err errInvalidByteQuantity
          else if multiple = [] then Ok (f64_scaled out_of_range v 0)
          else (case unit_power multiple of
              None \<Rightarrow> Err errInvalidByteQuantity
            | Some k \<Rightarrow> Ok (f64_scaled out_of_range v k)))"

section \<open>How exact the text is\<close>

lemma round_div_error:
  assumes "0 < d"
  shows "2 * (round_div n d * d) \<le> 2 * n + d" and "2 * n \<le> 2 * (round_div n d * d) + d"
proof -
  define q r where "q = n div d" and "r = n mod d"
  have n: "n = q * d + r" "r < d" using assms by (simp_all add: q_def r_def)
  have "round_div n d = (if 2 * r < d \<or> (2 * r = d \<and> even q) then q else q + 1)"
    by (simp add: round_div_def Let_def q_def r_def)
  then show "2 * (round_div n d * d) \<le> 2 * n + d" "2 * n \<le> 2 * (round_div n d * d) + d"
    unfolding n(1) using n(2) by (auto simp: add_mult_distrib add_mult_distrib2)
qed

lemma round_div_1 [simp]: "round_div n (Suc 0) = n"
  by (simp add: round_div_def)

lemma bit_length_le: "n < 2 ^ k \<Longrightarrow> bit_length n \<le> k"
proof (induction n arbitrary: k rule: bit_length.induct)
  case (1 n)
  show ?case
  proof (cases "n = 0")
    case False
    with 1 obtain j where "k = Suc j" by (cases k) auto
    with 1 False show ?thesis by (subst bit_length.simps) auto
  qed (simp add: bit_length.simps)
qed

lemma float_of_nat_exact: "n < 2 ^ 53 \<Longrightarrow> float_of_nat n = n"
  using bit_length_le [of n 53] by (simp add: float_of_nat_def)

lemma size_unit_range:
  assumes "0 < n" and "n < 2 ^ 53"
  shows "2 ^ snd (size_unit n) \<le> unat n" and "unat n < 1024 * 2 ^ snd (size_unit n)"
  using assms by (auto simp: size_unit_def word_le_nat_alt word_less_nat_alt)

text \<open>
  C38. The text of a size below eight petabytes is the number to a tenth of its unit: it consists of a number of
  tenths, between one and 1024 units, that differs from the exact quotient by at most half a
  tenth, with a trailing \<open>.0\<close> cut off, and of the name of the unit.
\<close>

theorem FormatSize_exact:
  assumes "0 < n" and "n < 2 ^ 53"
  shows "\<exists>t. FormatSize n = TrimSuffix (format_tenths t) (ascii ''.0'') @ fst (size_unit n) \<and>
    10 \<le> t \<and> t \<le> 10240 \<and>
    2 * (t * 2 ^ snd (size_unit n)) \<le> 20 * unat n + 2 ^ snd (size_unit n) \<and>
    20 * unat n \<le> 2 * (t * 2 ^ snd (size_unit n)) + 2 ^ snd (size_unit n)"
proof -
  obtain name k where u: "size_unit n = (name, k)" by fastforce
  let ?t = "round_div (10 * unat n) (2 ^ k)"
  have "n \<noteq> 0" "unat n < 2 ^ 53" using assms by (auto simp: word_less_nat_alt)
  then have f: "FormatSize n = TrimSuffix (format_tenths ?t) (ascii ''.0'') @ name"
    using u by (simp add: FormatSize_def float_of_nat_exact)
  have e: "2 * (?t * 2 ^ k) \<le> 20 * unat n + 2 ^ k" "20 * unat n \<le> 2 * (?t * 2 ^ k) + 2 ^ k"
    using round_div_error [of "2 ^ k" "10 * unat n"] by simp_all
  have r: "2 ^ k \<le> unat n" "unat n < 1024 * 2 ^ k" using size_unit_range [OF assms] u by simp_all
  have "20 * 2 ^ k \<le> 2 * (?t * 2 ^ k) + 2 ^ k" using e(2) r(1) by linarith
  then have "20 * 2 ^ k \<le> (2 * ?t + 1) * 2 ^ k" by (simp only: add_mult_distrib mult.assoc mult_1)
  then have "10 \<le> ?t" by (simp only: mult_le_cancel2) simp
  moreover have "2 * (?t * 2 ^ k) < 20480 * 2 ^ k + 2 ^ k" using e(1) r(2) by linarith
  then have "(2 * ?t) * 2 ^ k < 20481 * 2 ^ k" by simp
  then have "?t \<le> 10240" by (simp only: mult_less_cancel2) simp
  ultimately show ?thesis using f e u by (intro exI [of _ ?t]) simp
qed

theorem FormatSize_exact_witness:
  "\<exists>t. FormatSize 1536 = TrimSuffix (format_tenths t) (ascii ''.0'') @ fst (size_unit 1536) \<and>
    10 \<le> t \<and> t \<le> 10240 \<and>
    2 * (t * 2 ^ snd (size_unit 1536)) \<le> 20 * unat (1536 :: u64) + 2 ^ snd (size_unit 1536) \<and>
    20 * unat (1536 :: u64) \<le> 2 * (t * 2 ^ snd (size_unit 1536)) + 2 ^ snd (size_unit 1536)"
  by (rule FormatSize_exact) simp_all

end
