(* ===== verification/Filters.thy ===== *)
theory Filters
  imports RdbParse Bytefmt
begin

text \<open>
  The filters of \<open>helper/regex.go\<close>: decoders that wrap a decoder and keep objects from the callback, the
  expressions they are made from, and \<open>wrapDecoder\<close>, which stacks them as the options say. The compiled
  regular expression, the clock, \<open>ParseFloat\<close> and the conversion of a float that does not fit are arguments.
\<close>

section \<open>Options\<close>

datatype helper_option =
    RegexOption "bytes option"
  | NoExpiredOption bool
  | ExpirationOption bytes
  | SizeOption bytes
  | GlobalMetaOption bool
  | LexOrder
  | ConcurrentOption int

definition WithRegexOption :: "bytes \<Rightarrow> helper_option" where "WithRegexOption expr = RegexOption (Some expr)"
definition WithNoExpiredOption :: helper_option where "WithNoExpiredOption = NoExpiredOption True"
definition WithExpirationOption :: "bytes \<Rightarrow> helper_option" where "WithExpirationOption expr = ExpirationOption expr"
definition WithSizeOption :: "bytes \<Rightarrow> helper_option" where "WithSizeOption expr = SizeOption expr"
definition WithGlobalMeta :: helper_option where "WithGlobalMeta = GlobalMetaOption True"

record chosen =
  regexOpt :: "bytes option"
  noExpiredOpt :: bool
  expirationOpt :: bytes
  sizeOpt :: bytes
  globalMetaOpt :: bool

definition no_option_set :: chosen where
  "no_option_set = \<lparr>regexOpt = None, noExpiredOpt = False, expirationOpt = [], sizeOpt = [], globalMetaOpt = False\<rparr>"

fun pick_option :: "chosen \<Rightarrow> helper_option \<Rightarrow> chosen" where
  "pick_option c (RegexOption o1) = c\<lparr>regexOpt := o1\<rparr>"
| "pick_option c (NoExpiredOption o1) = c\<lparr>noExpiredOpt := o1\<rparr>"
| "pick_option c (ExpirationOption o1) = c\<lparr>expirationOpt := o1\<rparr>"
| "pick_option c (SizeOption o1) = c\<lparr>sizeOpt := o1\<rparr>"
| "pick_option c (GlobalMetaOption o1) = c\<lparr>globalMetaOpt := o1\<rparr>"
| "pick_option c _ = c"

section \<open>Expressions\<close>

definition MaxInt64 :: int where "MaxInt64 = 9223372036854775807"

definition range_parts :: "bytes \<Rightarrow> bytes list" where
  "range_parts s = Split (\<lambda>_ _. []) s (ascii ''~'')"

definition expire_value :: "int \<Rightarrow> bytes \<Rightarrow> int option" where
  "expire_value now s =
     (if s = ascii ''now'' then Some now
      else if s = ascii ''inf'' then Some MaxInt64
      else parse_int 64 s)"

text \<open>\<open>now\<close> is \<open>time.Now().Unix()\<close>, taken to be the same for both ends.\<close>

definition parseExpireExpr :: "int \<Rightarrow> bytes \<Rightarrow> (int \<times> int) result" where
  "parseExpireExpr now s =
     (case range_parts s of
        [a, b] \<Rightarrow>
          (case expire_value now a of
             None \<Rightarrow> Err (ErrMsg ''illegal range begin'')
           | Some lo \<Rightarrow>
               (case expire_value now b of
                  None \<Rightarrow> Err (ErrMsg ''illegal range end'')
                | Some hi \<Rightarrow> Ok (lo, hi)))
      | _ \<Rightarrow> Err (ErrMsg ''illegal expr, should be timestamp1~timestamp2''))"

definition size_value :: "(bytes \<Rightarrow> u64 option) \<Rightarrow> (u64 \<Rightarrow> nat \<Rightarrow> u64) \<Rightarrow> bytes \<Rightarrow> int option" where
  "size_value parseFloat out_of_range s =
     (if s = ascii ''inf'' then Some MaxInt64
      else (case ParseSize parseFloat out_of_range s of
          Ok val \<Rightarrow> Some (if MaxInt64 < uint val then MaxInt64 else uint val)
        | _ \<Rightarrow> None))"

definition parseSizeExpr :: "(bytes \<Rightarrow> u64 option) \<Rightarrow> (u64 \<Rightarrow> nat \<Rightarrow> u64) \<Rightarrow> bytes \<Rightarrow> (int \<times> int) result" where
  "parseSizeExpr parseFloat out_of_range s =
     (case range_parts s of
        [a, b] \<Rightarrow>
          (case size_value parseFloat out_of_range a of
             None \<Rightarrow> Err (ErrMsg ''illegal range begin'')
           | Some lo \<Rightarrow>
               (case size_value parseFloat out_of_range b of
                  None \<Rightarrow> Err (ErrMsg ''illegal range end'')
                | Some hi \<Rightarrow> Ok (lo, hi)))
      | _ \<Rightarrow> Err (ErrMsg ''illegal expr, should be size1~size2''))"

section \<open>Wrapped decoders\<close>

datatype rfilter =
    RegexFilter "bytes \<Rightarrow> bool"
  | NoExpiredFilter
  | ExpirationFilter int int
  | NoExpirationFilter
  | SizeFilter int int

text \<open>
  What passes each wrapper's closure. An expiration is in nanoseconds; \<open>expiration.Unix()\<close> are its whole
  seconds, \<open>now\<close> is the clock at the start of \<open>Parse\<close>.
\<close>

definition regex_passes :: "(bytes \<Rightarrow> bool) \<Rightarrow> 'v redis_object \<Rightarrow> bool" where
  "regex_passes match obj \<longleftrightarrow> match (GetKey obj)"

definition noExpired_passes :: "int \<Rightarrow> 'v redis_object \<Rightarrow> bool" where
  "noExpired_passes now obj \<longleftrightarrow> (case GetExpiration obj of None \<Rightarrow> True | Some t \<Rightarrow> now < t)"

definition expiration_passes :: "int \<Rightarrow> int \<Rightarrow> 'v redis_object \<Rightarrow> bool" where
  "expiration_passes lo hi obj \<longleftrightarrow>
     (case GetExpiration obj of
        None \<Rightarrow> False
      | Some t \<Rightarrow> let timestamp = t div 1000000000 in lo \<le> timestamp \<and> timestamp \<le> hi)"

definition size_passes :: "int \<Rightarrow> int \<Rightarrow> 'v redis_object \<Rightarrow> bool" where
  "size_passes lo hi obj \<longleftrightarrow> lo \<le> GetSize obj \<and> GetSize obj \<le> hi"

definition noExpiration_passes :: "'v redis_object \<Rightarrow> bool" where
  "noExpiration_passes obj \<longleftrightarrow> GetExpiration obj = None"

fun passes :: "int \<Rightarrow> rfilter \<Rightarrow> 'v redis_object \<Rightarrow> bool" where
  "passes now (RegexFilter match) obj = regex_passes match obj"
| "passes now NoExpiredFilter obj = noExpired_passes now obj"
| "passes now (ExpirationFilter lo hi) obj = expiration_passes lo hi obj"
| "passes now NoExpirationFilter obj = noExpiration_passes obj"
| "passes now (SizeFilter lo hi) obj = size_passes lo hi obj"

datatype wrapped = Core decoder | Wrap rfilter wrapped

text \<open>
  The closures that the five \<open>Parse\<close> methods hand to the decoder below. A callback is a function of the objects it has been
  given before, which for the callback inside are those handed on to it.
\<close>

definition regexDecoder_cb :: "(bytes \<Rightarrow> bool) \<Rightarrow> 'v callback \<Rightarrow> 'v callback" where
  "regexDecoder_cb match cb = (\<lambda>hist obj.
     if match (GetKey obj) then cb (filter (regex_passes match) hist) obj else True)"

definition noExpiredDecoder_cb :: "int \<Rightarrow> 'v callback \<Rightarrow> 'v callback" where
  "noExpiredDecoder_cb now cb = (\<lambda>hist obj.
     let given = filter (noExpired_passes now) hist in
     (case GetExpiration obj of
        None \<Rightarrow> cb given obj
      | Some at \<Rightarrow> if now < at then cb given obj else True))"

definition expirationDecoder_cb :: "int \<Rightarrow> int \<Rightarrow> 'v callback \<Rightarrow> 'v callback" where
  "expirationDecoder_cb lo hi cb = (\<lambda>hist obj.
     (case GetExpiration obj of
        None \<Rightarrow> True
      | Some at \<Rightarrow>
          let timestamp = at div 1000000000 in
          if lo \<le> timestamp \<and> timestamp \<le> hi then cb (filter (expiration_passes lo hi) hist) obj else True))"

definition sizeDecoder_cb :: "int \<Rightarrow> int \<Rightarrow> 'v callback \<Rightarrow> 'v callback" where
  "sizeDecoder_cb lo hi cb = (\<lambda>hist obj.
     let sz = GetSize obj in
     if lo \<le> sz \<and> sz \<le> hi then cb (filter (size_passes lo hi) hist) obj else True)"

definition noExpirationDecoder_cb :: "'v callback \<Rightarrow> 'v callback" where
  "noExpirationDecoder_cb cb = (\<lambda>hist obj.
     if GetExpiration obj = None then cb (filter noExpiration_passes hist) obj else True)"

fun wrapped_parse ::
  "'v handlers \<Rightarrow> (bytes \<Rightarrow> f64 option) \<Rightarrow> int \<Rightarrow> 'v callback \<Rightarrow> wrapped \<Rightarrow> unit result \<times> 'v pstate" where
  "wrapped_parse handlers parseFloat now cb (Core dec) = Parse handlers parseFloat cb dec"
| "wrapped_parse handlers parseFloat now cb (Wrap (RegexFilter match) w) =
     wrapped_parse handlers parseFloat now (regexDecoder_cb match cb) w"
| "wrapped_parse handlers parseFloat now cb (Wrap NoExpiredFilter w) =
     wrapped_parse handlers parseFloat now (noExpiredDecoder_cb now cb) w"
| "wrapped_parse handlers parseFloat now cb (Wrap (ExpirationFilter lo hi) w) =
     wrapped_parse handlers parseFloat now (expirationDecoder_cb lo hi cb) w"
| "wrapped_parse handlers parseFloat now cb (Wrap NoExpirationFilter w) =
     wrapped_parse handlers parseFloat now (noExpirationDecoder_cb cb) w"
| "wrapped_parse handlers parseFloat now cb (Wrap (SizeFilter lo hi) w) =
     wrapped_parse handlers parseFloat now (sizeDecoder_cb lo hi cb) w"

definition regexWrapper :: "(bytes \<Rightarrow> (bytes \<Rightarrow> bool) option) \<Rightarrow> wrapped \<Rightarrow> bytes \<Rightarrow> wrapped result" where
  "regexWrapper regexp_compile d expr =
     (case regexp_compile expr of
        None \<Rightarrow> Err (ErrMsg ''illegal regex expression: '')
      | Some reg \<Rightarrow> Ok (Wrap (RegexFilter reg) d))"

definition wrap_expiration :: "int \<Rightarrow> bytes \<Rightarrow> wrapped \<Rightarrow> wrapped result" where
  "wrap_expiration now expr dec =
     (if expr = [] then Ok dec
      else if expr = ascii ''noexpire'' then Ok (Wrap NoExpirationFilter dec)
      else if expr = ascii ''anyexpire'' then Ok (Wrap (ExpirationFilter 0 MaxInt64) dec)
      else (case parseExpireExpr now expr of
          Ok (lo, hi) \<Rightarrow> Ok (Wrap (ExpirationFilter lo hi) dec)
        | Err e \<Rightarrow> Err e
        | Panic p \<Rightarrow> Panic p))"

definition wrap_size ::
  "(bytes \<Rightarrow> u64 option) \<Rightarrow> (u64 \<Rightarrow> nat \<Rightarrow> u64) \<Rightarrow> bytes \<Rightarrow> wrapped \<Rightarrow> wrapped result" where
  "wrap_size parseFloat out_of_range expr dec =
     (if expr = [] then Ok dec
      else (case parseSizeExpr parseFloat out_of_range expr of
          Ok (lo, hi) \<Rightarrow> Ok (Wrap (SizeFilter lo hi) dec)
        | Err e \<Rightarrow> Err e
        | Panic p \<Rightarrow> Panic p))"

definition wrapDecoder ::
  "(bytes \<Rightarrow> (bytes \<Rightarrow> bool) option) \<Rightarrow> (bytes \<Rightarrow> u64 option) \<Rightarrow> (u64 \<Rightarrow> nat \<Rightarrow> u64) \<Rightarrow> int \<Rightarrow>
   decoder \<Rightarrow> helper_option list \<Rightarrow> wrapped result" where
  "wrapDecoder regexp_compile parseFloat out_of_range now dec options =
     (let c = foldl pick_option no_option_set options;
          core = Core (if globalMetaOpt c then WithSpecialOpCode dec else dec) in
      rbind (case regexOpt c of None \<Rightarrow> Ok core | Some expr \<Rightarrow> regexWrapper regexp_compile core expr) (\<lambda>d1.
      let d2 = (if noExpiredOpt c then Wrap NoExpiredFilter d1 else d1) in
      rbind (wrap_expiration now (expirationOpt c) d2)
        (wrap_size parseFloat out_of_range (sizeOpt c))))"

section \<open>What passes a stack of filters\<close>

fun core_of :: "wrapped \<Rightarrow> decoder" where
  "core_of (Core dec) = dec"
| "core_of (Wrap f w) = core_of w"

fun filters_of :: "wrapped \<Rightarrow> rfilter list" where
  "filters_of (Core dec) = []"
| "filters_of (Wrap f w) = f # filters_of w"

definition passes_all :: "int \<Rightarrow> wrapped \<Rightarrow> 'v redis_object \<Rightarrow> bool" where
  "passes_all now w obj \<longleftrightarrow> (\<forall>f \<in> set (filters_of w). passes now f obj)"

text \<open>What the closures have in common.\<close>

definition filtered :: "('v redis_object \<Rightarrow> bool) \<Rightarrow> 'v callback \<Rightarrow> 'v callback" where
  "filtered pass cb = (\<lambda>hist obj. if pass obj then cb (filter pass hist) obj else True)"

lemma filtered_filtered:
  fixes cb :: "'v callback"
  shows "filtered p (filtered q cb) = filtered (\<lambda>obj. q obj \<and> p obj) cb"
proof (intro ext)
  fix hist and obj :: "'v redis_object"
  have "filter q (filter p hist) = filter (\<lambda>obj. q obj \<and> p obj) hist" by (simp add: conj_commute)
  then show "filtered p (filtered q cb) hist obj = filtered (\<lambda>obj. q obj \<and> p obj) cb hist obj"
    by (simp add: filtered_def)
qed

lemma passes_all_simps [simp]:
  "passes_all now (Core dec) obj" "passes_all now (Wrap f w) obj \<longleftrightarrow> passes now f obj \<and> passes_all now w obj"
  by (auto simp: passes_all_def)

lemma filtered_True: "filtered (\<lambda>obj. True) cb = cb"
  by (intro ext) (simp add: filtered_def)

lemma closures:
  "regexDecoder_cb match cb = filtered (regex_passes match) cb"
  "noExpiredDecoder_cb now cb = filtered (noExpired_passes now) cb"
  "expirationDecoder_cb lo hi cb = filtered (expiration_passes lo hi) cb"
  "sizeDecoder_cb lo hi cb = filtered (size_passes lo hi) cb"
  "noExpirationDecoder_cb cb = filtered noExpiration_passes cb"
proof -
  show "regexDecoder_cb match cb = filtered (regex_passes match) cb"
    by (intro ext) (simp add: regexDecoder_cb_def filtered_def regex_passes_def)
  show "noExpiredDecoder_cb now cb = filtered (noExpired_passes now) cb"
    by (intro ext) (simp add: noExpiredDecoder_cb_def filtered_def noExpired_passes_def Let_def split: option.splits)
  show "expirationDecoder_cb lo hi cb = filtered (expiration_passes lo hi) cb"
    by (intro ext) (auto simp: expirationDecoder_cb_def filtered_def expiration_passes_def Let_def split: option.splits)
  show "sizeDecoder_cb lo hi cb = filtered (size_passes lo hi) cb"
    by (intro ext) (simp add: sizeDecoder_cb_def filtered_def size_passes_def Let_def)
  show "noExpirationDecoder_cb cb = filtered noExpiration_passes cb"
    by (intro ext) (simp add: noExpirationDecoder_cb_def filtered_def noExpiration_passes_def)
qed

lemma wrapped_parse_Wrap:
  "wrapped_parse handlers pf now cb (Wrap f w) = wrapped_parse handlers pf now (filtered (passes now f) cb) w"
proof -
  have [simp]: "passes now (RegexFilter match) = regex_passes match" "passes now NoExpiredFilter = noExpired_passes now"
    "passes now (ExpirationFilter lo hi) = expiration_passes lo hi" "passes now (SizeFilter lo hi) = size_passes lo hi"
    "passes now NoExpirationFilter = noExpiration_passes" for match lo hi
    by (intro ext; simp)+
  show ?thesis by (cases f) (simp_all add: closures)
qed

lemma wrapped_parse_filtered:
  "wrapped_parse handlers pf now cb w = Parse handlers pf (filtered (passes_all now w) cb) (core_of w)"
proof (induction w arbitrary: cb)
  case (Core dec)
  then show ?case by (simp add: filtered_True)
next
  case (Wrap f w)
  then show ?case by (simp add: wrapped_parse_Wrap filtered_filtered conj_commute)
qed

text \<open>
  The selection that the options ask for, said without wrappers: the key matches the regular expression; the key has not expired
  at \<open>now\<close>; it has no expiration, or one whose second lies in the range asked for; its size lies in the range asked for.
\<close>

definition selects ::
  "(bytes \<Rightarrow> (bytes \<Rightarrow> bool) option) \<Rightarrow> (bytes \<Rightarrow> u64 option) \<Rightarrow> (u64 \<Rightarrow> nat \<Rightarrow> u64) \<Rightarrow> int \<Rightarrow> int \<Rightarrow> chosen \<Rightarrow>
   'v redis_object \<Rightarrow> bool" where
  "selects regexp_compile parseFloat out_of_range wrap_time now c obj \<longleftrightarrow>
     (\<forall>expr. regexOpt c = Some expr \<longrightarrow> the (regexp_compile expr) (GetKey obj)) \<and>
     (noExpiredOpt c \<longrightarrow> (\<forall>t. GetExpiration obj = Some t \<longrightarrow> now < t)) \<and>
     (expirationOpt c = ascii ''noexpire'' \<longrightarrow> GetExpiration obj = None) \<and>
     (expirationOpt c \<notin> {[], ascii ''noexpire''} \<longrightarrow>
        (\<exists>t lo hi. GetExpiration obj = Some t \<and> lo \<le> t div 1000000000 \<and> t div 1000000000 \<le> hi \<and>
           (if expirationOpt c = ascii ''anyexpire'' then lo = 0 \<and> hi = MaxInt64
            else parseExpireExpr wrap_time (expirationOpt c) = Ok (lo, hi)))) \<and>
     (sizeOpt c \<noteq> [] \<longrightarrow>
        (\<exists>lo hi. parseSizeExpr parseFloat out_of_range (sizeOpt c) = Ok (lo, hi) \<and> lo \<le> GetSize obj \<and> GetSize obj \<le> hi))"

lemma wrap_expiration_passes:
  assumes "wrap_expiration wrap_time expr d = Ok w"
  shows "core_of w = core_of d \<and> (passes_all now w obj \<longleftrightarrow> passes_all now d obj \<and>
    (expr = ascii ''noexpire'' \<longrightarrow> GetExpiration obj = None) \<and>
    (expr \<notin> {[], ascii ''noexpire''} \<longrightarrow>
      (\<exists>t lo hi. GetExpiration obj = Some t \<and> lo \<le> t div 1000000000 \<and> t div 1000000000 \<le> hi \<and>
        (if expr = ascii ''anyexpire'' then lo = 0 \<and> hi = MaxInt64 else parseExpireExpr wrap_time expr = Ok (lo, hi)))))"
proof -
  have ne: "ascii ''noexpire'' \<noteq> []" "ascii ''anyexpire'' \<noteq> []" by (simp_all add: ascii_def)
  consider "expr = []" "w = d" | "expr = ascii ''noexpire''" "w = Wrap NoExpirationFilter d"
    | "expr = ascii ''anyexpire''" "w = Wrap (ExpirationFilter 0 MaxInt64) d"
    | lo hi where "expr \<notin> {[], ascii ''noexpire'', ascii ''anyexpire''}" "parseExpireExpr wrap_time expr = Ok (lo, hi)"
      "w = Wrap (ExpirationFilter lo hi) d"
    using assms ne by (auto simp: wrap_expiration_def ascii_inj split: if_splits result.splits)
  then show ?thesis
    by cases (use ne in \<open>auto simp: noExpiration_passes_def expiration_passes_def Let_def ascii_inj split: option.splits\<close>)
qed

lemma wrap_size_passes:
  assumes "wrap_size parseFloat out_of_range expr d = Ok w"
  shows "core_of w = core_of d \<and> (passes_all now w obj \<longleftrightarrow> passes_all now d obj \<and>
    (expr \<noteq> [] \<longrightarrow> (\<exists>lo hi. parseSizeExpr parseFloat out_of_range expr = Ok (lo, hi) \<and> lo \<le> GetSize obj \<and>
      GetSize obj \<le> hi)))"
  using assms by (auto simp: wrap_size_def size_passes_def split: if_splits result.splits)

text \<open>
  C21. The filters select what the options say: if \<open>wrapDecoder\<close> accepts the options, then parsing through the decoder it
  returns is parsing once, with a callback that hands on exactly the objects that the chosen options select
  and goes on after any other; the callback below is handed those objects in their order. Aux fields, functions and sizes
  of databases are read when the options say so.
\<close>

theorem filters_select:
  assumes "wrapDecoder regexp_compile parseFloat out_of_range wrap_time dec options = Ok w"
  shows "let c = foldl pick_option no_option_set options;
      selected = selects regexp_compile parseFloat out_of_range wrap_time now c in
    wrapped_parse handlers parseFloat now cb w =
      Parse handlers parseFloat (\<lambda>hist obj. if selected obj then cb (filter selected hist) obj else True)
        (if globalMetaOpt c then WithSpecialOpCode dec else dec)"
proof -
  define c where "c = foldl pick_option no_option_set options"
  define selected :: "'a redis_object \<Rightarrow> bool"
    where "selected = selects regexp_compile parseFloat out_of_range wrap_time now c"
  let ?core = "Core (if globalMetaOpt c then WithSpecialOpCode dec else dec)"
  obtain d1 d3 where d1: "(case regexOpt c of None \<Rightarrow> Ok ?core | Some expr \<Rightarrow> regexWrapper regexp_compile ?core expr) = Ok d1"
    and d3: "wrap_expiration wrap_time (expirationOpt c) (if noExpiredOpt c then Wrap NoExpiredFilter d1 else d1) = Ok d3"
    and w: "wrap_size parseFloat out_of_range (sizeOpt c) d3 = Ok w"
    using assms(1) unfolding wrapDecoder_def Let_def c_def [symmetric] by (elim rbind_OkE)
  have p1: "core_of d1 = core_of ?core" "passes_all now d1 obj \<longleftrightarrow>
      (\<forall>expr. regexOpt c = Some expr \<longrightarrow> the (regexp_compile expr) (GetKey obj))" for obj :: "'a redis_object"
    using d1 by (auto simp: regexWrapper_def regex_passes_def split: option.splits)
  have p2: "passes_all now (if noExpiredOpt c then Wrap NoExpiredFilter d1 else d1) obj \<longleftrightarrow>
      passes_all now d1 obj \<and> (noExpiredOpt c \<longrightarrow> (\<forall>t. GetExpiration obj = Some t \<longrightarrow> now < t))" for obj :: "'a redis_object"
    by (auto simp: noExpired_passes_def split: option.splits)
  have "passes_all now w = selected"
  proof
    fix obj :: "'a redis_object"
    show "passes_all now w obj = selected obj"
      unfolding conjunct2 [OF wrap_size_passes [OF w]] conjunct2 [OF wrap_expiration_passes [OF d3]] p2 p1(2)
        selected_def selects_def by (simp only: conj_assoc)
  qed
  moreover have "core_of w = (if globalMetaOpt c then WithSpecialOpCode dec else dec)"
    unfolding conjunct1 [OF wrap_size_passes [OF w]] conjunct1 [OF wrap_expiration_passes [OF d3]] using p1(1) by simp
  ultimately show ?thesis
    unfolding wrapped_parse_filtered filtered_def Let_def c_def [symmetric] selected_def [symmetric] by simp
qed

text \<open>Keys called \<open>a\<close> that expire, but not before time 5.\<close>

theorem filters_select_witness:
  "\<exists>w c. wrapDecoder (\<lambda>_. Some (\<lambda>key. key = [97])) (\<lambda>_. None) (\<lambda>_ _. 0) 0 (NewDecoder [])
      [WithRegexOption [97], WithNoExpiredOption, WithExpirationOption (ascii ''anyexpire'')] = Ok w \<and>
    c = \<lparr>regexOpt = Some [97], noExpiredOpt = True, expirationOpt = ascii ''anyexpire'', sizeOpt = [],
      globalMetaOpt = False\<rparr> \<and>
    (let selected = selects (\<lambda>_. Some (\<lambda>key. key = [97])) (\<lambda>_. None) (\<lambda>_ _. 0) 0 5 c in
      wrapped_parse (\<lambda>_. None) (\<lambda>_. None) 5 (\<lambda>hist obj :: unit redis_object. length hist < 2) w =
        Parse (\<lambda>_. None) (\<lambda>_. None) (\<lambda>hist obj. if selected obj then length (filter selected hist) < 2 else True)
          (NewDecoder []))"
proof -
  let ?os = "[WithRegexOption [97], WithNoExpiredOption, WithExpirationOption (ascii ''anyexpire'')]"
  let ?re = "\<lambda>_. Some (\<lambda>key. key = [97])" and ?pf = "\<lambda>_. None" and ?oor = "\<lambda>_ _. 0"
  have c: "foldl pick_option no_option_set ?os =
      \<lparr>regexOpt = Some [97], noExpiredOpt = True, expirationOpt = ascii ''anyexpire'', sizeOpt = [], globalMetaOpt = False\<rparr>"
    by (simp add: no_option_set_def WithRegexOption_def WithNoExpiredOption_def WithExpirationOption_def)
  have ne: "ascii ''anyexpire'' \<noteq> []" by (simp add: ascii_def)
  obtain w where w: "wrapDecoder ?re ?pf ?oor 0 (NewDecoder []) ?os = Ok w"
    unfolding wrapDecoder_def c Let_def
    by (simp add: regexWrapper_def wrap_expiration_def wrap_size_def rbind_def ascii_inj ne)
  show ?thesis
    using filters_select [OF w, where now = 5 and handlers = "\<lambda>_. None" and cb = "\<lambda>hist obj. length hist < 2"] unfolding c Let_def
    by (intro exI [of _ w] exI conjI) (use w in simp_all)
qed

end
