(* ===== verification/Radix.thy ===== *)
theory Radix
  imports Lzf "HOL-Library.Sublist"
begin

text \<open>
  The radix tree of the prefix report (\<open>helper/radix.go\<close>). The nodes, which the code changes in place through
  pointers, are a value here: an insertion returns the new tree. The loop \<open>walk\<close> is the recursion from a node into
  one of its children.
\<close>

section \<open>The tree\<close>

datatype radix = Node
  (rpath: bytes)
  (ends: bool)
  (children: "radix list")
  (totalSize: int)
  (keyCount: nat)
  (fullpath: bytes)

definition newRadixTree :: radix where
  "newRadixTree = Node [] False [] 0 0 []"

fun commonPrefixLen :: "bytes \<Rightarrow> bytes \<Rightarrow> nat" where
  "commonPrefixLen (a # as) (b # bs) = (if a = b then Suc (commonPrefixLen as bs) else 0)"
| "commonPrefixLen _ _ = 0"

definition new_leaf :: "bytes \<Rightarrow> int \<Rightarrow> bytes \<Rightarrow> radix" where
  "new_leaf fullword sz word = Node word True [] sz 1 fullword"

text \<open>
  The node is split when only part of its path matches. The loop over the children then finds nothing: the only
  child, the rest of the node, begins with the byte at which the word differs (\<open>commonPrefixLen_differ\<close>).
\<close>

definition split_node :: "bool \<Rightarrow> bytes \<Rightarrow> int \<Rightarrow> bytes \<Rightarrow> nat \<Rightarrow> radix \<Rightarrow> radix result" where
  "split_node root fullword sz word i n =
     (if length (fullpath n) < length (rpath n) - i then Panic SliceRange
      else
        let newChild = Node (drop i (rpath n)) (ends n) (children n) (totalSize n) (keyCount n) (fullpath n);
            fp = take (length (fullpath n) - (length (rpath n) - i)) (fullpath n);
            ts = (if 0 < i \<or> root then totalSize n + sz else totalSize n);
            kc = (if 0 < i \<or> root then keyCount n + 1 else keyCount n) in
        Ok (if i = length word then Node (take i (rpath n)) True [newChild] ts kc fp
            else Node (take i (rpath n)) False [newChild, new_leaf fullword sz (drop i word)] ts kc fp))"

fun radix_insert :: "bool \<Rightarrow> bytes \<Rightarrow> int \<Rightarrow> bytes \<Rightarrow> radix \<Rightarrow> radix result"
  and insert_child :: "bytes \<Rightarrow> int \<Rightarrow> bytes \<Rightarrow> radix list \<Rightarrow> radix list result" where
  "radix_insert root fullword sz word (Node path en ch ts kc fp) =
     (let i = commonPrefixLen word path in
      if i < length path then split_node root fullword sz word i (Node path en ch ts kc fp)
      else
        let ts' = (if 0 < i \<or> root then ts + sz else ts);
            kc' = (if 0 < i \<or> root then kc + 1 else kc) in
        if i = length word then Ok (Node path True ch ts' kc' fp)
        else rbind (insert_child fullword sz (drop i word) ch) (\<lambda>ch'.
          Ok (Node path en ch' ts' kc' fp)))"
| "insert_child fullword sz word [] = Ok [new_leaf fullword sz word]"
| "insert_child fullword sz word (c # cs) =
     (if rpath c = [] then Panic IndexRange
      else if hd (rpath c) = hd word then
        rbind (radix_insert False fullword sz word c) (\<lambda>c'. Ok (c' # cs))
      else rbind (insert_child fullword sz word cs) (\<lambda>cs'. Ok (c # cs')))"

definition insert :: "bytes \<Rightarrow> int \<Rightarrow> radix \<Rightarrow> radix result" where
  "insert word sz tree = radix_insert True word sz word tree"

fun insert_all :: "(bytes \<times> int) list \<Rightarrow> radix \<Rightarrow> radix result" where
  "insert_all [] tree = Ok tree"
| "insert_all ((word, sz) # es) tree = rbind (insert word sz tree) (insert_all es)"

section \<open>What the tree says\<close>

text \<open>The sizes of the words with a prefix, and how many there are.\<close>

definition prefix_size :: "(bytes \<times> int) list \<Rightarrow> bytes \<Rightarrow> int" where
  "prefix_size es p = sum_list (map snd (filter (\<lambda>(w, s). prefix p w) es))"

definition prefix_count :: "(bytes \<times> int) list \<Rightarrow> bytes \<Rightarrow> nat" where
  "prefix_count es p = length (filter (\<lambda>(w, s). prefix p w) es)"

definition words :: "(bytes \<times> int) list \<Rightarrow> bytes set" where
  "words es = fst ` set es"

lemma words_simps [simp]: "words [] = {}" "words ((w, s) # es) = Set.insert w (words es)"
  by (simp_all add: words_def)

text \<open>
  A node says the truth about the words inserted: its full path is that of its parent and its own, its numbers
  are those of that prefix, it is marked when the prefix is itself a word, every longer word is below one of its
  children, and the children begin with different bytes. A child is a word or a fork.
\<close>

fun radix_ok :: "(bytes \<times> int) list \<Rightarrow> bytes \<Rightarrow> radix \<Rightarrow> bool" where
  "radix_ok es pre (Node path en ch ts kc fp) \<longleftrightarrow>
     fp = pre @ path \<and> ts = prefix_size es fp \<and> kc = prefix_count es fp \<and> (en \<longleftrightarrow> fp \<in> words es) \<and>
     distinct (map (\<lambda>c. hd (rpath c)) ch) \<and>
     (\<forall>c \<in> set ch. rpath c \<noteq> [] \<and> (ends c \<or> 2 \<le> length (children c)) \<and> radix_ok es fp c) \<and>
     (\<forall>w \<in> words es. strict_prefix fp w \<longrightarrow> (\<exists>c \<in> set ch. prefix (fp @ rpath c) w))"

fun all_nodes :: "radix \<Rightarrow> radix list" where
  "all_nodes (Node path en ch ts kc fp) = Node path en ch ts kc fp # concat (map all_nodes ch)"

lemma prefix_size_Cons: "prefix_size ((w, s) # es) p = (if prefix p w then s else 0) + prefix_size es p"
  by (simp add: prefix_size_def)

lemma prefix_count_Cons: "prefix_count ((w, s) # es) p = (if prefix p w then 1 else 0) + prefix_count es p"
  by (simp add: prefix_count_def)

lemma commonPrefixLen_props:
  "commonPrefixLen as bs \<le> length as" "commonPrefixLen as bs \<le> length bs"
  "take (commonPrefixLen as bs) as = take (commonPrefixLen as bs) bs"
  by (induction as bs rule: commonPrefixLen.induct) auto

lemma commonPrefixLen_differ:
  "commonPrefixLen as bs < length as \<Longrightarrow> commonPrefixLen as bs < length bs \<Longrightarrow>
   as ! commonPrefixLen as bs \<noteq> bs ! commonPrefixLen as bs"
  by (induction as bs rule: commonPrefixLen.induct) auto

lemma commonPrefixLen_pos: "as \<noteq> [] \<Longrightarrow> bs \<noteq> [] \<Longrightarrow> 0 < commonPrefixLen as bs \<longleftrightarrow> hd as = hd bs"
  by (cases as; cases bs) auto

text \<open>A word that does not have the prefix of a node changes nothing below it.\<close>

lemma radix_ok_other:
  "radix_ok es pre n \<Longrightarrow> \<not> prefix (pre @ rpath n) w \<Longrightarrow> radix_ok ((w, s) # es) pre n"
proof (induction es pre n rule: radix_ok.induct)
  case (1 es pre path en ch ts kc fp)
  have "fp = pre @ path" using 1(2) by (simp only: radix_ok.simps)
  then have np: "\<not> prefix (fp @ rpath c) w" for c
    using 1(3) append_prefixD [of fp "rpath c" w] by auto
  have "radix_ok ((w, s) # es) fp c" if "c \<in> set ch" for c
  proof -
    from 1(2) that have "radix_ok es fp c" unfolding radix_ok.simps by blast
    from 1(1) [OF that this np] show ?thesis .
  qed
  then show ?case
    using 1(2,3) by (auto simp: prefix_size_Cons prefix_count_Cons strict_prefix_def)
qed

section \<open>Insertion keeps it\<close>

text \<open>All words that begin like a child are below it.\<close>

definition below :: "(bytes \<times> int) list \<Rightarrow> bytes \<Rightarrow> radix \<Rightarrow> bool" where
  "below es pre n \<longleftrightarrow> (\<forall>w \<in> words es. prefix (pre @ [hd (rpath n)]) w \<longrightarrow> prefix (pre @ rpath n) w)"

definition child_ok :: "(bytes \<times> int) list \<Rightarrow> bytes \<Rightarrow> radix \<Rightarrow> bool" where
  "child_ok es pre n \<longleftrightarrow> rpath n \<noteq> [] \<and> (ends n \<or> 2 \<le> length (children n)) \<and> radix_ok es pre n"

declare radix_ok.simps [simp del]

lemma strict_prefixD: "strict_prefix xs ys \<Longrightarrow> prefix xs ys"
  by (simp add: strict_prefix_def)

lemma prefix_hd: "xs \<noteq> [] \<Longrightarrow> prefix (pre @ xs) w \<Longrightarrow> prefix (pre @ [hd xs]) w"
  by (cases xs) (auto simp: prefix_def)

lemma no_words_size:
  "\<forall>w \<in> words es. \<not> prefix p w \<Longrightarrow> prefix_size es p = 0 \<and> prefix_count es p = 0"
proof -
  assume "\<forall>w \<in> words es. \<not> prefix p w"
  then have "filter (\<lambda>(w, s). prefix p w) es = []" by (auto simp: filter_empty_conv words_def)
  then show ?thesis by (simp add: prefix_size_def prefix_count_def)
qed

lemma same_words_size:
  "\<forall>w \<in> words es. prefix p w = prefix q w \<Longrightarrow> prefix_size es p = prefix_size es q \<and> prefix_count es p = prefix_count es q"
proof -
  assume "\<forall>w \<in> words es. prefix p w = prefix q w"
  then have "filter (\<lambda>(w, s). prefix p w) es = filter (\<lambda>(w, s). prefix q w) es"
    by (intro filter_cong) (auto simp: words_def)
  then show ?thesis by (simp add: prefix_size_def prefix_count_def)
qed

lemma radix_ok_resplit:
  "radix_ok es pre (Node (p @ q) en ch ts kc fp) = radix_ok es (pre @ p) (Node q en ch ts kc fp)"
  by (simp only: radix_ok.simps append_assoc)

lemma child_ok_leaf:
  assumes "word \<noteq> []" and "\<forall>w \<in> words es. \<not> prefix (pre @ word) w"
  shows "child_ok ((pre @ word, sz) # es) pre (new_leaf (pre @ word) sz word)"
  using assms no_words_size [OF assms(2)]
  by (auto simp: child_ok_def new_leaf_def radix_ok.simps prefix_size_Cons prefix_count_Cons strict_prefix_def)

lemma split_node_ok:
  assumes ok: "child_ok es pre n" and "below es pre n" and w: "word \<noteq> []" "hd word = hd (rpath n)"
    and i: "i = commonPrefixLen word (rpath n)" "i < length (rpath n)"
  shows "\<exists>n'. split_node False (pre @ word) sz word i n = Ok n' \<and> child_ok ((pre @ word, sz) # es) pre n' \<and>
    prefix (rpath n') (rpath n) \<and> hd (rpath n') = hd (rpath n) \<and> prefix (rpath n') word"
proof -
  obtain path en ch ts kc fp where n: "n = Node path en ch ts kc fp" by (cases n)
  have "rpath n \<noteq> []" "radix_ok es pre n" using ok unfolding child_ok_def by blast+
  then have path: "path \<noteq> []" "radix_ok es pre n" "fp = pre @ path"
    unfolding n radix.sel radix_ok.simps by blast+
  have i0: "0 < i" "i < length path" "take i word = take i path" "i \<le> length word"
    using commonPrefixLen_pos [of word path] commonPrefixLen_props [of word path] w path i n by auto
  let ?fp = "pre @ take i path" and ?new = "Node (drop i path) en ch ts kc fp" and ?es = "(pre @ word, sz) # es"
  have fp: "take (length fp - (length path - i)) fp = ?fp" using path(3) i0 by simp
  have np: "\<not> prefix fp (pre @ word)"
  proof
    assume "prefix fp (pre @ word)"
    then obtain r where r: "word = path @ r" using path(3) by (auto simp: prefix_def)
    then have "i < length word" "word ! i = path ! i" using i0 by (simp_all add: nth_append)
    with commonPrefixLen_differ [of word path] i i0 n show False by simp
  qed
  have under: "prefix fp w" if "w \<in> words es" "prefix (?fp @ r) w" for w r
  proof -
    have "prefix (pre @ [hd path]) w"
      using that(2) i0 path(1) by (cases path; cases i) (auto simp: prefix_def)
    with assms(2) that(1) n path(3) show ?thesis by (simp add: below_def)
  qed
  have new: "radix_ok ?es ?fp ?new"
  proof (rule radix_ok_other)
    show "radix_ok es ?fp ?new"
      using path(2) radix_ok_resplit [of es pre "take i path" "drop i path"] by (simp only: n append_take_drop_id)
    show "\<not> prefix (?fp @ rpath ?new) (pre @ word)" using np path(3) by simp
  qed
  have el: "en \<or> 2 \<le> length ch" using ok unfolding child_ok_def n radix.sel by blast
  have child: "child_ok ?es ?fp ?new" using new el i0 by (simp add: child_ok_def)
  have sizes: "prefix_size es ?fp = ts" "prefix_count es ?fp = kc"
  proof -
    have "\<forall>w \<in> words es. prefix ?fp w = prefix fp w"
      using under [of _ "[]"] path(3) by (metis append.right_neutral append_assoc append_take_drop_id append_prefixD)
    from same_words_size [OF this] show "prefix_size es ?fp = ts" "prefix_count es ?fp = kc"
      using path(2) unfolding n radix_ok.simps by simp_all
  qed
  have pw: "pre @ word = ?fp @ drop i word" using i0(3) by (metis append_assoc append_take_drop_id)
  then have pf: "prefix ?fp (pre @ word)" by (metis prefixI)
  have cover: "\<exists>r. w = fp @ r" if "w \<in> words es" "prefix ?fp w" for w
    using under [OF that(1), of "[]"] that(2) by (auto simp: prefix_def)
  have not_end: "?fp \<notin> words es"
  proof
    assume "?fp \<in> words es"
    then have "prefix fp ?fp" using under [of ?fp "[]"] by simp
    then show False using path(3) i0 by (auto dest: prefix_length_le)
  qed
  have tp: "prefix (take i path) word" using i0(3) by (metis take_is_prefix)
  show ?thesis
  proof (cases "i = length word")
    case True
    let ?n = "Node (take i path) True [?new] (ts + sz) (kc + 1) ?fp"
    have "split_node False (pre @ word) sz word i n = Ok ?n"
      using i0 path(3) fp True by (simp add: split_node_def n Let_def)
    moreover have "pre @ word = ?fp" using pw True by simp
    then have "child_ok ?es pre ?n"
      using child sizes pf i0 path(3) under [of _ "[]"]
      by (auto simp: child_ok_def radix_ok.simps [of _ pre] prefix_size_Cons prefix_count_Cons dest: strict_prefixD)
    ultimately show ?thesis using i0 path(1) n tp by (auto simp: take_is_prefix hd_take)
  next
    case False
    let ?leaf = "new_leaf (pre @ word) sz (drop i word)"
    let ?n = "Node (take i path) False [?new, ?leaf] (ts + sz) (kc + 1) ?fp"
    have lt: "i < length word" using False i0 by simp
    have differ: "hd (drop i path) \<noteq> hd (drop i word)"
      using commonPrefixLen_differ [of word path] i n i0 lt by (simp add: hd_drop_conv_nth)
    have "\<not> prefix (?fp @ drop i word) w" if "w \<in> words es" for w
    proof
      assume a: "prefix (?fp @ drop i word) w"
      from under [OF that a] have b: "prefix (?fp @ drop i path) w" using path(3) by simp
      have "prefix (?fp @ [hd (drop i path)]) w" by (rule prefix_hd [OF _ b]) (use i0 in simp)
      moreover have "prefix (?fp @ [hd (drop i word)]) w" by (rule prefix_hd [OF _ a]) (use lt in simp)
      ultimately have "hd (drop i path) = hd (drop i word)" by (auto simp: prefix_def)
      with differ show False by simp
    qed
    then have leaf: "child_ok ?es ?fp ?leaf"
      using child_ok_leaf [of "drop i word" es ?fp sz] lt pw by simp
    have "split_node False (pre @ word) sz word i n = Ok ?n"
      using i0 path(3) fp False by (simp add: split_node_def n Let_def)
    moreover have "child_ok ?es pre ?n"
    proof -
      have "length ?fp < length (pre @ word)" using lt i0 by simp
      then have "pre @ word \<noteq> ?fp" by (metis less_irrefl)
      moreover have "\<exists>c \<in> {?new, ?leaf}. prefix (?fp @ rpath c) w"
        if "w \<in> words ?es" "strict_prefix ?fp w" for w
      proof (cases "w = pre @ word")
        case True
        then show ?thesis using pw by (auto simp: new_leaf_def)
      next
        case False
        with that have "prefix fp w" using under [of w "[]"] by (auto dest: strict_prefixD)
        then show ?thesis using path(3) by simp
      qed
      moreover have "hd (rpath ?new) \<noteq> hd (rpath ?leaf)" using differ by (simp add: new_leaf_def)
      ultimately show ?thesis
        using child leaf sizes pf i0 path(1,3) not_end
        by (simp add: child_ok_def radix_ok.simps [of _ pre] prefix_size_Cons prefix_count_Cons)
    qed
    ultimately show ?thesis using i0 path(1) n tp by (auto simp: take_is_prefix hd_take)
  qed
qed

lemma child_ok_other:
  assumes "child_ok es fp c" and "\<not> prefix (fp @ rpath c) w"
  shows "child_ok ((w, s) # es) fp c"
  using assms radix_ok_other [of es fp c w s] by (simp add: child_ok_def)

lemma differ_prefix: "xs \<noteq> [] \<Longrightarrow> ys \<noteq> [] \<Longrightarrow> hd xs \<noteq> hd ys \<Longrightarrow> \<not> prefix (pre @ xs) (pre @ ys)"
  by (cases xs; cases ys) auto

lemma prefix_hd_eq:
  assumes "prefix (pre @ xs) w" and "prefix (pre @ [b]) w" and "xs \<noteq> []"
  shows "hd xs = b"
  using prefix_hd [OF assms(3,1)] assms(2) by (auto simp: prefix_def)

text \<open>A node on the way of a word, with its children seen to.\<close>

lemma radix_ok_grow:
  assumes ok: "radix_ok es pre (Node path en ch ts kc fp)" and "prefix fp full" and "en' \<longleftrightarrow> en \<or> full = fp"
    and ch': "\<forall>c \<in> set ch'. child_ok ((full, sz) # es) fp c" "distinct (map (\<lambda>c. hd (rpath c)) ch')"
      "\<forall>w \<in> words ((full, sz) # es). strict_prefix fp w \<longrightarrow> (\<exists>c \<in> set ch'. prefix (fp @ rpath c) w)"
  shows "radix_ok ((full, sz) # es) pre (Node path en' ch' (ts + sz) (kc + 1) fp)"
proof -
  note node = ok [unfolded radix_ok.simps]
  have "ts = prefix_size es fp" "kc = prefix_count es fp" "en = (fp \<in> words es)" using node by blast+
  then have "ts + sz = prefix_size ((full, sz) # es) fp" "kc + 1 = prefix_count ((full, sz) # es) fp"
    "en' = (fp \<in> words ((full, sz) # es))"
    using assms(2,3) by (auto simp: prefix_size_Cons prefix_count_Cons)
  moreover have "fp = pre @ path" using node by blast
  ultimately show ?thesis using ch' unfolding radix_ok.simps child_ok_def by blast
qed

lemma radix_insert_ok:
  "full = pre @ word \<Longrightarrow>
   (if root then rpath n = [] \<and> radix_ok es pre n
    else child_ok es pre n \<and> below es pre n \<and> word \<noteq> [] \<and> hd word = hd (rpath n)) \<Longrightarrow>
   \<exists>n'. radix_insert root full sz word n = Ok n' \<and> radix_ok ((full, sz) # es) pre n' \<and>
     (if root then rpath n' = []
      else child_ok ((full, sz) # es) pre n' \<and> prefix (rpath n') (rpath n) \<and> hd (rpath n') = hd (rpath n) \<and>
        prefix (rpath n') word)"
  "full = fp @ word \<Longrightarrow> word \<noteq> [] \<Longrightarrow> \<forall>c \<in> set ch. child_ok es fp c \<Longrightarrow> distinct (map (\<lambda>c. hd (rpath c)) ch) \<Longrightarrow>
   \<forall>w \<in> words es. prefix (fp @ [hd word]) w \<longrightarrow> (\<exists>c \<in> set ch. prefix (fp @ rpath c) w) \<Longrightarrow>
   \<exists>ch'. insert_child full sz word ch = Ok ch' \<and> (\<forall>c \<in> set ch'. child_ok ((full, sz) # es) fp c) \<and>
     distinct (map (\<lambda>c. hd (rpath c)) ch') \<and>
     set (map (\<lambda>c. hd (rpath c)) ch') = Set.insert (hd word) (set (map (\<lambda>c. hd (rpath c)) ch)) \<and>
     (\<exists>c \<in> set ch'. prefix (rpath c) word) \<and> (\<forall>c \<in> set ch. \<exists>c' \<in> set ch'. prefix (rpath c') (rpath c)) \<and>
     length ch \<le> length ch'"
proof (induction root full sz word n and full sz word ch arbitrary: es pre and es fp rule: radix_insert_insert_child.induct)
  case (1 root full sz word path en ch ts kc fp)
  let ?i = "commonPrefixLen word path" and ?es = "(full, sz) # es"
  have ok: "radix_ok es pre (Node path en ch ts kc fp)" using 1(3) by (auto simp: child_ok_def split: if_splits)
  note node = ok [unfolded radix_ok.simps]
  have fp: "fp = pre @ path" using node by blast
  have ch: "\<forall>c \<in> set ch. child_ok es fp c" using node unfolding child_ok_def by blast
  show ?case
  proof (cases "?i < length path")
    case True
    then have r: "\<not> root" using 1(3) by (cases root) auto
    with 1(3) have c: "child_ok es pre (Node path en ch ts kc fp)" "below es pre (Node path en ch ts kc fp)" "word \<noteq> []"
      "hd word = hd (rpath (Node path en ch ts kc fp))" by simp_all
    from split_node_ok [OF c, of ?i sz] True r 1(2) show ?thesis by (auto simp: child_ok_def)
  next
    case False
    then have i: "?i = length path" "take (length path) word = path" "length path \<le> length word"
      using commonPrefixLen_props [of word path] by auto
    have pos: "0 < ?i \<or> root" using 1(3) i by (auto simp: child_ok_def split: if_splits)
    have full: "full = fp @ drop ?i word" using 1(2) fp i by (metis append_assoc append_take_drop_id)
    then have pf: "prefix fp full" by (metis prefixI)
    have el: "\<not> root \<Longrightarrow> en \<or> 2 \<le> length ch" using 1(3) by (simp add: child_ok_def)
    have pathw: "prefix path word" using i(2) by (metis take_is_prefix)
    have nonempty: "\<not> root \<Longrightarrow> path \<noteq> []" using 1(3) by (simp add: child_ok_def)
    have result: ?thesis if ins: "radix_insert root full sz word (Node path en ch ts kc fp) = Ok (Node path en' ch' ts' kc' fp)"
      and r: "radix_ok ?es pre (Node path en' ch' ts' kc' fp)" and "\<not> root \<Longrightarrow> en' \<or> 2 \<le> length ch'" for en' ch' ts' kc'
    proof (intro exI conjI, rule ins, rule r)
      have "rpath (Node path en ch ts kc fp) = []" if root using 1(3) that by simp
      then show "if root then rpath (Node path en' ch' ts' kc' fp) = []
        else child_ok ?es pre (Node path en' ch' ts' kc' fp) \<and>
          prefix (rpath (Node path en' ch' ts' kc' fp)) (rpath (Node path en ch ts kc fp)) \<and>
          hd (rpath (Node path en' ch' ts' kc' fp)) = hd (rpath (Node path en ch ts kc fp)) \<and>
          prefix (rpath (Node path en' ch' ts' kc' fp)) word"
        using that(3) r nonempty pathw by (simp add: child_ok_def)
    qed
    show ?thesis
    proof (cases "?i = length word")
      case True
      then have eq: "full = fp" using full by simp
      have "\<not> prefix (fp @ rpath c) full" if "c \<in> set ch" for c
        using ch that eq by (auto simp: child_ok_def dest: prefix_length_le)
      then have ch': "\<forall>c \<in> set ch. child_ok ?es fp c" using ch child_ok_other by blast
      have r: "radix_ok ?es pre (Node path True ch (ts + sz) (kc + 1) fp)"
      proof (rule radix_ok_grow [OF ok pf _ ch'])
        show "distinct (map (\<lambda>c. hd (rpath c)) ch)" using node by blast
        have "\<not> strict_prefix fp full" using eq by simp
        then show "\<forall>w \<in> words ?es. strict_prefix fp w \<longrightarrow> (\<exists>c \<in> set ch. prefix (fp @ rpath c) w)"
          using node unfolding words_simps by blast
      qed (use eq in simp)
      have "radix_insert root full sz word (Node path en ch ts kc fp) = Ok (Node path True ch (ts + sz) (kc + 1) fp)"
        using True i(1) pos by (simp add: Let_def)
      from result [OF this r disjI1 [OF TrueI]] show ?thesis .
    next
      case False
      with i have d: "drop ?i word \<noteq> []" by simp
      have cover: "\<forall>w \<in> words es. prefix (fp @ [hd (drop ?i word)]) w \<longrightarrow> (\<exists>c \<in> set ch. prefix (fp @ rpath c) w)"
      proof (intro ballI impI)
        fix w assume w: "w \<in> words es" "prefix (fp @ [hd (drop ?i word)]) w"
        then have "strict_prefix fp w" by (auto simp: prefix_def strict_prefix_def)
        with node w(1) show "\<exists>c \<in> set ch. prefix (fp @ rpath c) w" by blast
      qed
      have "distinct (map (\<lambda>c. hd (rpath c)) ch)" using node by blast
      from 1(1) [OF refl _ refl refl False full d ch this cover] i
      obtain ch' where ch': "insert_child full sz (drop ?i word) ch = Ok ch'" "\<forall>c \<in> set ch'. child_ok ?es fp c"
        "distinct (map (\<lambda>c. hd (rpath c)) ch')" "\<exists>c \<in> set ch'. prefix (rpath c) (drop ?i word)"
        "\<forall>c \<in> set ch. \<exists>c' \<in> set ch'. prefix (rpath c') (rpath c)" "length ch \<le> length ch'" by auto
      have ne: "full \<noteq> fp" using full d by simp
      have "\<exists>c \<in> set ch'. prefix (fp @ rpath c) w" if w: "w \<in> words ?es" "strict_prefix fp w" for w
      proof (cases "w = full")
        case True
        with ch'(4) full show ?thesis by auto
      next
        case False
        with w have "w \<in> words es" by simp
        with node w(2) obtain c where c: "c \<in> set ch" "prefix (fp @ rpath c) w" by blast
        with ch'(5) obtain c' where "c' \<in> set ch'" "prefix (rpath c') (rpath c)" by blast
        with c(2) show ?thesis by (meson prefix_order.order_trans same_prefix_prefix)
      qed
      then have r: "radix_ok ?es pre (Node path en ch' (ts + sz) (kc + 1) fp)"
        by (intro radix_ok_grow [OF ok pf _ ch'(2,3)]) (use ne in blast)+
      have "radix_insert root full sz word (Node path en ch ts kc fp) = Ok (Node path en ch' (ts + sz) (kc + 1) fp)"
        using False i(1) pos ch'(1) by (simp add: Let_def rbind_def)
      moreover have "\<not> root \<Longrightarrow> en \<or> 2 \<le> length ch'" using el ch'(6) by linarith
      ultimately show ?thesis using result r by blast
    qed
  qed
next
  case (2 full sz word)
  have "\<forall>w \<in> words es. \<not> prefix (fp @ word) w" using 2 prefix_hd by fastforce
  from child_ok_leaf [OF 2(2) this, of sz] 2 show ?case by (auto simp: new_leaf_def)
next
  case (3 full sz word c cs)
  have c: "rpath c \<noteq> []" "child_ok es fp c" using 3(5) by (simp_all add: child_ok_def)
  show ?case
  proof (cases "hd (rpath c) = hd word")
    case True
    have "below es fp c"
      unfolding below_def
    proof (intro ballI impI)
      fix w assume w: "w \<in> words es" "prefix (fp @ [hd (rpath c)]) w"
      with 3(7) True obtain c' where c': "c' \<in> set (c # cs)" "prefix (fp @ rpath c') w" by auto
      then have "hd (rpath c') = hd (rpath c)" using w(2) 3(5) by (intro prefix_hd_eq) (auto simp: child_ok_def)
      with c'(1) 3(6) have "c' = c" by (metis (mono_tags, lifting) distinct.simps(2) imageI list.set_map list.simps(9) set_ConsD)
      with c'(2) show "prefix (fp @ rpath c) w" by simp
    qed
    then have "if False then rpath c = [] \<and> radix_ok es fp c
        else child_ok es fp c \<and> below es fp c \<and> word \<noteq> [] \<and> hd word = hd (rpath c)"
      using c(2) 3(4) True by simp
    from 3(1) [OF c(1) True 3(3) this, unfolded if_False] obtain c' where c': "radix_insert False full sz word c = Ok c'"
      "child_ok ((full, sz) # es) fp c'" "prefix (rpath c') (rpath c)" "hd (rpath c') = hd (rpath c)" "prefix (rpath c') word"
      by blast
    have "child_ok ((full, sz) # es) fp d" if d: "d \<in> set cs" for d
    proof (rule child_ok_other)
      show "child_ok es fp d" using 3(5) d by simp
      have "hd (rpath c) \<notin> (\<lambda>c. hd (rpath c)) ` set cs" using 3(6) by simp
      then have "hd (rpath d) \<noteq> hd word" using d True by force
      moreover have "rpath d \<noteq> []" using 3(5) d by (simp add: child_ok_def)
      ultimately show "\<not> prefix (fp @ rpath d) full"
        unfolding 3(3) using 3(4) differ_prefix by blast
    qed
    with c' 3(6) c(1) True show ?thesis by (auto simp: rbind_def)
  next
    case False
    have cs: "\<forall>c \<in> set cs. child_ok es fp c" "distinct (map (\<lambda>c. hd (rpath c)) cs)" using 3(5,6) by simp_all
    have "\<forall>w \<in> words es. prefix (fp @ [hd word]) w \<longrightarrow> (\<exists>c \<in> set cs. prefix (fp @ rpath c) w)"
    proof (intro ballI impI)
      fix w assume w: "w \<in> words es" "prefix (fp @ [hd word]) w"
      with 3(7) obtain c' where c': "c' \<in> set (c # cs)" "prefix (fp @ rpath c') w" by blast
      then have "rpath c' \<noteq> []" using 3(5) unfolding child_ok_def by blast
      from prefix_hd_eq [OF c'(2) w(2) this] False have "c' \<noteq> c" by blast
      with c' show "\<exists>c \<in> set cs. prefix (fp @ rpath c) w" by auto
    qed
    with 3(2) [OF c(1) False 3(3,4) cs] obtain cs' where cs': "insert_child full sz word cs = Ok cs'"
      "\<forall>c \<in> set cs'. child_ok ((full, sz) # es) fp c" "distinct (map (\<lambda>c. hd (rpath c)) cs')"
      "set (map (\<lambda>c. hd (rpath c)) cs') = Set.insert (hd word) (set (map (\<lambda>c. hd (rpath c)) cs))"
      "\<exists>c \<in> set cs'. prefix (rpath c) word" "\<forall>c \<in> set cs. \<exists>c' \<in> set cs'. prefix (rpath c') (rpath c)"
      "length cs \<le> length cs'" by blast
    have "\<not> prefix (fp @ rpath c) full"
      unfolding 3(3) using False c(1) 3(4) differ_prefix by blast
    from child_ok_other [OF c(2) this] cs' 3(6) False c(1) show ?thesis by (auto simp: rbind_def)
  qed
qed

section \<open>All insertions\<close>

lemma insert_ok:
  assumes "radix_ok es [] tree" and "rpath tree = []"
  shows "\<exists>tree'. insert word sz tree = Ok tree' \<and> radix_ok ((word, sz) # es) [] tree' \<and> rpath tree' = []"
  using radix_insert_ok(1) [of word "[]" word True tree es sz] assms by (simp add: insert_def)

lemma insert_all_ok:
  assumes "radix_ok es [] tree" and "rpath tree = []"
  shows "\<exists>tree'. insert_all xs tree = Ok tree' \<and> radix_ok (rev xs @ es) [] tree' \<and> rpath tree' = []"
  using assms
proof (induction xs arbitrary: tree es)
  case (Cons x xs)
  obtain w s where x: "x = (w, s)" by fastforce
  from insert_ok [OF Cons.prems, of w s] obtain t where t: "insert w s tree = Ok t" "radix_ok ((w, s) # es) [] t"
    "rpath t = []" by blast
  from Cons.IH [OF t(2,3)] t(1) x show ?case by (simp add: rbind_def)
qed simp

lemma radix_ok_new: "radix_ok [] [] newRadixTree"
  by (simp add: newRadixTree_def radix_ok.simps prefix_size_def prefix_count_def)

lemma prefix_size_rev: "prefix_size (rev es) p = prefix_size es p" "prefix_count (rev es) p = prefix_count es p"
  "words (rev es) = words es"
  by (simp_all add: prefix_size_def prefix_count_def words_def rev_filter [symmetric] rev_map [symmetric])

text \<open>Every node tells the truth, and every word has its node.\<close>

definition node_true :: "(bytes \<times> int) list \<Rightarrow> radix \<Rightarrow> bool" where
  "node_true es m \<longleftrightarrow> totalSize m = prefix_size es (fullpath m) \<and> keyCount m = prefix_count es (fullpath m) \<and>
     (ends m \<longleftrightarrow> fullpath m \<in> words es)"

lemma radix_ok_nodes:
  "radix_ok es pre n \<Longrightarrow> \<forall>m \<in> set (all_nodes n). node_true es m \<and> prefix (fullpath n) (fullpath m)"
proof (induction es pre n rule: radix_ok.induct)
  case (1 es pre path en ch ts kc fp)
  note node = 1(2) [unfolded radix_ok.simps]
  have self: "node_true es (Node path en ch ts kc fp)" using node by (simp add: node_true_def)
  have "node_true es m \<and> prefix fp (fullpath m)" if "c \<in> set ch" "m \<in> set (all_nodes c)" for c m
  proof -
    have c: "radix_ok es fp c" using node that(1) by blast
    have "prefix fp (fullpath c)" using c by (cases c) (simp add: radix_ok.simps)
    with 1(1) [OF that(1) c] that(2) show ?thesis by (meson prefix_order.order_trans)
  qed
  with self show ?case by auto
qed

lemma radix_ok_words:
  "radix_ok es pre n \<Longrightarrow> w \<in> words es \<Longrightarrow> prefix (fullpath n) w \<Longrightarrow> \<exists>m \<in> set (all_nodes n). fullpath m = w \<and> ends m"
proof (induction es pre n rule: radix_ok.induct)
  case (1 es pre path en ch ts kc fp)
  note node = 1(2) [unfolded radix_ok.simps]
  show ?case
  proof (cases "w = fp")
    case True
    with node 1(3) show ?thesis by auto
  next
    case False
    with 1(4) have "strict_prefix fp w" by (simp add: strict_prefix_def)
    with node 1(3) obtain c where c: "c \<in> set ch" "prefix (fp @ rpath c) w" by blast
    have ok: "radix_ok es fp c" using node c(1) by blast
    then have "fullpath c = fp @ rpath c" by (cases c) (simp add: radix_ok.simps)
    with 1(1) [OF c(1) ok 1(3)] c show ?thesis by auto
  qed
qed

lemma tree_of_words:
  obtains tree where "insert_all es newRadixTree = Ok tree" and "radix_ok (rev es) [] tree" and "rpath tree = []"
  using insert_all_ok [OF radix_ok_new, of es] by (auto simp: newRadixTree_def)

lemma tree_true:
  assumes "insert_all es newRadixTree = Ok tree"
  shows "list_all (node_true es) (all_nodes tree)"
proof -
  obtain t where t: "insert_all es newRadixTree = Ok t" "radix_ok (rev es) [] t" by (rule tree_of_words)
  then have "\<forall>m \<in> set (all_nodes tree). node_true (rev es) m" using assms radix_ok_nodes by fastforce
  then show ?thesis by (simp add: list_all_iff node_true_def prefix_size_rev)
qed

text \<open>
  C20. The radix tree counts right: after any insertions, whatever the order, every node's size and key count are
  the sum of the sizes and the number of the words that begin with the node's full path, the nodes marked as ends
  are exactly the words, and no insertion panics.
\<close>

theorem radix_tree_counts:
  "\<exists>tree. insert_all es newRadixTree = Ok tree \<and>
    list_all (\<lambda>m. totalSize m = sum_list (map snd (filter (\<lambda>(w, s). prefix (fullpath m) w) es)) \<and>
      keyCount m = length (filter (\<lambda>(w, s). prefix (fullpath m) w) es)) (all_nodes tree) \<and>
    fullpath ` {m. m \<in> set (all_nodes tree) \<and> ends m} = fst ` set es"
proof -
  obtain tree where t: "insert_all es newRadixTree = Ok tree" "radix_ok (rev es) [] tree" "rpath tree = []"
    by (rule tree_of_words)
  have nodes: "list_all (node_true es) (all_nodes tree)" by (rule tree_true [OF t(1)])
  have "fullpath tree = []" using t(2,3) by (cases tree) (simp add: radix_ok.simps)
  then have "\<exists>m \<in> set (all_nodes tree). fullpath m = w \<and> ends m" if "w \<in> words es" for w
    using radix_ok_words [OF t(2), of w] that by (simp add: prefix_size_rev)
  then have "fullpath ` {m. m \<in> set (all_nodes tree) \<and> ends m} = words es"
    using nodes by (fastforce simp: list_all_iff node_true_def)
  moreover have "list_all (\<lambda>m. totalSize m = prefix_size es (fullpath m) \<and> keyCount m = prefix_count es (fullpath m))
      (all_nodes tree)"
    using nodes by (simp add: list_all_iff node_true_def)
  ultimately show ?thesis using t(1) unfolding prefix_size_def prefix_count_def words_def by blast
qed

section \<open>Traversal\<close>

text \<open>
  \<open>traverse\<close>: a queue of nodes with their depth, and a callback that may stop it; the callback's variables are
  the state.
\<close>

definition node_count :: "radix \<Rightarrow> nat" where
  "node_count n = length (all_nodes n)"

definition forest_count :: "radix list \<Rightarrow> nat" where
  "forest_count ns = sum_list (map node_count ns)"

lemma node_count_children: "node_count n = Suc (forest_count (children n))"
  unfolding node_count_def forest_count_def by (cases n) (simp add: length_concat o_def node_count_def)

lemma forest_count_simps [simp]:
  "forest_count [] = 0"
  "forest_count (n # ns) = Suc (forest_count (children n) + forest_count ns)"
  "forest_count (ns @ ms) = forest_count ns + forest_count ms"
  by (simp_all add: forest_count_def node_count_children)

lemma forest_count_next: "forest_count ns = length ns + forest_count (concat (map children ns))"
  by (induction ns) simp_all

function traverse_loop :: "('s \<Rightarrow> radix \<Rightarrow> nat \<Rightarrow> bool \<times> 's) \<Rightarrow> (radix \<times> nat) list \<Rightarrow> 's \<Rightarrow> 's" where
  "traverse_loop cb [] st = st"
| "traverse_loop cb ((n, depth) # queue) st =
     (case cb st n depth of (go_on, st') \<Rightarrow>
      if \<not> go_on then st'
      else traverse_loop cb (queue @ map (\<lambda>child. (child, depth + 1)) (children n)) st')"
  by pat_completeness auto

termination
  by (relation "measure (\<lambda>(cb, queue, st). forest_count (map fst queue))") (simp_all add: o_def)

definition traverse :: "('s \<Rightarrow> radix \<Rightarrow> nat \<Rightarrow> bool \<times> 's) \<Rightarrow> radix \<Rightarrow> 's \<Rightarrow> 's" where
  "traverse cb root st = traverse_loop cb [(root, 1)] st"

text \<open>The nodes level by level, \<open>k\<close> levels of them.\<close>

fun levels :: "nat \<Rightarrow> nat \<Rightarrow> radix list \<Rightarrow> (radix \<times> nat) list" where
  "levels 0 d ns = []"
| "levels (Suc k) d ns = map (\<lambda>n. (n, d)) ns @ levels k (d + 1) (concat (map children ns))"

text \<open>The callback on a list of nodes, until it stops.\<close>

fun visit :: "('s \<Rightarrow> radix \<Rightarrow> nat \<Rightarrow> bool \<times> 's) \<Rightarrow> (radix \<times> nat) list \<Rightarrow> 's \<Rightarrow> bool \<times> 's" where
  "visit cb [] st = (True, st)"
| "visit cb ((n, d) # q) st = (case cb st n d of (go_on, st') \<Rightarrow> if \<not> go_on then (False, st') else visit cb q st')"

lemma traverse_level:
  "traverse_loop cb (map (\<lambda>n. (n, d)) ns @ map (\<lambda>n. (n, d + 1)) ms) st =
    (case visit cb (map (\<lambda>n. (n, d)) ns) st of (go_on, st') \<Rightarrow>
     if go_on then traverse_loop cb (map (\<lambda>n. (n, d + 1)) (ms @ concat (map children ns))) st' else st')"
proof (induction ns arbitrary: ms st)
  case (Cons n ns)
  have "traverse_loop cb ((map (\<lambda>n. (n, d)) ns @ map (\<lambda>n. (n, d + 1)) ms) @ map (\<lambda>c. (c, d + 1)) (children n)) st' =
      traverse_loop cb (map (\<lambda>n. (n, d)) ns @ map (\<lambda>n. (n, d + 1)) (ms @ children n)) st'" for st'
    by simp
  then show ?case using Cons.IH [of "ms @ children n"] by (auto split: prod.splits)
qed simp

lemma visit_append:
  "visit cb (xs @ ys) st = (case visit cb xs st of (go_on, st') \<Rightarrow> if go_on then visit cb ys st' else (False, st'))"
  by (induction xs arbitrary: st) (auto split: prod.splits)

lemma traverse_levels:
  "\<exists>k0. \<forall>k \<ge> k0. traverse_loop cb (map (\<lambda>n. (n, d)) ns) st = snd (visit cb (levels k d ns) st)"
proof (induction "forest_count ns" arbitrary: ns d st rule: less_induct)
  case less
  show ?case
  proof (cases "ns = []")
    case True
    have "levels k d [] = []" for k d by (induction k arbitrary: d) simp_all
    with True show ?thesis by simp
  next
    case False
    let ?next = "concat (map children ns)"
    obtain go_on st' where v: "visit cb (map (\<lambda>n. (n, d)) ns) st = (go_on, st')" by fastforce
    have "forest_count ?next < forest_count ns"
      using forest_count_next [of ns] False by (cases ns) simp_all
    from less [OF this, of "d + 1" st'] obtain k0 where
      "\<forall>k \<ge> k0. traverse_loop cb (map (\<lambda>n. (n, d + 1)) ?next) st' = snd (visit cb (levels k (d + 1) ?next) st')"
      by blast
    then have "\<forall>k \<ge> Suc k0. traverse_loop cb (map (\<lambda>n. (n, d)) ns) st = snd (visit cb (levels k d ns) st)"
    proof (intro allI impI)
      fix k assume "\<forall>k \<ge> k0. traverse_loop cb (map (\<lambda>n. (n, d + 1)) ?next) st' = snd (visit cb (levels k (d + 1) ?next) st')"
        and "Suc k0 \<le> k"
      then show "traverse_loop cb (map (\<lambda>n. (n, d)) ns) st = snd (visit cb (levels k d ns) st)"
        using traverse_level [of cb d ns "[]" st] v by (cases k) (auto simp: visit_append)
    qed
    then show ?thesis by blast
  qed
qed

lemma levels_Nil [simp]: "levels k d [] = []"
  by (induction k arbitrary: d) simp_all

lemma forest_count_less: "ns \<noteq> [] \<Longrightarrow> forest_count (concat (map children ns)) < forest_count ns"
  using forest_count_next [of ns] by (cases ns) simp_all

lemma levels_enough: "forest_count ns \<le> k \<Longrightarrow> levels k d ns = levels (forest_count ns) d ns"
proof (induction "forest_count ns" arbitrary: ns d k rule: less_induct)
  case less
  show ?case
  proof (cases "ns = []")
    case False
    let ?next = "concat (map children ns)"
    have lt: "forest_count ?next < forest_count ns" by (rule forest_count_less [OF False])
    then obtain k' f where k: "k = Suc k'" "forest_count ns = Suc f" using less(2) by (cases k; cases "forest_count ns") auto
    then show ?thesis using less(1) [OF lt, of k' "d + 1"] less(1) [OF lt, of f "d + 1"] lt less(2) by simp
  qed simp
qed

lemma traverse_eq: "traverse cb root st = snd (visit cb (levels (node_count root) 1 [root]) st)"
proof -
  obtain k0 where "\<forall>k \<ge> k0. traverse_loop cb (map (\<lambda>n. (n, 1)) [root]) st = snd (visit cb (levels k 1 [root]) st)"
    using traverse_levels [of cb 1 "[root]" st] by blast
  moreover have "levels (max k0 (node_count root)) 1 [root] = levels (node_count root) 1 [root]"
    using levels_enough [of "[root]" "max k0 (node_count root)" 1] by (simp add: node_count_children)
  ultimately show ?thesis by (metis list.simps(8,9) max.cobounded1 traverse_def)
qed

section \<open>Depth\<close>

text \<open>
  What a node at depth \<open>d\<close> is: its path has at least \<open>d - 1\<close> bytes, and below the root it is a word or a fork.
\<close>

definition deep :: "(bytes \<times> int) list \<Rightarrow> nat \<Rightarrow> radix \<Rightarrow> bool" where
  "deep es d n \<longleftrightarrow> (\<exists>pre. radix_ok es pre n) \<and> d \<le> length (fullpath n) + 1 \<and> (2 \<le> d \<longrightarrow> ends n \<or> 2 \<le> length (children n))"

lemma radix_ok_child:
  assumes "radix_ok es pre n" and "c \<in> set (children n)"
  shows "child_ok es (fullpath n) c" and "fullpath c = fullpath n @ rpath c"
proof -
  show ok: "child_ok es (fullpath n) c" using assms by (cases n) (auto simp: radix_ok.simps child_ok_def)
  then show "fullpath c = fullpath n @ rpath c" by (cases c) (simp add: child_ok_def radix_ok.simps)
qed

lemma deep_child:
  assumes "deep es d n" and "c \<in> set (children n)"
  shows "deep es (d + 1) c"
proof -
  obtain pre where "radix_ok es pre n" using assms(1) unfolding deep_def by blast
  note c = radix_ok_child [OF this assms(2)]
  have "Suc 0 \<le> length (rpath c)" using c(1) by (simp add: child_ok_def Suc_le_eq)
  moreover have "d \<le> length (fullpath n) + 1" using assms(1) by (simp add: deep_def)
  ultimately have "d + 1 \<le> length (fullpath c) + 1" unfolding c(2) by simp
  then show ?thesis using c(1) unfolding deep_def child_ok_def by blast
qed

lemma all_nodes_self: "n \<in> set (all_nodes n)"
  by (cases n) simp

lemma all_nodes_child: "c \<in> set (children n) \<Longrightarrow> m \<in> set (all_nodes c) \<Longrightarrow> m \<in> set (all_nodes n)"
  by (cases n) auto

lemma levels_nodes:
  assumes "\<forall>n \<in> set ns. deep es j n" and "(m, d) \<in> set (levels k j ns)"
  shows "deep es d m \<and> (\<exists>n \<in> set ns. m \<in> set (all_nodes n))"
  using assms
proof (induction k arbitrary: j ns)
  case (Suc k)
  show ?case
  proof (cases "(m, d) \<in> set (levels k (j + 1) (concat (map children ns)))")
    case True
    have "\<forall>c \<in> set (concat (map children ns)). deep es (j + 1) c" using Suc.prems(1) deep_child by fastforce
    from Suc.IH [OF this True] show ?thesis by (auto intro: all_nodes_child)
  next
    case False
    then have "m \<in> set ns" "d = j" using Suc.prems(2) by auto
    then show ?thesis using Suc.prems(1) all_nodes_self by blast
  qed
qed simp

lemma child_ok_word: "child_ok es pre n \<Longrightarrow> \<exists>w \<in> words es. prefix (pre @ rpath n) w"
proof (induction n arbitrary: pre)
  case (Node path en ch ts kc fp)
  let ?n = "Node path en ch ts kc fp"
  have ok: "radix_ok es pre ?n" and f: "en \<or> 2 \<le> length ch" using Node.prems by (simp_all add: child_ok_def)
  have fp: "fp = pre @ path" and e: "en \<longleftrightarrow> fp \<in> words es" using ok by (simp_all add: radix_ok.simps)
  show ?case
  proof (cases en)
    case True
    then show ?thesis using fp e by auto
  next
    case False
    then obtain c where c: "c \<in> set ch" using f by (cases ch) auto
    then have "child_ok es fp c" using radix_ok_child(1) [OF ok] by simp
    from Node.IH [OF c this] obtain w where "w \<in> words es" "prefix ((pre @ path) @ rpath c) w" using fp by auto
    then show ?thesis using append_prefixD [of "pre @ path"] by auto
  qed
qed

text \<open>A fork: two words that part there.\<close>

lemma deep_fork:
  assumes "deep es d m" and "2 \<le> d" and "\<not> ends m"
  obtains w1 h1 w2 h2 where "w1 \<in> words es" "prefix (fullpath m @ [h1]) w1" "w2 \<in> words es"
    "prefix (fullpath m @ [h2]) w2" "h1 \<noteq> h2"
proof -
  obtain pre where ok: "radix_ok es pre m" and "2 \<le> length (children m)" using assms unfolding deep_def by blast
  then obtain c1 c2 cs where ch: "children m = c1 # c2 # cs" by (cases "children m"; cases "tl (children m)") auto
  have word: "\<exists>w \<in> words es. prefix (fullpath m @ [hd (rpath c)]) w" if "c \<in> set (children m)" for c
  proof -
    have ok: "child_ok es (fullpath m) c" by (rule radix_ok_child(1) [OF ok that])
    then have "rpath c \<noteq> []" by (simp add: child_ok_def)
    with child_ok_word [OF ok] prefix_hd show ?thesis by blast
  qed
  have "hd (rpath c1) \<noteq> hd (rpath c2)" using ok ch by (cases m) (simp add: radix_ok.simps)
  with word [of c1] word [of c2] that show thesis by (auto simp: ch)
qed

lemma root_deep: "radix_ok es [] tree \<Longrightarrow> deep es 1 tree"
  by (auto simp: deep_def)

end
