(* ===== verification/Reports.thy ===== *)
theory Reports
  imports RdbRoundtrip Toplist Filters Radix
begin

text \<open>
  The reports (\<open>helper/bigkey.go\<close>, \<open>helper/hotkey.go\<close>, \<open>helper/memory.go\<close>, \<open>helper/prefix.go\<close>,
  \<open>helper/prefix_stream.go\<close>): each parses a file through the filters with a closure that always asks for more,
  and writes a table. The output is the list of what is written to it, CSV records before quoting; writing to it
  does not fail. What comes from the operating system or from packages that are not part of the program is
  the record \<open>env\<close>.
\<close>

section \<open>Parsing with a closure\<close>

record 'v env =
  env_handlers :: "'v handlers"
  env_parseFloat :: "bytes \<Rightarrow> f64 option"
  env_outOfRange :: "u64 \<Rightarrow> nat \<Rightarrow> u64"
  env_regexp :: "bytes \<Rightarrow> (bytes \<Rightarrow> bool) option"
  env_explode :: "bytes \<Rightarrow> int \<Rightarrow> bytes list"
  env_now :: int
  env_open :: "bytes \<Rightarrow> bytes option"
  env_create :: "bytes \<Rightarrow> bool"
  env_formatTime :: "int \<Rightarrow> bytes"

text \<open>
  The closure changes the variables \<open>st\<close> with every object it is given; when it panics, \<open>Parse\<close> recovers and
  returns the error.
\<close>

fun feed :: "('st \<Rightarrow> 'v redis_object \<Rightarrow> 'st result) \<Rightarrow> 'st \<Rightarrow> 'v redis_object list \<Rightarrow> unit result \<Rightarrow>
    unit result \<times> 'st" where
  "feed step st [] r = (r, st)"
| "feed step st (obj # objs) r = (case step st obj of
     Ok st' \<Rightarrow> feed step st' objs r
   | Err e \<Rightarrow> (Err e, st)
   | Panic p \<Rightarrow> (Err (ErrRecovered p), st))"

definition delivered_to :: "'v env \<Rightarrow> wrapped \<Rightarrow> unit result \<times> 'v redis_object list" where
  "delivered_to env w =
     (case wrapped_parse (env_handlers env) (env_parseFloat env) (env_now env) (\<lambda>_ _. True) w of
        (r, s) \<Rightarrow> (r, filter (passes_all (env_now env) w) (delivered s)))"

definition parse_with ::
  "'v env \<Rightarrow> wrapped \<Rightarrow> ('st \<Rightarrow> 'v redis_object \<Rightarrow> 'st result) \<Rightarrow> 'st \<Rightarrow> unit result \<times> 'st" where
  "parse_with env w step st = (case delivered_to env w of (r, objs) \<Rightarrow> feed step st objs r)"

definition open_wrapped :: "'v env \<Rightarrow> bytes \<Rightarrow> helper_option list \<Rightarrow> wrapped result" where
  "open_wrapped env rdbFilename options =
     (if rdbFilename = [] then Err (ErrMsg ''src file path is required'')
      else (case env_open env rdbFilename of
        None \<Rightarrow> Err (ErrMsg ''open rdb failed'')
      | Some content \<Rightarrow>
          wrapDecoder (env_regexp env) (env_parseFloat env) (env_outOfRange env) (env_now env div 1000000000)
            (NewDecoder content) options))"

text \<open>The objects that reach the closure of a report on this file, when it can be parsed to its end.\<close>

definition file_objects :: "'v env \<Rightarrow> bytes \<Rightarrow> helper_option list \<Rightarrow> 'v redis_object list option" where
  "file_objects env rdbFilename options =
     (case open_wrapped env rdbFilename options of
        Ok w \<Rightarrow> (case delivered_to env w of (Ok u, objs) \<Rightarrow> Some objs | _ \<Rightarrow> None)
      | _ \<Rightarrow> None)"

section \<open>Tables\<close>

datatype csv_line = Line bytes | Record "bytes list"

type_synonym report = "csv_line list"

definition put :: "csv_line \<Rightarrow> (report, unit) comp" where
  "put l = modify (\<lambda>out. out @ [l])"

fun put_all :: "csv_line list \<Rightarrow> (report, unit) comp" where
  "put_all [] = ret ()"
| "put_all (l # ls) = seq (put l) (put_all ls)"

definition lift_result :: "'a result \<Rightarrow> ('s, 'a) comp" where
  "lift_result r s = (r, s)"

lemma put_all_eq [simp]: "put_all ls acc = (Ok (), acc @ ls)"
  by (induction ls arbitrary: acc) (simp_all add: monad_defs put_def)

definition size_text :: "int \<Rightarrow> bytes" where
  "size_text n = FormatSize (of_int n)"

section \<open>The biggest keys\<close>

definition MaxInt :: int where "MaxInt = 9223372036854775807"

definition bigkey_row :: "'v redis_object \<Rightarrow> csv_line" where
  "bigkey_row obj = Record
     [itoa (GetDBIndex obj), GetKey obj, ascii (GetType obj), itoa (GetSize obj), size_text (GetSize obj),
      itoa (int (GetElemCount obj))]"

definition bigkey_header :: csv_line where
  "bigkey_header = Line (ascii ''database,key,type,size,size_readable,element_count'')"

definition FindBiggestKeys :: "'v env \<Rightarrow> bytes \<Rightarrow> int \<Rightarrow> helper_option list \<Rightarrow> (report, unit) comp" where
  "FindBiggestKeys env rdbFilename topN options =
     (if rdbFilename = [] then throw (ErrMsg ''src file path is required'')
      else if topN \<le> 0 then throw (ErrMsg ''n must greater than 0'')
      else
        bind (lift_result (open_wrapped env rdbFilename options)) (\<lambda>dec.
        case parse_with env dec (topList_add GetSize topN) [] of (r, best) \<Rightarrow>
        seq (lift_result r) (
        seq (put bigkey_header) (
        put_all (map bigkey_row best)))))"

section \<open>The hottest keys\<close>

definition hotkey_step :: "int \<Rightarrow> 'v hotKeyEntry list \<Rightarrow> 'v redis_object \<Rightarrow> 'v hotKeyEntry list result" where
  "hotkey_step topN best obj =
     (if GetFreq obj < 0 then Ok best
      else hotKeyList_add topN best \<lparr>hk_object = obj, hk_freq = GetFreq obj\<rparr>)"

definition hotkey_row :: "'v hotKeyEntry \<Rightarrow> csv_line" where
  "hotkey_row entry = (let obj = hk_object entry in Record
     [itoa (GetDBIndex obj), GetKey obj, ascii (GetType obj), itoa (GetSize obj), size_text (GetSize obj),
      itoa (hk_freq entry)])"

definition hotkey_header :: csv_line where
  "hotkey_header = Line (ascii ''database,key,type,size,size_readable,freq'')"

definition FindHotKeys :: "'v env \<Rightarrow> bytes \<Rightarrow> int \<Rightarrow> helper_option list \<Rightarrow> (report, unit) comp" where
  "FindHotKeys env rdbFilename topN options =
     (if rdbFilename = [] then throw (ErrMsg ''src file path is required'')
      else if topN \<le> 0 then throw (ErrMsg ''n must greater than 0'')
      else
        bind (lift_result (open_wrapped env rdbFilename options)) (\<lambda>dec.
        case parse_with env dec (hotkey_step topN) [] of (r, best) \<Rightarrow>
        seq (lift_result r) (
        seq (put hotkey_header) (
        put_all (map hotkey_row best)))))"

section \<open>The memory report\<close>

definition memory_row :: "'v env \<Rightarrow> 'v redis_object \<Rightarrow> csv_line" where
  "memory_row env obj = Record
     [itoa (GetDBIndex obj), GetKey obj, ascii (GetType obj), itoa (GetSize obj), size_text (GetSize obj),
      itoa (int (GetElemCount obj)), ascii (GetEncoding obj),
      (case GetExpiration obj of None \<Rightarrow> [] | Some t \<Rightarrow> env_formatTime env t)]"

definition memory_header :: csv_line where
  "memory_header = Line (ascii ''database,key,type,size,size_readable,element_count,encoding,expiration'')"

definition MemoryProfile :: "'v env \<Rightarrow> bytes \<Rightarrow> bytes \<Rightarrow> helper_option list \<Rightarrow> (report, unit) comp" where
  "MemoryProfile env rdbFilename csvFilename options =
     (if rdbFilename = [] then throw (ErrMsg ''src file path is required'')
      else if csvFilename = [] then throw (ErrMsg ''output file path is required'')
      else if env_open env rdbFilename \<noteq> None \<and> \<not> env_create env csvFilename then
        throw (ErrMsg ''create json failed'')
      else
        bind (lift_result (open_wrapped env rdbFilename options)) (\<lambda>dec.
        seq (put memory_header) (
        case parse_with env dec (\<lambda>rows obj. Ok (rows @ [memory_row env obj])) [] of (r, rows) \<Rightarrow>
        seq (put_all rows) (lift_result r))))"

section \<open>What the reports say\<close>

lemma parse_with_Parse:
  "delivered_to env w =
    (case Parse (env_handlers env) (env_parseFloat env) (\<lambda>_ _. True) (core_of w) of
       (r, s) \<Rightarrow> (r, filter (passes_all (env_now env) w) (delivered s)))"
  unfolding delivered_to_def wrapped_parse_filtered by (simp add: filtered_def)

lemma feed_add_all:
  assumes "add_all step st objs = Ok st'"
  shows "feed step st objs r = (r, st')"
  using assms by (induction objs arbitrary: st) (auto split: result.splits)

lemma feed_filter:
  assumes "\<And>st obj. step st obj = (if keep obj then step' st (f obj) else Ok st)"
    and "add_all step' st (map f (filter keep objs)) = Ok st'"
  shows "feed step st objs r = (r, st')"
  using assms(2) by (induction objs arbitrary: st) (auto simp: assms(1) split: result.splits)

lemma file_objectsE:
  assumes "file_objects env rdbFilename options = Some objs"
  obtains w where "open_wrapped env rdbFilename options = Ok w" "delivered_to env w = (Ok (), objs)"
    "rdbFilename \<noteq> []"
  using assms unfolding file_objects_def
  by (auto simp: open_wrapped_def split: result.splits prod.splits if_splits)

lemmas report_defs = lift_result_def monad_defs put_def parse_with_def

text \<open>
  C19. The table of the biggest keys: for a file that is parsed to its end, the rows stand for objects of the file
  that pass the filters, each at most once, largest first, and no object of the file that passes the filters
  and is left out is larger than one in the table; the table is shorter than \<open>topN\<close> only when it holds all of
  them.
\<close>

theorem biggest_keys_report:
  assumes "file_objects env rdbFilename options = Some objs" and "0 < topN"
  shows "\<exists>best rest. FindBiggestKeys env rdbFilename topN options acc = (Ok (), acc @ bigkey_header # map bigkey_row best) \<and>
    mset (best @ rest) = mset objs \<and> sorted (map (\<lambda>x. - GetSize x) best) \<and>
    list_all (\<lambda>x. list_all (\<lambda>y. GetSize y \<le> GetSize x) rest) best \<and> int (length best) = min topN (int (length objs))"
proof -
  obtain w where w: "open_wrapped env rdbFilename options = Ok w" "delivered_to env w = (Ok (), objs)"
    "rdbFilename \<noteq> []" by (rule file_objectsE [OF assms(1)])
  let ?all = "ranking_of GetSize objs"
  let ?top = "take (nat topN) ?all" and ?rest = "drop (nat topN) ?all"
  have "add_all (topList_add GetSize topN) [] objs = Ok ?top"
    using assms(2) by (intro top_list.add_all_top) simp
  then have "FindBiggestKeys env rdbFilename topN options acc =
      (Ok (), acc @ bigkey_header # map bigkey_row ?top)"
    using w assms(2) by (simp add: FindBiggestKeys_def report_defs feed_add_all)
  moreover have "mset (?top @ ?rest) = mset objs" by (simp only: append_take_drop_id ranking_of_props)
  moreover have "sorted (map (\<lambda>x. - GetSize x) ?top)"
    using ranking_of_props(1) [of GetSize objs] by (simp add: take_map [symmetric] sorted_wrt_take)
  moreover have "list_all (\<lambda>x. list_all (\<lambda>y. GetSize y \<le> GetSize x) ?rest) ?top"
    unfolding list_all_iff using ranking_of_kept [of _ "nat topN" GetSize objs] by blast
  moreover have "int (length ?top) = min topN (int (length objs))"
    using assms(2) by (auto simp: ranking_of_props)
  ultimately show ?thesis by blast
qed

lemma ranking_of_map:
  assumes "\<And>x. g (f x) = h x"
  shows "ranking_of g (map f xs) = map f (ranking_of h xs)"
proof -
  have "insort_key (\<lambda>x. - g x) (f x) (map f ys) = map f (insort_key (\<lambda>x. - h x) x ys)" for x ys
    by (induction ys) (simp_all add: assms)
  then have "sort_key (\<lambda>x. - g x) (map f ys) = map f (sort_key (\<lambda>x. - h x) ys)" for ys
    by (induction ys) (simp_all add: assms)
  then show ?thesis by (simp add: ranking_of_def rev_map)
qed

text \<open>
  C40. The table of the hottest keys: for a file that is parsed to its end, the rows stand for objects of the file that pass the
  filters and carry a frequency, each at most once, hottest first, with the frequency of the object in the row; no such object
  that is left out is hotter than one in the table, which is shorter than \<open>topN\<close> only when it holds all of them.
\<close>

theorem hottest_keys_report:
  assumes "file_objects env rdbFilename options = Some objs" and "0 < topN"
  shows "\<exists>best rest. FindHotKeys env rdbFilename topN options acc =
      (Ok (), acc @ hotkey_header # map (\<lambda>obj. hotkey_row \<lparr>hk_object = obj, hk_freq = GetFreq obj\<rparr>) best) \<and>
    mset (best @ rest) = mset (filter (\<lambda>obj. 0 \<le> GetFreq obj) objs) \<and> sorted (map (\<lambda>x. - GetFreq x) best) \<and>
    list_all (\<lambda>x. list_all (\<lambda>y. GetFreq y \<le> GetFreq x) rest) best \<and>
    int (length best) = min topN (int (length (filter (\<lambda>obj. 0 \<le> GetFreq obj) objs)))"
proof -
  obtain w where w: "open_wrapped env rdbFilename options = Ok w" "delivered_to env w = (Ok (), objs)"
    "rdbFilename \<noteq> []" by (rule file_objectsE [OF assms(1)])
  let ?entry = "\<lambda>obj. \<lparr>hk_object = obj, hk_freq = GetFreq obj\<rparr>"
  let ?hot = "filter (\<lambda>obj. 0 \<le> GetFreq obj) objs"
  let ?all = "ranking_of GetFreq ?hot"
  let ?top = "take (nat topN) ?all" and ?rest = "drop (nat topN) ?all"
  have "ranking_of hk_freq (map ?entry ?hot) = map ?entry ?all"
    by (simp add: ranking_of_map)
  then have "add_all (hotKeyList_add topN) [] (map ?entry ?hot) = Ok (map ?entry ?top)"
    using assms(2) by (subst hot_list.add_all_top) (simp_all add: take_map)
  then have "feed (hotkey_step topN) [] objs r = (r, map ?entry ?top)" for r
    by (intro feed_filter) (auto simp: hotkey_step_def)
  then have "FindHotKeys env rdbFilename topN options acc =
      (Ok (), acc @ hotkey_header # map (\<lambda>obj. hotkey_row (?entry obj)) ?top)"
    using w assms(2) by (simp add: FindHotKeys_def report_defs comp_def)
  moreover have "mset (?top @ ?rest) = mset ?hot" by (simp only: append_take_drop_id ranking_of_props)
  moreover have "sorted (map (\<lambda>x. - GetFreq x) ?top)"
    using ranking_of_props(1) [of GetFreq ?hot] by (simp add: take_map [symmetric] sorted_wrt_take)
  moreover have "list_all (\<lambda>x. list_all (\<lambda>y. GetFreq y \<le> GetFreq x) ?rest) ?top"
    unfolding list_all_iff using ranking_of_kept [of _ "nat topN" GetFreq ?hot] by blast
  moreover have "int (length ?top) = min topN (int (length ?hot))"
    using assms(2) by (auto simp: ranking_of_props)
  ultimately show ?thesis by blast
qed

lemma feed_collect: "feed (\<lambda>rows obj. Ok (rows @ [f obj])) rows objs r = (r, rows @ map f objs)"
  by (induction objs arbitrary: rows) auto

text \<open>
  C18. The memory report of any file, damaged or not: behind the header it has one row for every object that was delivered before
  the parser stopped and that passes the filters, in their order, and it returns what the parser returned.
\<close>

theorem memory_report:
  assumes "open_wrapped env rdbFilename options = Ok w" and "delivered_to env w = (r, objs)"
    and "csvFilename \<noteq> []" and "env_create env csvFilename"
  shows "MemoryProfile env rdbFilename csvFilename options acc =
    (r, acc @ memory_header # map (memory_row env) objs)"
proof -
  have "rdbFilename \<noteq> []" using assms(1) by (auto simp: open_wrapped_def)
  then show ?thesis
    using assms by (cases r) (simp_all add: MemoryProfile_def report_defs feed_collect)
qed

text \<open>Files written by the encoder, on which the reports are tried; the sample holds three objects in two databases.\<close>

definition file_of_dbs :: "db_spec list \<Rightarrow> bytes" where
  "file_of_dbs dbs = out (snd (write_file (\<lambda>_. []) [] dbs (NewEncoderValkey (\<lambda>_ _. None))))"

definition env_of_dbs :: "db_spec list \<Rightarrow> unit env" where
  "env_of_dbs dbs = \<lparr>env_handlers = (\<lambda>_. None), env_parseFloat = (\<lambda>_. None), env_outOfRange = (\<lambda>_ _. 0),
     env_regexp = (\<lambda>_. None), env_explode = (\<lambda>s _. map (\<lambda>c. [c]) s), env_now = 0,
     env_open = (\<lambda>_. Some (file_of_dbs dbs)), env_create = (\<lambda>_. True), env_formatTime = (\<lambda>_. [])\<rparr>"

definition sample_env :: "unit env" where
  "sample_env = env_of_dbs sample_dbs"

lemmas sample_env_simps = sample_env_def env_of_dbs_def

lemma objects_of_dbs:
  assumes ok: "file_ok (cfg (NewEncoderValkey (\<lambda>_ _. None))) (\<lambda>_. None) (\<lambda>_. []) [] dbs"
  obtains objs where "file_objects (env_of_dbs dbs) [102] [] = Some objs" "list_all2 meets (expect_file False [] dbs) objs"
proof -
  let ?e = "NewEncoderValkey (\<lambda>_ _. None)"
  have e: "reliable ?e" "state ?e = startState" "existDB ?e = []" "out ?e = []"
    and h: "reading_handlers (\<lambda>_. None :: (int \<Rightarrow> unit option dec) option)"
    by (simp_all add: NewEncoderValkey_def NewEncoder_def reliable_def reading_handlers_def)
  obtain e' where w: "write_file (\<lambda>_. []) [] dbs ?e = (Ok (), e')"
    "\<forall>d. withSpecialOpCode d = False \<longrightarrow> input d = out e' \<longrightarrow>
      (\<exists>s. Parse (\<lambda>_. None :: (int \<Rightarrow> unit option dec) option) (\<lambda>_. None) (\<lambda>_ _. True) d = (Ok (), s) \<and>
      list_all2 meets (expect_file False [] dbs) (delivered s) \<and> input (pdec s) = [] \<and>
      GetReadCount (pdec s) = GetReadCount d + length (out e'))"
    using whole_file [OF ok e h, where sp = False] by (elim exE conjE) (rule that)
  have f: "file_of_dbs dbs = out e'" by (simp add: file_of_dbs_def w(1))
  obtain s where s: "Parse (\<lambda>_. None :: (int \<Rightarrow> unit option dec) option) (\<lambda>_. None) (\<lambda>_ _. True)
      (NewDecoder (file_of_dbs dbs)) = (Ok (), s)" "list_all2 meets (expect_file False [] dbs) (delivered s)"
    using w(2) [rule_format, of "NewDecoder (file_of_dbs dbs)"] f by (auto simp: NewDecoder_def)
  have "open_wrapped (env_of_dbs dbs) [102] [] = Ok (Core (NewDecoder (file_of_dbs dbs)))"
    by (simp add: open_wrapped_def env_of_dbs_def wrapDecoder_def no_option_set_def rbind_def wrap_expiration_def
        wrap_size_def)
  then have "file_objects (env_of_dbs dbs) [102] [] = Some (delivered s)"
    by (simp add: file_objects_def parse_with_Parse s(1)) (simp add: env_of_dbs_def s(1))
  then show thesis using s(2) by (rule that)
qed

lemma sample_objects:
  obtains objs where "file_objects sample_env [102] [] = Some objs"
    "list_all2 meets (expect_file False [] sample_dbs) objs"
proof -
  have "file_ok (cfg (NewEncoderValkey (\<lambda>_ _. None))) (\<lambda>_. None) (\<lambda>_. []) [] sample_dbs"
    by (simp add: file_ok_def sample_dbs_def entry_ok_def value_ok_def cfg_def NewEncoderValkey_def NewEncoder_def
        short_string_def ttl_ok_def list_ok_def set_ok_def zl_ok_def)
  then show thesis using that unfolding sample_env_def by (rule objects_of_dbs)
qed

theorem biggest_keys_report_witness:
  "\<exists>objs :: unit redis_object list. length objs = 3 \<and> (\<exists>best rest.
    FindBiggestKeys sample_env [102] 2 [] [] = (Ok (), [] @ bigkey_header # map bigkey_row best) \<and>
    mset (best @ rest) = mset objs \<and> sorted (map (\<lambda>x. - GetSize x) best) \<and>
    list_all (\<lambda>x. list_all (\<lambda>y. GetSize y \<le> GetSize x) rest) best \<and> int (length best) = min 2 (int (length objs)))"
proof -
  obtain objs where f: "file_objects sample_env [102] [] = Some objs"
    "list_all2 meets (expect_file False [] sample_dbs) objs" by (rule sample_objects)
  from this(2) have "length objs = 3"
    by (auto dest: list_all2_lengthD simp: expect_file_def sample_dbs_def expect_db_def)
  with biggest_keys_report [OF f(1) zero_less_numeral] show ?thesis by blast
qed

theorem hottest_keys_report_witness:
  "\<exists>objs :: unit redis_object list. length objs = 3 \<and> (\<exists>best rest. FindHotKeys sample_env [102] 2 [] [] =
      (Ok (), [] @ hotkey_header # map (\<lambda>obj. hotkey_row \<lparr>hk_object = obj, hk_freq = GetFreq obj\<rparr>) best) \<and>
    mset (best @ rest) = mset (filter (\<lambda>obj. 0 \<le> GetFreq obj) objs) \<and> sorted (map (\<lambda>x. - GetFreq x) best) \<and>
    list_all (\<lambda>x. list_all (\<lambda>y. GetFreq y \<le> GetFreq x) rest) best \<and>
    int (length best) = min 2 (int (length (filter (\<lambda>obj. 0 \<le> GetFreq obj) objs))))"
proof -
  obtain objs where f: "file_objects sample_env [102] [] = Some objs"
    "list_all2 meets (expect_file False [] sample_dbs) objs" by (rule sample_objects)
  from this(2) have "length objs = 3"
    by (auto dest: list_all2_lengthD simp: expect_file_def sample_dbs_def expect_db_def)
  with hottest_keys_report [OF f(1) zero_less_numeral] show ?thesis by blast
qed

text \<open>The file of three objects, and a file that is cut off within its header.\<close>

theorem memory_report_witness:
  "(\<exists>objs :: unit redis_object list. length objs = 3 \<and>
      MemoryProfile sample_env [102] [99] [] [] = (Ok (), [] @ memory_header # map (memory_row sample_env) objs)) \<and>
   (\<exists>e. MemoryProfile (sample_env\<lparr>env_open := \<lambda>_. Some [82, 69]\<rparr>) [102] [99] [] [] =
      (Err e, [] @ memory_header # map (memory_row (sample_env\<lparr>env_open := \<lambda>_. Some [82, 69]\<rparr>)) []))"
proof (rule conjI)
  obtain objs where f: "file_objects sample_env [102] [] = Some objs"
    "list_all2 meets (expect_file False [] sample_dbs) objs" by (rule sample_objects)
  from this(2) have "length objs = 3"
    by (auto dest: list_all2_lengthD simp: expect_file_def sample_dbs_def expect_db_def)
  moreover obtain w where w: "open_wrapped sample_env [102] [] = Ok w" "delivered_to sample_env w = (Ok (), objs)"
    by (rule file_objectsE [OF f(1)])
  moreover have "env_create sample_env [99]" by (simp add: sample_env_simps)
  ultimately show "\<exists>objs :: unit redis_object list. length objs = 3 \<and>
      MemoryProfile sample_env [102] [99] [] [] = (Ok (), [] @ memory_header # map (memory_row sample_env) objs)"
    using memory_report [OF w] by blast
next
  let ?env = "sample_env\<lparr>env_open := \<lambda>_. Some [82, 69]\<rparr>"
  have w: "open_wrapped ?env [102] [] = Ok (Core (NewDecoder [82, 69]))"
    by (simp add: open_wrapped_def sample_env_simps wrapDecoder_def no_option_set_def rbind_def wrap_expiration_def
        wrap_size_def)
  obtain e where e: "delivered_to ?env (Core (NewDecoder [82, 69])) = (Err e, [])"
    by (simp add: parse_with_Parse Parse_def recovered_def monad_defs with_dec_def checkHeader_def readFull_def
        NewDecoder_def parse_start_def)
  from memory_report [OF w e, of "[99]" "[]"]
  show "\<exists>e. MemoryProfile ?env [102] [99] [] [] = (Err e, [] @ memory_header # map (memory_row ?env) [])"
    by (intro exI [of _ e]) (simp add: sample_env_simps)
qed

end
