(* ===== verification/PrefixReport.thy ===== *)
theory PrefixReport
  imports Reports
begin

text \<open>
  The prefix report of \<open>helper/prefix.go\<close>: the keys, each behind its database, go into a radix tree, and the nodes
  from depth three on go into a table, largest first. The lemmas carry the counts of the tree over to databases
  and prefixes of keys, and show that the panic of \<open>parseNodeKey\<close> needs a database with three digits.
\<close>

section \<open>Keys with their database\<close>

definition genKey :: "int \<Rightarrow> bytes \<Rightarrow> bytes" where
  "genKey d key = itoa d @ ascii '' '' @ key"

text \<open>The value of \<open>strconv.Atoi\<close> when its error is ignored: a number out of range is cut to the range.\<close>

definition atoi_value :: "bytes \<Rightarrow> int" where
  "atoi_value s = (case s of
     [] \<Rightarrow> 0
   | c # cs \<Rightarrow>
       (case parse_digits (if c = 43 \<or> c = 45 then cs else s) of
          None \<Rightarrow> 0
        | Some un \<Rightarrow> if c = 45 then max (- (2 ^ 63)) (- int un) else min (2 ^ 63 - 1) (int un)))"

definition parseNodeKey :: "bytes \<Rightarrow> (int \<times> bytes) result" where
  "parseNodeKey key =
     (if key = [] then Ok (-1, [])
      else (case index_of (ascii '' '') key of
          None \<Rightarrow> Panic SliceRange
        | Some index \<Rightarrow>
            Ok (atoi_value (take index key), if index + 1 < length key then drop (index + 1) key else [])))"

section \<open>The report\<close>

definition prefix_cb :: "int \<Rightarrow> int \<Rightarrow> radix list result \<Rightarrow> radix \<Rightarrow> nat \<Rightarrow> bool \<times> radix list result" where
  "prefix_cb topN maxDepth toplist node depth =
     (if maxDepth < int depth then (False, toplist)
      else if depth \<le> 2 then (True, toplist)
      else (case rbind toplist (\<lambda>l. topList_add totalSize topN l node) of
          Ok l \<Rightarrow> (True, Ok l)
        | Err e \<Rightarrow> (False, Err e)
        | Panic p \<Rightarrow> (False, Panic p)))"

type_synonym prefix_entry = "int \<times> bytes \<times> int \<times> nat"

definition prefix_line :: "prefix_entry \<Rightarrow> csv_line" where
  "prefix_line = (\<lambda>(d, key, sz, n). Record [itoa d, key, itoa sz, size_text sz, itoa (int n)])"

definition printNode :: "radix \<Rightarrow> (report, unit) comp" where
  "printNode node =
     bind (lift_result (parseNodeKey (fullpath node))) (\<lambda>(d, key).
     put (prefix_line (d, key, totalSize node, keyCount node)))"

fun print_nodes :: "radix list \<Rightarrow> (report, unit) comp" where
  "print_nodes [] = ret ()"
| "print_nodes (n # ns) = seq (printNode n) (print_nodes ns)"

definition prefix_header :: csv_line where
  "prefix_header = Line (ascii ''database,prefix,size,size_readable,key_count'')"

definition prefix_step :: "radix \<Rightarrow> 'v redis_object \<Rightarrow> radix result" where
  "prefix_step tree obj = insert (genKey (GetDBIndex obj) (GetKey obj)) (GetSize obj) tree"

definition depth_limit :: "int \<Rightarrow> int" where
  "depth_limit maxDepth = (if maxDepth = 0 then MaxInt else sint (of_int (maxDepth + 2) :: u64))"

definition PrefixAnalyse ::
  "'v env \<Rightarrow> bytes \<Rightarrow> int \<Rightarrow> int \<Rightarrow> helper_option list \<Rightarrow> (report, unit) comp" where
  "PrefixAnalyse env rdbFilename topN maxDepth options =
     (if rdbFilename = [] then throw (ErrMsg ''src file path is required'')
      else if topN < 0 then throw (ErrMsg ''n must greater than 0'')
      else
        let topN' = (if topN = 0 then MaxInt else topN) in
        bind (lift_result (open_wrapped env rdbFilename options)) (\<lambda>dec.
        case parse_with env dec prefix_step newRadixTree of (r, tree) \<Rightarrow>
        seq (lift_result r) (
        bind (lift_result (traverse (prefix_cb topN' (depth_limit maxDepth)) tree (Ok []))) (\<lambda>toplist.
        seq (put prefix_header) (print_nodes toplist)))))"

section \<open>What is in the table\<close>

abbreviation shown :: "int \<Rightarrow> radix \<times> nat \<Rightarrow> bool" where
  "shown d \<equiv> (\<lambda>(n, k). 3 \<le> k \<and> int k \<le> d)"

definition shown_nodes :: "int \<Rightarrow> radix \<Rightarrow> radix list" where
  "shown_nodes d tree = map fst (filter (shown d) (levels (node_count tree) 1 [tree]))"

lemma levels_depth: "(m, i) \<in> set (levels k j ns) \<Longrightarrow> j \<le> i"
  by (induction k arbitrary: j ns) fastforce+

lemma visit_level:
  assumes "0 \<le> cap" and "ranked totalSize l" and "int (length l) \<le> cap" and "int j \<le> d"
  shows "visit (prefix_cb cap d) (map (\<lambda>n. (n, j)) ns @ q) (Ok l) =
    visit (prefix_cb cap d) q (add_all (topList_add totalSize cap) l (if 3 \<le> j then ns else []))"
  using assms(2,3)
proof (induction ns arbitrary: l)
  case (Cons n ns)
  show ?case
  proof (cases "3 \<le> j")
    case True
    obtain l1 where 1: "topList_add totalSize cap l n = Ok l1" "ranked totalSize l1" "int (length l1) \<le> cap"
      by (rule top_list.add_ranked [OF assms(1) Cons.prems])
    have "prefix_cb cap d (Ok l) n j = (True, Ok l1)" using True assms(4) 1(1) by (simp add: prefix_cb_def rbind_def)
    then show ?thesis using Cons.IH [OF 1(2,3)] True 1(1) by simp
  next
    case False
    then have "prefix_cb cap d (Ok l) n j = (True, Ok l)" using assms(4) by (simp add: prefix_cb_def)
    then show ?thesis using Cons.IH [OF Cons.prems] False by simp
  qed
qed simp

lemma visit_prefix_cb:
  assumes "0 \<le> cap" and "ranked totalSize l" and "int (length l) \<le> cap"
  shows "snd (visit (prefix_cb cap d) (levels k j ns) (Ok l)) =
    add_all (topList_add totalSize cap) l (map fst (filter (shown d) (levels k j ns)))"
  using assms(2,3)
proof (induction k arbitrary: j ns l)
  case (Suc k)
  let ?next = "levels k (j + 1) (concat (map children ns))"
  show ?case
  proof (cases "int j \<le> d")
    case True
    obtain l1 where 1: "add_all (topList_add totalSize cap) l (if 3 \<le> j then ns else []) = Ok l1"
      "ranked totalSize l1" "int (length l1) \<le> cap"
      by (rule top_list.add_all_ranked [OF assms(1) Suc.prems])
    have "map fst (filter (shown d) (levels (Suc k) j ns)) =
        (if 3 \<le> j then ns else []) @ map fst (filter (shown d) ?next)"
      using True by (simp add: filter_map o_def filter_True)
    then have "add_all (topList_add totalSize cap) l (map fst (filter (shown d) (levels (Suc k) j ns))) =
        add_all (topList_add totalSize cap) l1 (map fst (filter (shown d) ?next))"
      by (simp add: top_list.add_all_append 1(1) rbind_def)
    then show ?thesis
      using Suc.IH [OF 1(2,3), of "j + 1"] visit_level [OF assms(1) Suc.prems True, of ns ?next] 1(1) by simp
  next
    case False
    have "filter (shown d) (levels (Suc k) j ns) = []"
      using False levels_depth [of _ _ "Suc k" j ns] by (fastforce simp: filter_empty_conv simp del: levels.simps)
    moreover have "snd (visit (prefix_cb cap d) (levels (Suc k) j ns) (Ok l)) = Ok l"
    proof (cases "levels (Suc k) j ns")
      case (Cons x xs)
      then have "int j \<le> int (snd x)" using levels_depth [of "fst x" "snd x" "Suc k" j ns] by simp
      with Cons False show ?thesis by (cases x) (simp add: prefix_cb_def)
    qed simp
    ultimately show ?thesis by simp
  qed
qed simp

lemma traverse_prefix_cb:
  assumes "0 \<le> cap"
  shows "traverse (prefix_cb cap d) tree (Ok []) = Ok (take (nat cap) (ranking_of totalSize (shown_nodes d tree)))"
  unfolding traverse_eq shown_nodes_def using assms
  by (simp add: visit_prefix_cb top_list.add_all_top)

section \<open>Databases and prefixes of keys\<close>

lemma itoa_no_space: "(32 :: byte) \<notin> set (itoa d)"
  using nat_digits_digits [of 32] by (auto simp: itoa_def is_digit_byte_unat)

lemma genKey_eq: "genKey d key = itoa d @ 32 # key"
  by (simp add: genKey_def ascii_def)

lemma index_of_space: "(32 :: byte) \<notin> set xs \<Longrightarrow> index_of (ascii '' '') (xs @ 32 # ys) = Some (length xs)"
  by (induction xs) (auto simp: ascii_def)

text \<open>Up to the first space two texts agree when one is a prefix of the other.\<close>

lemma prefix_space:
  fixes a b p k :: bytes
  assumes "32 \<notin> set a" and "32 \<notin> set b"
  shows "prefix (a @ 32 # p) (b @ 32 # k) \<longleftrightarrow> a = b \<and> prefix p k"
  using assms
proof (induction a arbitrary: b)
  case Nil
  then show ?case by (cases b) auto
next
  case (Cons x a)
  then show ?case by (cases b) auto
qed

lemma genKey_prefix: "prefix (genKey d p) (genKey d' k) \<longleftrightarrow> d = d' \<and> prefix p k"
  by (simp add: genKey_eq prefix_space itoa_no_space itoa_inj)

lemma atoi_itoa:
  assumes "0 \<le> d" and "d < 2 ^ 63"
  shows "atoi_value (itoa d) = d"
proof -
  obtain c cs where s: "nat_digits (nat d) = c # cs" by (cases "nat_digits (nat d)") auto
  then have "is_digit_byte c" using nat_digits_digits [of c "nat d"] by simp
  then have "c \<noteq> 43" "c \<noteq> 45" by (auto simp: is_digit_byte_unat)
  moreover have "parse_digits (c # cs) = Some (nat d)" using parse_digits_nat_digits [of "nat d"] by (simp add: s)
  ultimately show ?thesis using assms s by (simp add: atoi_value_def itoa_def)
qed

lemma parseNodeKey_genKey:
  assumes "0 \<le> d" and "d < 2 ^ 63"
  shows "parseNodeKey (genKey d key) = Ok (d, key)"
  using assms by (auto simp: parseNodeKey_def genKey_eq index_of_space itoa_no_space atoi_itoa)

text \<open>A prefix with a space is a database and a prefix of a key; one without a space is a prefix of the number.\<close>

lemma prefix_genKey_cases:
  assumes "prefix fp (genKey d key)"
  obtains p where "fp = genKey d p" "prefix p key" | "(32 :: byte) \<notin> set fp" "prefix fp (itoa d)"
proof (cases "prefix fp (itoa d)")
  case True
  then have "(32 :: byte) \<notin> set fp" using itoa_no_space set_mono_prefix by blast
  with True that(2) show thesis by blast
next
  case False
  from assms obtain zs where "itoa d @ 32 # key = fp @ zs" unfolding genKey_eq prefix_def by blast
  with False obtain us where "fp = itoa d @ us" "us @ zs = 32 # key"
    by (auto simp: append_eq_append_conv2 prefix_def)
  with False obtain p where "fp = genKey d p" "prefix p key" by (cases us) (auto simp: genKey_eq)
  then show thesis by (rule that(1))
qed

text \<open>Where two keys part behind a text without a space, a number goes on.\<close>

lemma fork_in_number:
  assumes "(32 :: byte) \<notin> set fp" and "prefix (fp @ [h1]) (genKey d1 k1)" and "prefix (fp @ [h2]) (genKey d2 k2)"
    and "h1 \<noteq> h2"
  shows "length fp < length (itoa d1) \<or> length fp < length (itoa d2)"
proof -
  have "length fp < length (itoa d)" if h: "h \<noteq> 32" and p: "prefix (fp @ [h]) (genKey d k)" for h d k
    using p
  proof (cases rule: prefix_genKey_cases)
    case (1 p)
    have "(32 :: byte) \<in> set (fp @ [h])" unfolding 1(1) genKey_eq by simp
    then show ?thesis using assms(1) h by simp
  next
    case 2
    then show ?thesis using prefix_length_le by fastforce
  qed
  with assms show ?thesis by (metis (full_types))
qed

lemma length_itoa_2: "0 \<le> d \<Longrightarrow> d < 100 \<Longrightarrow> length (itoa d) \<le> 2"
  by (auto simp: itoa_def nat_digits.simps [of "nat d"] nat_digits.simps [of "nat d div 10"])

section \<open>The table tells the truth\<close>

definition report_entries :: "'v redis_object list \<Rightarrow> (bytes \<times> int) list" where
  "report_entries objs = map (\<lambda>obj. (genKey (GetDBIndex obj) (GetKey obj), GetSize obj)) objs"

lemma feed_prefix_step: "insert_all (report_entries objs) tree = Ok t \<Longrightarrow> feed prefix_step tree objs r = (r, t)"
  by (induction objs arbitrary: tree)
    (auto simp: report_entries_def prefix_step_def elim!: rbind_OkE)

definition in_group :: "int \<Rightarrow> bytes \<Rightarrow> 'v redis_object \<Rightarrow> bool" where
  "in_group d p obj \<longleftrightarrow> GetDBIndex obj = d \<and> prefix p (GetKey obj)"

lemma report_entries_sums:
  "prefix_size (report_entries objs) (genKey d p) = sum_list (map GetSize (filter (in_group d p) objs))"
  "prefix_count (report_entries objs) (genKey d p) = length (filter (in_group d p) objs)"
  by (induction objs) (auto simp: report_entries_def prefix_size_def prefix_count_def genKey_prefix in_group_def)

definition node_entry :: "radix \<Rightarrow> prefix_entry" where
  "node_entry n = (case parseNodeKey (fullpath n) of
     Ok (d, key) \<Rightarrow> (d, key, totalSize n, keyCount n)
   | _ \<Rightarrow> (0, [], 0, 0))"

lemma print_nodes_ok:
  assumes "\<forall>n \<in> set ns. \<exists>d key. parseNodeKey (fullpath n) = Ok (d, key)"
  shows "print_nodes ns acc = (Ok (), acc @ map (\<lambda>n. prefix_line (node_entry n)) ns)"
  using assms
proof (induction ns arbitrary: acc)
  case (Cons n ns)
  then obtain d key where "parseNodeKey (fullpath n) = Ok (d, key)" by auto
  with Cons show ?case by (simp add: printNode_def report_defs node_entry_def prefix_line_def)
qed (simp add: ret_def)

lemma node_entry_true:
  assumes "fullpath n = genKey d p" and "0 \<le> d" and "d < 100" and "node_true (report_entries objs) n"
  shows "node_entry n = (d, p, totalSize n, keyCount n)" and "parseNodeKey (fullpath n) = Ok (d, p)"
    and "totalSize n = sum_list (map GetSize (filter (in_group d p) objs))"
    and "keyCount n = length (filter (in_group d p) objs)"
  using assms by (simp_all add: node_entry_def parseNodeKey_genKey node_true_def report_entries_sums)

text \<open>A node of the table has a space in its path when no database has three digits.\<close>

lemma shown_node_key:
  assumes tree: "insert_all (report_entries objs) newRadixTree = Ok tree"
    and dbs: "\<forall>obj \<in> set objs. 0 \<le> GetDBIndex obj \<and> GetDBIndex obj < 100"
    and m: "m \<in> set (shown_nodes lim tree)"
  obtains d p where "fullpath m = genKey d p" "0 \<le> d" "d < 100" "node_true (report_entries objs) m"
proof -
  let ?es = "report_entries objs"
  obtain t where t: "insert_all ?es newRadixTree = Ok t" "radix_ok (rev ?es) [] t" by (rule tree_of_words)
  with tree have ok: "radix_ok (rev ?es) [] tree" by simp
  obtain k where k: "(m, k) \<in> set (levels (node_count tree) 1 [tree])" "3 \<le> k"
    using m unfolding shown_nodes_def by auto
  have lv: "deep (rev ?es) k m" "m \<in> set (all_nodes tree)"
    using levels_nodes [of "[tree]" "rev ?es" 1 m k, OF _ k(1)] root_deep [OF ok] by auto
  have word: "\<exists>obj \<in> set objs. w = genKey (GetDBIndex obj) (GetKey obj)" if "w \<in> words (rev ?es)" for w
    using that by (auto simp: prefix_size_rev words_def report_entries_def)
  have nt: "node_true ?es m" using tree_true [OF tree] lv(2) by (simp add: list_all_iff)
  have len: "2 \<le> length (fullpath m)" using lv(1) k(2) by (simp add: deep_def)
  have "\<exists>d p. fullpath m = genKey d p \<and> 0 \<le> d \<and> d < 100"
  proof (cases "ends m")
    case True
    then have "fullpath m \<in> words (rev ?es)" using nt by (simp add: node_true_def prefix_size_rev)
    with word dbs show ?thesis by blast
  next
    case False
    obtain w1 h1 w2 h2 where f: "w1 \<in> words (rev ?es)" "prefix (fullpath m @ [h1]) w1"
      "w2 \<in> words (rev ?es)" "prefix (fullpath m @ [h2]) w2" "h1 \<noteq> h2"
      by (rule deep_fork [OF lv(1) _ False]) (use k(2) in simp)
    obtain o1 o2 where o1: "o1 \<in> set objs" "w1 = genKey (GetDBIndex o1) (GetKey o1)"
      and o2: "o2 \<in> set objs" "w2 = genKey (GetDBIndex o2) (GetKey o2)"
      using word f(1,3) by blast
    have l: "length (itoa (GetDBIndex o1)) \<le> 2" "length (itoa (GetDBIndex o2)) \<le> 2"
      using length_itoa_2 dbs o1(1) o2(1) by blast+
    have "(32 :: byte) \<in> set (fullpath m)"
      using fork_in_number [of "fullpath m" h1 _ _ h2] f(2,4,5) o1(2) o2(2) l len by fastforce
    moreover have "prefix (fullpath m) (genKey (GetDBIndex o1) (GetKey o1))"
      using append_prefixD [OF f(2)] o1(2) by simp
    ultimately obtain p where "fullpath m = genKey (GetDBIndex o1) p" by (metis prefix_genKey_cases)
    then show ?thesis using dbs o1(1) by blast
  qed
  with nt that show thesis by blast
qed

text \<open>
  C10. The prefix report: for a file that is parsed to its end, with databases of at most two digits, the report
  succeeds; each row names a database and a prefix, and its size and count are the total size and the number
  of the objects of that database whose key begins with the prefix; the rows are sorted by size, largest
  first, and there are at most \<open>topN\<close> of them unless \<open>topN\<close> is zero.
\<close>

theorem prefix_report:
  assumes "file_objects env rdbFilename options = Some objs" and "0 \<le> topN"
    and "list_all (\<lambda>obj. 0 \<le> GetDBIndex obj \<and> GetDBIndex obj < 100) objs"
  shows "\<exists>rows. PrefixAnalyse env rdbFilename topN maxDepth options acc =
      (Ok (), acc @ prefix_header # map prefix_line rows) \<and>
    list_all (\<lambda>(d, p, sz, n).
      sz = sum_list (map GetSize (filter (\<lambda>obj. GetDBIndex obj = d \<and> prefix p (GetKey obj)) objs)) \<and>
      n = length (filter (\<lambda>obj. GetDBIndex obj = d \<and> prefix p (GetKey obj)) objs)) rows \<and>
    sorted (map (\<lambda>(d, p, sz, n). - sz) rows) \<and> int (length rows) \<le> (if topN = 0 then MaxInt else topN)"
proof -
  obtain w where w: "open_wrapped env rdbFilename options = Ok w" "delivered_to env w = (Ok (), objs)"
    "rdbFilename \<noteq> []" by (rule file_objectsE [OF assms(1)])
  obtain tree where tree: "insert_all (report_entries objs) newRadixTree = Ok tree" by (rule tree_of_words)
  define cap where "cap = (if topN = 0 then MaxInt else topN)"
  have cap: "0 \<le> cap" using assms(2) by (simp add: cap_def MaxInt_def)
  define ns where "ns = take (nat cap) (ranking_of totalSize (shown_nodes (depth_limit maxDepth) tree))"
  have "set ns \<subseteq> set (shown_nodes (depth_limit maxDepth) tree)"
    unfolding ns_def using set_take_subset [of "nat cap"] ranking_of_props(2) mset_eq_setD by fast
  then have key: "\<exists>d p. fullpath n = genKey d p \<and> 0 \<le> d \<and> d < 100 \<and> node_true (report_entries objs) n"
    if "n \<in> set ns" for n
    using shown_node_key [OF tree, of n "depth_limit maxDepth"] assms(3) that unfolding list_all_iff by blast
  have parsed: "\<forall>n \<in> set ns. \<exists>d p. parseNodeKey (fullpath n) = Ok (d, p)"
    using key node_entry_true(2) by blast
  have entry: "case node_entry n of (d, p, sz, k) \<Rightarrow>
      sz = sum_list (map GetSize (filter (in_group d p) objs)) \<and> k = length (filter (in_group d p) objs)"
    "fst (snd (snd (node_entry n))) = totalSize n" if "n \<in> set ns" for n
  proof -
    obtain d p where d: "fullpath n = genKey d p" "0 \<le> d" "d < 100" "node_true (report_entries objs) n"
      using key [OF \<open>n \<in> set ns\<close>] by blast
    show "case node_entry n of (d, p, sz, k) \<Rightarrow>
        sz = sum_list (map GetSize (filter (in_group d p) objs)) \<and> k = length (filter (in_group d p) objs)"
      "fst (snd (snd (node_entry n))) = totalSize n"
      using node_entry_true(3,4) [OF d] by (simp_all add: node_entry_true(1) [OF d])
  qed
  let ?rows = "map node_entry ns"
  have "PrefixAnalyse env rdbFilename topN maxDepth options acc = (Ok (), acc @ prefix_header # map prefix_line ?rows)"
    using w assms(2) feed_prefix_step [OF tree] traverse_prefix_cb [OF cap, of "depth_limit maxDepth" tree]
    by (simp add: PrefixAnalyse_def report_defs Let_def cap_def [symmetric] ns_def [symmetric]
        print_nodes_ok [OF parsed] o_def)
  moreover have "list_all (\<lambda>(d, p, sz, n).
      sz = sum_list (map GetSize (filter (in_group d p) objs)) \<and> n = length (filter (in_group d p) objs)) ?rows"
    using entry(1) by (simp add: list.pred_map list_all_iff split_def)
  moreover have "map (\<lambda>(d, p, sz, n). - sz) ?rows = map (\<lambda>n. - totalSize n) ns"
    using entry(2) by (simp add: split_def)
  then have "sorted (map (\<lambda>(d, p, sz, n). - sz) ?rows)"
    using ranking_of_props(1) [of totalSize] by (simp add: ns_def take_map [symmetric] sorted_wrt_take)
  moreover have "int (length ?rows) \<le> cap" using cap by (simp add: ns_def)
  ultimately show ?thesis unfolding in_group_def cap_def by blast
qed

lemma sample_dbs_small:
  assumes "list_all2 meets (expect_file False [] sample_dbs) objs"
  shows "list_all (\<lambda>obj. 0 \<le> GetDBIndex obj \<and> GetDBIndex obj < 100) objs"
  using assms
  by (auto simp: expect_file_def sample_dbs_def expect_db_def list_all2_Cons1)

theorem prefix_report_witness:
  "\<exists>objs :: unit redis_object list. length objs = 3 \<and> (\<exists>rows.
    PrefixAnalyse sample_env [102] 2 0 [] [] = (Ok (), [] @ prefix_header # map prefix_line rows) \<and>
    list_all (\<lambda>(d, p, sz, n).
      sz = sum_list (map GetSize (filter (\<lambda>obj. GetDBIndex obj = d \<and> prefix p (GetKey obj)) objs)) \<and>
      n = length (filter (\<lambda>obj. GetDBIndex obj = d \<and> prefix p (GetKey obj)) objs)) rows \<and>
    sorted (map (\<lambda>(d, p, sz, n). - sz) rows) \<and> int (length rows) \<le> (if 2 = (0 :: int) then MaxInt else 2))"
proof -
  obtain objs where f: "file_objects sample_env [102] [] = Some objs"
    "list_all2 meets (expect_file False [] sample_dbs) objs" by (rule sample_objects)
  from this(2) have "length objs = 3"
    by (auto dest: list_all2_lengthD simp: expect_file_def sample_dbs_def expect_db_def)
  with prefix_report [OF f(1) _ sample_dbs_small [OF f(2)], of 2 0 "[]"] show ?thesis by fastforce
qed

text \<open>
  With databases of three digits the report can panic: databases 1, 10 and 100 make a node \<open>10\<close> at depth three,
  whose path has no space.
\<close>

lemma three_digit_databases_panic:
  "fst (bind (lift_result (rbind
      (insert_all [(genKey 1 [97], 1), (genKey 10 [97], 1), (genKey 100 [97], 1)] newRadixTree)
      (\<lambda>tree. traverse (prefix_cb MaxInt MaxInt) tree (Ok [])))) print_nodes []) = Panic SliceRange"
  by code_simp

end
