(* ===== verification/SepReport.thy ===== *)
theory SepReport
  imports PrefixReport
begin

text \<open>
  The report by separators of \<open>helper/prefix_stream.go\<close>: a flat map from a database and a prefix to a size and a
  count. The order in which the map is iterated over and the result of \<open>sort.Slice\<close>, which is not stable, are
  arguments: a permutation, and a sorted permutation.
\<close>

section \<open>The report\<close>

record prefixStats =
  stat_size :: int
  stat_count :: nat

definition normalize_key :: "(bytes \<Rightarrow> int \<Rightarrow> bytes list) \<Rightarrow> bytes list \<Rightarrow> bytes \<Rightarrow> bytes" where
  "normalize_key explode separators key =
     foldl (\<lambda>k sep. ReplaceAll explode k sep (hd separators)) key (tl separators)"

text \<open>The prefixes under which a key is counted; \<open>maxDepth + 1\<close> is computed in \<open>int\<close>.\<close>

definition key_prefixes :: "(bytes \<Rightarrow> int \<Rightarrow> bytes list) \<Rightarrow> bytes list \<Rightarrow> int \<Rightarrow> bytes \<Rightarrow> bytes list" where
  "key_prefixes explode separators maxDepth key =
     (let primarySep = hd separators;
          parts = SplitN explode (normalize_key explode separators key) primarySep
            (sint (of_int (maxDepth + 1) :: u64));
          limit = min (int (length parts) - 1) maxDepth in
      map (\<lambda>depth. Join (take depth parts) primarySep @ primarySep @ ascii ''*'') [1..<Suc (nat limit)])"

definition sep_key :: "int \<Rightarrow> bytes \<Rightarrow> bytes" where
  "sep_key d pre = itoa d @ [0] @ pre"

definition count_prefix :: "int \<Rightarrow> prefixStats gomap \<Rightarrow> bytes \<Rightarrow> prefixStats gomap" where
  "count_prefix sz stats mapKey =
     (let s = (case map_of stats mapKey of
           None \<Rightarrow> \<lparr>stat_size = 0, stat_count = 0\<rparr>
         | Some s \<Rightarrow> s) in
      AList.update mapKey (s\<lparr>stat_size := stat_size s + sz, stat_count := stat_count s + 1\<rparr>) stats)"

definition sep_step ::
  "(bytes \<Rightarrow> int \<Rightarrow> bytes list) \<Rightarrow> bytes list \<Rightarrow> int \<Rightarrow> prefixStats gomap \<Rightarrow> 'v redis_object \<Rightarrow> prefixStats gomap result" where
  "sep_step explode separators maxDepth stats obj =
     Ok (foldl (count_prefix (GetSize obj)) stats
       (map (sep_key (GetDBIndex obj)) (key_prefixes explode separators maxDepth (GetKey obj))))"

type_synonym sep_entry = "bytes \<times> bytes \<times> int \<times> nat"

definition sep_entry :: "bytes \<times> prefixStats \<Rightarrow> sep_entry result" where
  "sep_entry = (\<lambda>(mapKey, s).
     (case index_of [0] mapKey of
        None \<Rightarrow> Panic SliceRange
      | Some idx \<Rightarrow> Ok (take idx mapKey, drop (idx + 1) mapKey, stat_size s, stat_count s)))"

fun sep_entries :: "(bytes \<times> prefixStats) list \<Rightarrow> sep_entry list result" where
  "sep_entries [] = Ok []"
| "sep_entries (e # es) = rbind (sep_entry e) (\<lambda>x. rbind (sep_entries es) (\<lambda>xs. Ok (x # xs)))"

definition sep_line :: "sep_entry \<Rightarrow> csv_line" where
  "sep_line = (\<lambda>(d, pre, sz, n). Record [d, pre, itoa sz, size_text sz, itoa (int n)])"

definition SepPrefixAnalyse ::
  "(prefixStats gomap \<Rightarrow> (bytes \<times> prefixStats) list) \<Rightarrow> (sep_entry list \<Rightarrow> sep_entry list) \<Rightarrow>
   'v env \<Rightarrow> bytes \<Rightarrow> int \<Rightarrow> int \<Rightarrow> bytes list \<Rightarrow> helper_option list \<Rightarrow> (report, unit) comp" where
  "SepPrefixAnalyse range_order slice_sort env rdbFilename topN maxDepth separators options =
     (if rdbFilename = [] then throw (ErrMsg ''src file path is required'')
      else if separators = [] then throw (ErrMsg ''at least one separator is required'')
      else
        let topN' = (if topN \<le> 0 then MaxInt else topN);
            maxDepth' = (if maxDepth \<le> 0 then MaxInt else maxDepth) in
        bind (lift_result (open_wrapped env rdbFilename options)) (\<lambda>dec.
        case parse_with env dec (sep_step (env_explode env) separators maxDepth') [] of (r, stats) \<Rightarrow>
        seq (lift_result r) (
        bind (lift_result (sep_entries (range_order stats))) (\<lambda>entries.
        seq (put prefix_header) (
        put_all (map sep_line (take (nat topN') (slice_sort entries))))))))"

section \<open>What the map holds\<close>

lemma sep_key_eq: "sep_key d p = itoa d @ 0 # p"
  by (simp add: sep_key_def)

lemma itoa_no_zero: "(0 :: byte) \<notin> set (itoa d)"
  using nat_digits_digits [of 0] by (auto simp: itoa_def is_digit_byte_unat)

lemma index_of_zero: "(0 :: byte) \<notin> set xs \<Longrightarrow> index_of [0] (xs @ 0 # ys) = Some (length xs)"
  by (induction xs) auto

lemma sep_key_inj: "sep_key d p = sep_key d' q \<longleftrightarrow> d = d' \<and> p = q"
  by (simp add: sep_key_eq split_at_sep itoa_no_zero itoa_inj)

lemma sep_entry_key: "sep_entry (sep_key d p, s) = Ok (itoa d, p, stat_size s, stat_count s)"
  by (simp add: sep_entry_def sep_key_eq index_of_zero itoa_no_zero)

text \<open>The numbers of a map after counting: those of the entries counted under each key.\<close>

definition tally :: "(bytes \<times> int) list \<Rightarrow> bytes \<Rightarrow> prefixStats option" where
  "tally xs k = (let ys = filter (\<lambda>x. fst x = k) xs in
     if ys = [] then None else Some \<lparr>stat_size = sum_list (map snd ys), stat_count = length ys\<rparr>)"

lemma count_prefix_tally:
  assumes "\<forall>k. map_of m k = tally xs k"
  shows "\<forall>k. map_of (count_prefix sz m k0) k = tally (xs @ [(k0, sz)]) k"
  using assms
  by (auto simp: count_prefix_def Let_def update_conv tally_def filter_empty_conv split: option.splits if_splits)

lemma count_all_tally:
  assumes "\<forall>k. map_of m k = tally xs k"
  shows "\<forall>k. map_of (foldl (count_prefix sz) m ks) k = tally (xs @ map (\<lambda>k. (k, sz)) ks) k"
  using assms
proof (induction ks arbitrary: m xs)
  case (Cons k0 ks)
  have "\<forall>k. map_of (count_prefix sz m k0) k = tally (xs @ [(k0, sz)]) k"
    by (rule count_prefix_tally [OF Cons.prems])
  from Cons.IH [OF this] show ?case by simp
qed simp

lemma distinct_count_all: "distinct (map fst m) \<Longrightarrow> distinct (map fst (foldl (count_prefix sz) m ks))"
  by (induction ks arbitrary: m) (simp_all add: count_prefix_def Let_def distinct_update)

definition counted :: "(bytes \<Rightarrow> int \<Rightarrow> bytes list) \<Rightarrow> bytes list \<Rightarrow> int \<Rightarrow> 'v redis_object list \<Rightarrow> (bytes \<times> int) list" where
  "counted explode separators maxDepth objs = concat (map (\<lambda>obj.
     map (\<lambda>p. (sep_key (GetDBIndex obj) p, GetSize obj)) (key_prefixes explode separators maxDepth (GetKey obj))) objs)"

lemma feed_sep_step:
  assumes "\<forall>k. map_of m k = tally xs k" and "distinct (map fst m)"
  shows "\<exists>m'. feed (sep_step explode separators maxDepth) m objs r = (r, m') \<and> distinct (map fst m') \<and>
    (\<forall>k. map_of m' k = tally (xs @ counted explode separators maxDepth objs) k)"
  using assms
proof (induction objs arbitrary: m xs)
  case Nil
  then show ?case by (simp add: counted_def)
next
  case (Cons obj objs)
  let ?ks = "map (sep_key (GetDBIndex obj)) (key_prefixes explode separators maxDepth (GetKey obj))"
  have "counted explode separators maxDepth (obj # objs) =
      map (\<lambda>k. (k, GetSize obj)) ?ks @ counted explode separators maxDepth objs"
    by (simp add: counted_def o_def)
  with Cons.IH [OF count_all_tally [OF Cons.prems(1)] distinct_count_all [OF Cons.prems(2)],
      of "GetSize obj" ?ks] show ?case
    by (simp add: sep_step_def)
qed

text \<open>A key is counted at most once under each prefix: the prefixes grow.\<close>

lemma length_Join_take:
  assumes "sep \<noteq> []" and "Suc d < length parts"
  shows "length (Join (take (Suc d) parts) sep) < length (Join (take (Suc (Suc d)) parts) sep)"
  using assms(2)
proof (induction d arbitrary: parts)
  case 0
  then obtain a b ps where "parts = a # b # ps" by (cases parts; cases "tl parts") auto
  with assms(1) show ?case by simp
next
  case (Suc d)
  then obtain a ps where p: "parts = a # ps" "Suc d < length ps" by (cases parts) auto
  then have "take (Suc d) ps \<noteq> []" "take (Suc (Suc d)) ps \<noteq> []" by auto
  with Suc.IH [OF p(2)] p(1) show ?case by (simp add: Join_Cons del: take_Suc_Cons) (simp add: Join_Cons)
qed

lemma distinct_prefixes:
  assumes "sep \<noteq> []" and "n \<le> length parts"
  shows "distinct (map (\<lambda>depth. Join (take depth parts) sep @ sep @ x) [1..<n])"
proof -
  have "strict_mono_on {1..<n} (\<lambda>depth. length (Join (take depth parts) sep))"
  proof (rule strict_mono_onI)
    fix r s assume "r \<in> {1..<n}" "s \<in> {1..<n}" "r < s"
    then have "Suc 0 \<le> r" "s \<le> length parts" using assms(2) by auto
    from \<open>r < s\<close> this show "length (Join (take r parts) sep) < length (Join (take s parts) sep)"
    proof (induction s)
      case (Suc s)
      show ?case
      proof (cases "r = s")
        case True
        with Suc.prems show ?thesis using length_Join_take [OF assms(1), of "s - 1" parts] by (cases s) auto
      next
        case False
        with Suc have "length (Join (take r parts) sep) < length (Join (take s parts) sep)" by simp
        moreover have "length (Join (take s parts) sep) < length (Join (take (Suc s) parts) sep)"
          using length_Join_take [OF assms(1), of "s - 1" parts] Suc.prems by (cases s) auto
        ultimately show ?thesis by simp
      qed
    qed simp
  qed
  then have "inj_on (\<lambda>depth. length (Join (take depth parts) sep)) {1..<n}" by (rule strict_mono_on_imp_inj_on)
  then have "inj_on (\<lambda>depth. Join (take depth parts) sep @ sep @ x) {1..<n}" by (fastforce simp: inj_on_def)
  then show ?thesis by (simp add: distinct_map)
qed

section \<open>The table tells the truth\<close>

definition grouped ::
  "(bytes \<Rightarrow> int \<Rightarrow> bytes list) \<Rightarrow> bytes list \<Rightarrow> int \<Rightarrow> bytes \<Rightarrow> bytes \<Rightarrow> 'v redis_object \<Rightarrow> bool" where
  "grouped explode separators maxDepth d p obj \<longleftrightarrow>
     itoa (GetDBIndex obj) = d \<and> p \<in> set (key_prefixes explode separators maxDepth (GetKey obj))"

lemma distinct_key_prefixes:
  assumes "hd separators \<noteq> []"
  shows "distinct (key_prefixes explode separators maxDepth key)"
proof -
  define parts where "parts = SplitN explode (normalize_key explode separators key) (hd separators)
    (sint (of_int (maxDepth + 1) :: u64))"
  define limit where "limit = min (int (length parts) - 1) maxDepth"
  have k: "key_prefixes explode separators maxDepth key =
      map (\<lambda>depth. Join (take depth parts) (hd separators) @ hd separators @ ascii ''*'') [1..<Suc (nat limit)]"
    by (simp only: key_prefixes_def Let_def parts_def limit_def)
  show ?thesis
  proof (cases "parts = []")
    case True
    then have "nat limit = 0" by (simp add: limit_def)
    then show ?thesis by (simp add: k)
  next
    case False
    then have "Suc (nat limit) \<le> length parts" by (cases parts) (auto simp: limit_def)
    then show ?thesis unfolding k by (rule distinct_prefixes [OF assms])
  qed
qed

lemma filter_one_prefix:
  "distinct ps \<Longrightarrow> filter (\<lambda>x. fst x = sep_key d p) (map (\<lambda>q. (sep_key d' q, sz)) ps) =
    (if d' = d \<and> p \<in> set ps then [(sep_key d p, sz)] else [])"
  by (induction ps) (auto simp: sep_key_inj)

lemma filter_counted:
  assumes "hd separators \<noteq> []"
  shows "filter (\<lambda>x. fst x = sep_key d p) (counted explode separators maxDepth objs) =
    map (\<lambda>obj. (sep_key d p, GetSize obj)) (filter (grouped explode separators maxDepth (itoa d) p) objs)"
  by (induction objs)
    (simp_all add: counted_def filter_one_prefix [OF distinct_key_prefixes [OF assms]] grouped_def itoa_inj)

lemma counted_keys:
  "fst ` set (counted explode separators maxDepth objs) =
    {sep_key d p |d p. \<exists>obj \<in> set objs. grouped explode separators maxDepth (itoa d) p obj}"
  by (force simp: counted_def grouped_def itoa_inj)

lemma tally_None: "tally xs k = None \<longleftrightarrow> k \<notin> fst ` set xs"
  by (auto simp: tally_def Let_def filter_empty_conv)

definition entry_of :: "bytes \<times> prefixStats \<Rightarrow> sep_entry" where
  "entry_of e = (case sep_entry e of Ok x \<Rightarrow> x | _ \<Rightarrow> ([], [], 0, 0))"

lemma entry_of_key [simp]: "entry_of (sep_key d p, s) = (itoa d, p, stat_size s, stat_count s)"
  by (simp add: entry_of_def sep_entry_key)

lemma sep_entries_ok: "\<forall>e \<in> set es. \<exists>d p. fst e = sep_key d p \<Longrightarrow> sep_entries es = Ok (map entry_of es)"
  by (induction es) (auto simp: sep_entry_key)

abbreviation entry_key :: "sep_entry \<Rightarrow> bytes \<times> bytes" where
  "entry_key \<equiv> (\<lambda>(d, p, sz, n). (d, p))"

text \<open>What the entries made from the map say.\<close>

lemma entries_true:
  fixes objs :: "'v redis_object list"
  assumes m: "\<forall>k. map_of m k = tally (counted explode separators maxDepth objs) k" "distinct (map fst m)"
    and sep: "hd separators \<noteq> []" and es: "mset es = mset m"
  shows "sep_entries es = Ok (map entry_of es)"
    and "distinct (map entry_key (map entry_of es))"
    and "set (map entry_key (map entry_of es)) =
      {(itoa d, p) |d p. \<exists>obj \<in> set objs. grouped explode separators maxDepth (itoa d) p obj}"
    and "list_all (\<lambda>(d, p, sz, n). sz = sum_list (map GetSize (filter (grouped explode separators maxDepth d p) objs)) \<and>
      n = length (filter (grouped explode separators maxDepth d p) objs)) (map entry_of es)"
proof -
  let ?c = "counted explode separators maxDepth objs"
  have set_es: "set es = set m" by (rule mset_eq_setD [OF es])
  have "mset (map fst es) = mset (map fst m)" using es by (simp add: mset_map)
  then have dist: "distinct (map fst es)" using m(2) mset_eq_imp_distinct_iff by blast
  have keys: "fst ` set es = fst ` set ?c"
  proof -
    have "k \<in> fst ` set m \<longleftrightarrow> k \<in> fst ` set ?c" for k
      using m(1) by (metis map_of_eq_None_iff tally_None)
    then show ?thesis unfolding set_es by blast
  qed
  have ex: "\<exists>d p. fst e = sep_key d p" if "e \<in> set es" for e
  proof -
    have "fst e \<in> fst ` set ?c" using that keys by blast
    then show ?thesis unfolding counted_keys by blast
  qed
  then show "sep_entries es = Ok (map entry_of es)" by (intro sep_entries_ok) blast
  have key: "\<exists>d p. e = (sep_key d p, snd e) \<and> entry_key (entry_of e) = (itoa d, p)" if e: "e \<in> set es" for e
  proof -
    obtain d p where "fst e = sep_key d p" using ex [OF e] by blast
    then have "e = (sep_key d p, snd e)" by (cases e) simp
    moreover from this have "entry_key (entry_of e) = (itoa d, p)" by (cases e) simp
    ultimately show ?thesis by blast
  qed
  have "inj_on (\<lambda>e. entry_key (entry_of e)) (set es)"
  proof (rule inj_onI)
    fix e f assume e: "e \<in> set es" "f \<in> set es" "entry_key (entry_of e) = entry_key (entry_of f)"
    obtain d p where 1: "e = (sep_key d p, snd e)" "entry_key (entry_of e) = (itoa d, p)" using key [OF e(1)] by blast
    obtain d' q where 2: "f = (sep_key d' q, snd f)" "entry_key (entry_of f) = (itoa d', q)" using key [OF e(2)] by blast
    from e(3) have "d = d'" "p = q" unfolding 1(2) 2(2) by (simp_all add: itoa_inj)
    then have "(sep_key d p, snd e) \<in> set es" "(sep_key d p, snd f) \<in> set es" using e(1,2) 1(1) 2(1) by simp_all
    then have "snd e = snd f" by (rule eq_key_imp_eq_value [OF dist])
    then show "e = f" using 1(1) 2(1) \<open>d = d'\<close> \<open>p = q\<close> by simp
  qed
  then show "distinct (map entry_key (map entry_of es))"
    using dist by (simp add: distinct_map o_def inj_on_def)
  have "(d', q) \<in> (\<lambda>e. entry_key (entry_of e)) ` set es \<longleftrightarrow>
      (\<exists>d. d' = itoa d \<and> (\<exists>obj \<in> set objs. grouped explode separators maxDepth (itoa d) q obj))" for d' q
  proof
    assume "(d', q) \<in> (\<lambda>e. entry_key (entry_of e)) ` set es"
    then obtain e where e: "e \<in> set es" "entry_key (entry_of e) = (d', q)" by force
    obtain d p where 1: "e = (sep_key d p, snd e)" "entry_key (entry_of e) = (itoa d, p)" using key [OF e(1)] by blast
    have "sep_key d p \<in> fst ` set ?c" using keys e(1) 1(1) by (metis fst_conv imageI)
    then show "\<exists>d. d' = itoa d \<and> (\<exists>obj \<in> set objs. grouped explode separators maxDepth (itoa d) q obj)"
      using e(2) 1(2) by (auto simp: counted_keys sep_key_inj)
  next
    assume "\<exists>d. d' = itoa d \<and> (\<exists>obj \<in> set objs. grouped explode separators maxDepth (itoa d) q obj)"
    then obtain d where d: "d' = itoa d" "sep_key d q \<in> fst ` set ?c" unfolding counted_keys by blast
    then obtain s where "(sep_key d q, s) \<in> set es" using keys by fastforce
    then show "(d', q) \<in> (\<lambda>e. entry_key (entry_of e)) ` set es" using d(1) by force
  qed
  then show "set (map entry_key (map entry_of es)) =
      {(itoa d, p) |d p. \<exists>obj \<in> set objs. grouped explode separators maxDepth (itoa d) p obj}"
    unfolding set_map image_image set_eq_iff split_paired_All by blast
  have "\<forall>e \<in> set es. case entry_of e of (d, p, sz, n) \<Rightarrow>
      sz = sum_list (map GetSize (filter (grouped explode separators maxDepth d p) objs)) \<and>
      n = length (filter (grouped explode separators maxDepth d p) objs)"
  proof
    fix e assume e: "e \<in> set es"
    then obtain d p where d: "e = (sep_key d p, snd e)" using key by blast
    have "map_of m (sep_key d p) = Some (snd e)"
      using e d set_es m(2) by (metis map_of_eq_Some_iff)
    then have "tally ?c (sep_key d p) = Some (snd e)" using m(1) by simp
    then have "snd e = \<lparr>stat_size = sum_list (map GetSize (filter (grouped explode separators maxDepth (itoa d) p) objs)),
        stat_count = length (filter (grouped explode separators maxDepth (itoa d) p) objs)\<rparr>"
      by (auto simp: tally_def Let_def filter_counted [OF sep] o_def split: if_splits)
    then show "case entry_of e of (d, p, sz, n) \<Rightarrow>
        sz = sum_list (map GetSize (filter (grouped explode separators maxDepth d p) objs)) \<and>
        n = length (filter (grouped explode separators maxDepth d p) objs)"
      by (subst d) simp
  qed
  then show "list_all (\<lambda>(d, p, sz, n). sz = sum_list (map GetSize (filter (grouped explode separators maxDepth d p) objs)) \<and>
      n = length (filter (grouped explode separators maxDepth d p) objs)) (map entry_of es)"
    by (simp add: list.pred_map list_all_iff)
qed


text \<open>
  C11. The report by separators: for a file that is parsed to its end and a first separator that is not empty, each
  row names a database and a prefix and gives the total size and the number of the objects counted under it;
  every prefix under which an object is counted has exactly one row, in or behind the table; and the table
  consists of the \<open>topN\<close> largest. This holds for any order in which the map is iterated over and for any
  permutation that \<open>sort.Slice\<close> returns, sorted by size.
\<close>

theorem sep_report:
  fixes objs :: "'v redis_object list"
  assumes "file_objects env rdbFilename options = Some objs" and "separators \<noteq> []" and "hd separators \<noteq> []"
    and range_order: "\<And>m. mset (range_order m) = mset m"
    and slice_sort: "\<And>es. mset (slice_sort es) = mset es \<and> sorted (map (\<lambda>(d, p, sz, n). - sz) (slice_sort es))"
    and "depth = (if maxDepth \<le> 0 then MaxInt else maxDepth)"
  shows "\<exists>rows rest.
    SepPrefixAnalyse range_order slice_sort env rdbFilename topN maxDepth separators options acc =
      (Ok (), acc @ prefix_header # map sep_line rows) \<and>
    list_all (\<lambda>(d, p, sz, n).
      sz = sum_list (map GetSize (filter (grouped (env_explode env) separators depth d p) objs)) \<and>
      n = length (filter (grouped (env_explode env) separators depth d p) objs)) (rows @ rest) \<and>
    distinct (map (\<lambda>(d, p, sz, n). (d, p)) (rows @ rest)) \<and>
    set (map (\<lambda>(d, p, sz, n). (d, p)) (rows @ rest)) =
      {(itoa d, p) |d p. \<exists>obj \<in> set objs. grouped (env_explode env) separators depth (itoa d) p obj} \<and>
    sorted (map (\<lambda>(d, p, sz, n). - sz) (rows @ rest)) \<and>
    (rest = [] \<or> int (length rows) = (if topN \<le> 0 then MaxInt else topN))"
proof -
  obtain w where w: "open_wrapped env rdbFilename options = Ok w" "delivered_to env w = (Ok (), objs)"
    "rdbFilename \<noteq> []" by (rule file_objectsE [OF assms(1)])
  obtain m where m: "feed (sep_step (env_explode env) separators depth) [] objs (Ok ()) = (Ok (), m)"
    "distinct (map fst m)" "\<forall>k. map_of m k = tally (counted (env_explode env) separators depth objs) k"
    using feed_sep_step [of "[]" "[]" "env_explode env" separators depth objs "Ok ()"] by (auto simp: tally_def)
  define es where "es = map entry_of (range_order m)"
  note true = entries_true [OF m(3,2) assms(3) range_order [of m], folded es_def]
  define cap where "cap = (if topN \<le> 0 then MaxInt else topN)"
  have cap: "0 \<le> cap" by (simp add: cap_def MaxInt_def)
  let ?s = "slice_sort es"
  let ?rows = "take (nat cap) ?s" and ?rest = "drop (nat cap) ?s"
  have perm: "mset ?s = mset es" and sorted: "sorted (map (\<lambda>(d, p, sz, n). - sz) ?s)" using slice_sort [of es] by simp_all
  have sets: "set ?s = set es" by (rule mset_eq_setD [OF perm])
  have "mset (map entry_key ?s) = mset (map entry_key es)" using perm by (simp only: mset_map)
  then have "distinct (map entry_key ?s)" using true(2) mset_eq_imp_distinct_iff by blast
  moreover have "set (map entry_key ?s) = set (map entry_key es)" using sets by simp
  moreover have "SepPrefixAnalyse range_order slice_sort env rdbFilename topN maxDepth separators options acc =
      (Ok (), acc @ prefix_header # map sep_line ?rows)"
    using w assms(2,6) m(1) true(1)
    by (simp add: SepPrefixAnalyse_def report_defs Let_def cap_def [symmetric])
  moreover have "?rest = [] \<or> int (length ?rows) = cap" using cap by auto
  ultimately show ?thesis
    using true(3,4) sorted sets unfolding cap_def [symmetric]
    by (intro exI [of _ ?rows] exI [of _ ?rest]) (simp only: append_take_drop_id list_all_iff simp_thms)
qed

text \<open>\<open>sort.Slice\<close> here sorts stably, and the map is iterated over in the order of insertion.\<close>

theorem sep_report_witness:
  "\<exists>objs :: unit redis_object list. length objs = 3 \<and> (\<exists>rows rest.
    SepPrefixAnalyse id (sort_key (\<lambda>(d, p, sz, n). - sz)) sample_env [102] 2 1 [[58], [46]] [] [] =
      (Ok (), [] @ prefix_header # map sep_line rows) \<and>
    list_all (\<lambda>(d, p, sz, n).
      sz = sum_list (map GetSize (filter (grouped (env_explode sample_env) [[58], [46]] 1 d p) objs)) \<and>
      n = length (filter (grouped (env_explode sample_env) [[58], [46]] 1 d p) objs)) (rows @ rest) \<and>
    distinct (map (\<lambda>(d, p, sz, n). (d, p)) (rows @ rest)) \<and>
    set (map (\<lambda>(d, p, sz, n). (d, p)) (rows @ rest)) =
      {(itoa d, p) |d p. \<exists>obj \<in> set objs. grouped (env_explode sample_env) [[58], [46]] 1 (itoa d) p obj} \<and>
    sorted (map (\<lambda>(d, p, sz, n). - sz) (rows @ rest)) \<and>
    (rest = [] \<or> int (length rows) = (if 2 \<le> (0 :: int) then MaxInt else 2)))"
proof -
  obtain objs where f: "file_objects sample_env [102] [] = Some objs"
    "list_all2 meets (expect_file False [] sample_dbs) objs" by (rule sample_objects)
  from this(2) have "length objs = 3"
    by (auto dest: list_all2_lengthD simp: expect_file_def sample_dbs_def expect_db_def)
  moreover note sep_report [OF f(1), of "[[58], [46]]" id "sort_key (\<lambda>(d, p, sz, n). - sz)" 1 1 2 "[]"]
  ultimately show ?thesis by (intro exI [of _ objs]) simp
qed

end
