(* ===== verification/Resp.thy ===== *)
theory Resp
  imports Reports "HOL-Library.List_Lexorder" "HOL-Library.Sublist"
begin

text \<open>
  Objects as Redis commands (\<open>helper/resp.go\<close>) and the conversion of a file into an AOF file
  (\<open>helper/converter.go\<close>). A command line is a list of arguments, \<open>None\<close> for a nil argument. A Go map is iterated
  over in the order of its association list. \<open>FormatFloat\<close> is an argument. A module object never has the
  type name of another object: module names have nine characters.
\<close>

section \<open>Command lines\<close>

type_synonym cmd_line = "bytes option list"

definition args :: "bytes list \<Rightarrow> cmd_line" where "args = map Some"

definition stringToCmd :: "bytes \<Rightarrow> bytes \<Rightarrow> cmd_line" where
  "stringToCmd key v = args [ascii ''SET'', key, v]"

definition listToCmd :: "bytes \<Rightarrow> bytes list \<Rightarrow> cmd_line" where
  "listToCmd key vs = args ([ascii ''RPUSH'', key] @ vs)"

definition setToCmd :: "bytes \<Rightarrow> bytes list \<Rightarrow> cmd_line" where
  "setToCmd key members = args ([ascii ''SADD'', key] @ members)"

definition hash_entries :: "bool \<Rightarrow> bytes gomap \<Rightarrow> bytes gomap" where
  "hash_entries useLexOrder h = (if useLexOrder then sort_key fst h else h)"

definition field_cmd :: "bytes \<Rightarrow> bytes \<times> int \<Rightarrow> cmd_line" where
  "field_cmd key = (\<lambda>(field, expire).
     if expire = 0 then args [ascii ''HPERSIST'', key, ascii ''FIELDS'', ascii ''1'', field]
     else args [ascii ''HPEXPIREAT'', key, itoa expire, ascii ''FIELDS'', ascii ''1'', field])"

definition hashToCmd :: "bytes \<Rightarrow> bytes gomap \<Rightarrow> int gomap \<Rightarrow> bool \<Rightarrow> cmd_line list" where
  "hashToCmd key h fieldExpirations useLexOrder =
     args ([ascii ''HMSET'', key] @ concat (map (\<lambda>(field, val). [field, val]) (hash_entries useLexOrder h))) #
     (if length fieldExpirations = length h then map (field_cmd key) fieldExpirations else [])"

definition zSetToCmd :: "(f64 \<Rightarrow> bytes) \<Rightarrow> bytes \<Rightarrow> (bytes \<times> f64) list \<Rightarrow> cmd_line" where
  "zSetToCmd formatFloat key entries =
     args ([ascii ''ZADD'', key] @ concat (map (\<lambda>(member, score). [formatFloat score, member]) entries))"

text \<open>Go's division cuts toward zero.\<close>

definition quot :: "int \<Rightarrow> int \<Rightarrow> int" where
  "quot a b = (if 0 \<le> a then a div b else - (- a div b))"

definition makeExpireCmd :: "bytes \<Rightarrow> int \<Rightarrow> cmd_line" where
  "makeExpireCmd key expireAt = args [ascii ''PEXPIREAT'', key, itoa (quot expireAt 1000000)]"

definition formatStreamID :: "stream_id \<Rightarrow> bytes" where
  "formatStreamID i = itoa (uint (Ms i)) @ ascii ''-'' @ itoa (uint (Sequence i))"

definition message_cmd :: "bytes \<Rightarrow> stream_message \<Rightarrow> cmd_line" where
  "message_cmd key msg = args ([ascii ''XADD'', key, formatStreamID (msg_id msg)] @
     concat (map (\<lambda>(k, v). [k, v]) (msg_fields msg)))"

definition streamToCmd :: "bytes \<Rightarrow> stream \<Rightarrow> cmd_line list" where
  "streamToCmd key s = concat (map (\<lambda>entry. map (message_cmd key) (entry_msgs entry)) (stream_entries s))"

fun value_cmds :: "(f64 \<Rightarrow> bytes) \<Rightarrow> bool \<Rightarrow> 'v redis_object \<Rightarrow> cmd_line list" where
  "value_cmds formatFloat useLexOrder (StringObject b v) = [stringToCmd (obj_key b) v]"
| "value_cmds formatFloat useLexOrder (ListObject b vs) = [listToCmd (obj_key b) vs]"
| "value_cmds formatFloat useLexOrder (HashObject b h e) = hashToCmd (obj_key b) h e useLexOrder"
| "value_cmds formatFloat useLexOrder (SetObject b ms) = [setToCmd (obj_key b) ms]"
| "value_cmds formatFloat useLexOrder (ZSetObject b es) = [zSetToCmd formatFloat (obj_key b) es]"
| "value_cmds formatFloat useLexOrder (StreamObject b s) = streamToCmd (obj_key b) s"
| "value_cmds formatFloat useLexOrder obj = []"

definition ObjectToCmd :: "(f64 \<Rightarrow> bytes) \<Rightarrow> 'v redis_object \<Rightarrow> helper_option list \<Rightarrow> cmd_line list" where
  "ObjectToCmd formatFloat obj opts =
     value_cmds formatFloat (LexOrder \<in> set opts) obj @
     (case GetExpiration obj of None \<Rightarrow> [] | Some expireAt \<Rightarrow> [makeExpireCmd (GetKey obj) expireAt])"

section \<open>The protocol\<close>

definition crlf :: bytes where "crlf = [13, 10]"

definition bulk :: "bytes option \<Rightarrow> bytes" where
  "bulk arg = (case arg of
     None \<Rightarrow> ascii ''$-1'' @ crlf
   | Some a \<Rightarrow> ascii ''$'' @ itoa (int (length a)) @ crlf @ a @ crlf)"

definition makeMultiBulkResp :: "cmd_line \<Rightarrow> bytes" where
  "makeMultiBulkResp cmd = ascii ''*'' @ itoa (int (length cmd)) @ crlf @ concat (map bulk cmd)"

definition CmdLinesToResp :: "cmd_line list \<Rightarrow> bytes" where
  "CmdLinesToResp cmds = concat (map makeMultiBulkResp cmds)"

text \<open>What one command is cut into for the writer.\<close>

definition arg_chunks :: "bytes option \<Rightarrow> bytes list" where
  "arg_chunks arg = (case arg of
     None \<Rightarrow> [ascii ''$-1'' @ crlf]
   | Some a \<Rightarrow> [ascii ''$'' @ itoa (int (length a)) @ crlf, a, crlf])"

definition cmd_chunks :: "cmd_line \<Rightarrow> bytes list" where
  "cmd_chunks cmd = (ascii ''*'' @ itoa (int (length cmd)) @ crlf) # concat (map arg_chunks cmd)"

definition WriteObjectToResp ::
  "(bytes \<Rightarrow> ('s, unit) comp) \<Rightarrow> (f64 \<Rightarrow> bytes) \<Rightarrow> 'v redis_object \<Rightarrow> ('s, unit) comp" where
  "WriteObjectToResp w formatFloat obj =
     for_each (ObjectToCmd formatFloat obj []) (\<lambda>cmd. for_each (cmd_chunks cmd) w)"

section \<open>The bytes determine the commands\<close>

lemma itoa_no_cr: "(13 :: byte) \<notin> set (itoa n)"
  using nat_digits_digits [of 13] by (auto simp: itoa_def is_digit_byte_unat)

lemma itoa_crlf: "itoa m @ crlf @ x = itoa n @ crlf @ y \<longleftrightarrow> m = n \<and> x = y"
  unfolding crlf_def append_Cons append_Nil by (simp add: split_at_sep itoa_no_cr itoa_inj)

lemma bulk_eq: "bulk arg = 36 # (case arg of
    None \<Rightarrow> itoa (- 1) @ crlf | Some a \<Rightarrow> itoa (int (length a)) @ crlf @ a @ crlf)"
  by (cases arg) (simp_all add: bulk_def ascii_def itoa_def nat_digits.simps digit_byte_def)

lemma bulk_inj: "bulk a @ x = bulk b @ y \<longleftrightarrow> a = b \<and> x = y"
  by (cases a; cases b) (auto simp: bulk_eq itoa_crlf simp del: append_eq_append_conv_if)

lemma bulks_inj:
  "length as = length bs \<Longrightarrow> concat (map bulk as) @ x = concat (map bulk bs) @ y \<longleftrightarrow> as = bs \<and> x = y"
  by (induction as bs rule: list_induct2) (auto simp: bulk_inj)

lemma multi_bulk_inj: "makeMultiBulkResp c @ x = makeMultiBulkResp d @ y \<longleftrightarrow> c = d \<and> x = y"
proof -
  have "makeMultiBulkResp c @ x = makeMultiBulkResp d @ y \<longleftrightarrow>
      length c = length d \<and> concat (map bulk c) @ x = concat (map bulk d) @ y"
    by (simp add: makeMultiBulkResp_def itoa_crlf)
  also have "\<dots> \<longleftrightarrow> c = d \<and> x = y" using bulks_inj by blast
  finally show ?thesis .
qed

text \<open>
  C14. The protocol is unambiguous: the bytes of a sequence of command lines, whatever bytes the arguments hold,
  determine the sequence, every argument and which of them are nil.
\<close>

theorem resp_unambiguous: "CmdLinesToResp cs = CmdLinesToResp ds \<longleftrightarrow> cs = ds"
proof -
  have ne: "makeMultiBulkResp c \<noteq> []" for c by (simp add: makeMultiBulkResp_def ascii_def)
  have "CmdLinesToResp cs = CmdLinesToResp ds \<Longrightarrow> cs = ds"
  proof (induction cs arbitrary: ds)
    case Nil
    then show ?case using ne by (cases ds) (auto simp: CmdLinesToResp_def)
  next
    case (Cons c cs)
    then obtain d ds' where "ds = d # ds'" using ne by (cases ds) (auto simp: CmdLinesToResp_def)
    with Cons show ?case by (auto simp: CmdLinesToResp_def multi_bulk_inj)
  qed
  then show ?thesis by blast
qed

section \<open>Writers\<close>

text \<open>
  What is relied on of an \<open>io.Writer\<close>: it has written all bytes, or returned an error after some of them.
\<close>

locale sink =
  fixes w :: "bytes \<Rightarrow> ('s, unit) comp" and contents :: "'s \<Rightarrow> bytes"
  assumes write_spec: "\<exists>q. prefix q p \<and> contents (snd (w p s)) = contents s @ q \<and>
    (fst (w p s) = Ok () \<and> q = p \<or> (\<exists>e. fst (w p s) = Err e))"
begin

lemma write_all_spec:
  "\<exists>q. prefix q (concat ps) \<and> contents (snd (for_each ps w s)) = contents s @ q \<and>
    (fst (for_each ps w s) = Ok () \<and> q = concat ps \<or> (\<exists>e. fst (for_each ps w s) = Err e))"
proof (induction ps arbitrary: s)
  case Nil
  then show ?case by (simp add: ret_def)
next
  case (Cons p ps)
  obtain r s1 where w: "w p s = (r, s1)" by fastforce
  from write_spec [of p s] obtain q where q: "prefix q p" "contents s1 = contents s @ q"
    "r = Ok () \<and> q = p \<or> (\<exists>e. r = Err e)" by (auto simp: w)
  from q(3) show ?case
  proof
    assume "r = Ok () \<and> q = p"
    then have r: "for_each (p # ps) w s = for_each ps w s1" "contents s1 = contents s @ p"
      using w q(2) by (simp_all add: seq_Ok)
    obtain q' where "prefix q' (concat ps)" "contents (snd (for_each ps w s1)) = contents s1 @ q'"
      "fst (for_each ps w s1) = Ok () \<and> q' = concat ps \<or> (\<exists>e. fst (for_each ps w s1) = Err e)"
      using Cons.IH [of s1] by blast
    with r(2) show ?thesis unfolding r(1) by (intro exI [of _ "p @ q'"]) auto
  next
    assume "\<exists>e. r = Err e"
    with q(1,2) w show ?thesis by (auto simp: seq_def bind_def intro: prefix_prefix)
  qed
qed

lemma write_object_spec:
  "\<exists>q. prefix q (CmdLinesToResp (ObjectToCmd ff obj [])) \<and>
    contents (snd (WriteObjectToResp w ff obj s)) = contents s @ q \<and>
    (fst (WriteObjectToResp w ff obj s) = Ok () \<and> q = CmdLinesToResp (ObjectToCmd ff obj []) \<or>
     (\<exists>e. fst (WriteObjectToResp w ff obj s) = Err e))"
proof -
  have chunks: "concat (cmd_chunks c) = makeMultiBulkResp c" for c
  proof -
    have "concat (arg_chunks a) = bulk a" for a by (cases a) (simp_all add: arg_chunks_def bulk_def)
    then have "concat (concat (map arg_chunks c)) = concat (map bulk c)" by (induction c) simp_all
    then show ?thesis by (simp add: cmd_chunks_def makeMultiBulkResp_def)
  qed
  then have bytes: "concat (concat (map cmd_chunks cs)) = CmdLinesToResp cs" for cs
    by (induction cs) (simp_all add: CmdLinesToResp_def)
  have "for_each cs (\<lambda>c. for_each (cmd_chunks c) w) = for_each (concat (map cmd_chunks cs)) w" for cs
    by (induction cs) (simp_all add: for_each_append)
  then show ?thesis using write_all_spec [of "concat (map cmd_chunks (ObjectToCmd ff obj []))" s]
    unfolding bytes WriteObjectToResp_def by simp
qed

end

text \<open>
  A writer with its faults: \<open>faults\<close> says, of what it has written and the next bytes, after how many of them it fails.
\<close>

definition io_write :: "(bytes \<Rightarrow> bytes \<Rightarrow> (nat \<times> go_error) option) \<Rightarrow> bytes \<Rightarrow> (bytes, unit) comp" where
  "io_write faults p acc = (case faults acc p of
     None \<Rightarrow> (Ok (), acc @ p)
   | Some (n, err) \<Rightarrow> (Err err, acc @ take n p))"

interpretation io_writer: sink "io_write faults" "\<lambda>acc. acc"
  by unfold_locales (auto simp: io_write_def take_is_prefix split: option.splits)

text \<open>The writer of an encoder is another.\<close>

interpretation encoder_writer: sink raw_write out
  by unfold_locales (auto simp: raw_write_def take_is_prefix split: option.splits)

text \<open>
  C15. Writing an object to a writer, in pieces that do not copy large values, writes the same bytes as encoding its
  commands in memory; when the writer fails, a prefix of them has been written and the error is returned.
\<close>

theorem write_object_to_resp:
  "\<exists>q. snd (WriteObjectToResp (io_write faults) formatFloat obj acc) = acc @ q \<and>
    prefix q (CmdLinesToResp (ObjectToCmd formatFloat obj [])) \<and>
    (fst (WriteObjectToResp (io_write faults) formatFloat obj acc) = Ok () \<and>
       q = CmdLinesToResp (ObjectToCmd formatFloat obj []) \<or>
     (\<exists>e. fst (WriteObjectToResp (io_write faults) formatFloat obj acc) = Err e))"
  using io_writer.write_object_spec [of formatFloat obj faults acc] by blast

section \<open>AOF files\<close>

text \<open>
  The closure of \<open>ToAOF\<close>, with the file as its state: a failed write is reported on the console and parsing goes
  on.
\<close>

definition aof_step ::
  "(bytes \<Rightarrow> bytes \<Rightarrow> (nat \<times> go_error) option) \<Rightarrow> (f64 \<Rightarrow> bytes) \<Rightarrow> helper_option list \<Rightarrow> bytes \<Rightarrow>
   'v redis_object \<Rightarrow> bytes result" where
  "aof_step faults formatFloat options file obj =
     Ok (snd (io_write faults (CmdLinesToResp (ObjectToCmd formatFloat obj options)) file))"

definition ToAOF ::
  "(bytes \<Rightarrow> bytes \<Rightarrow> (nat \<times> go_error) option) \<Rightarrow> (f64 \<Rightarrow> bytes) \<Rightarrow> 'v env \<Rightarrow> bytes \<Rightarrow> bytes \<Rightarrow>
   helper_option list \<Rightarrow> (bytes, unit) comp" where
  "ToAOF faults formatFloat env rdbFilename aofFilename options =
     (if rdbFilename = [] then throw (ErrMsg ''src file path is required'')
      else if aofFilename = [] then throw (ErrMsg ''output file path is required'')
      else if env_open env rdbFilename \<noteq> None \<and> \<not> env_create env aofFilename then
        throw (ErrMsg ''create json failed'')
      else
        bind (lift_result (open_wrapped env rdbFilename options)) (\<lambda>dec acc.
        parse_with env dec (aof_step faults formatFloat options) acc))"

text \<open>
  C16. An AOF file holds the commands of the objects of the file that pass the filters, in their order, and nothing
  else, when no write fails.
\<close>

theorem aof_commands:
  assumes "file_objects env rdbFilename options = Some objs" and "aofFilename \<noteq> []" and "env_create env aofFilename"
  shows "ToAOF (\<lambda>_ _. None) formatFloat env rdbFilename aofFilename options [] =
    (Ok (), CmdLinesToResp (concat (map (\<lambda>obj. ObjectToCmd formatFloat obj options) objs)))"
proof -
  obtain w where w: "open_wrapped env rdbFilename options = Ok w" "delivered_to env w = (Ok (), objs)"
    "rdbFilename \<noteq> []" by (rule file_objectsE [OF assms(1)])
  have "feed (aof_step (\<lambda>_ _. None) formatFloat options) acc objs r =
      (r, acc @ CmdLinesToResp (concat (map (\<lambda>obj. ObjectToCmd formatFloat obj options) objs)))" for acc r
    by (induction objs arbitrary: acc) (simp_all add: aof_step_def io_write_def CmdLinesToResp_def)
  with w assms(2,3) show ?thesis by (simp add: ToAOF_def report_defs)
qed

theorem aof_commands_witness:
  "\<exists>objs :: unit redis_object list. length objs = 3 \<and>
    ToAOF (\<lambda>_ _. None) (\<lambda>_. []) sample_env [102] [97] [] [] =
      (Ok (), CmdLinesToResp (concat (map (\<lambda>obj. ObjectToCmd (\<lambda>_. []) obj []) objs)))"
proof -
  obtain objs where f: "file_objects sample_env [102] [] = Some objs"
    "list_all2 meets (expect_file False [] sample_dbs) objs" by (rule sample_objects)
  from this(2) have "length objs = 3"
    by (auto dest: list_all2_lengthD simp: expect_file_def sample_dbs_def expect_db_def)
  moreover have "env_create sample_env [97]" by (simp add: sample_env_simps)
  ultimately show ?thesis using aof_commands [OF f(1), of "[97]" "\<lambda>_. []"] by auto
qed

end
