(* ===== verification/Replay.thy ===== *)
theory Replay
  imports Resp
begin

text \<open>
  What the commands of \<open>helper/resp.go\<close> are for: sent to a Redis server, they rebuild the objects. The server is not part
  of the program, so it is a parameter: how it executes a command (\<open>None\<close> is an error reply), what it holds under a key, and how
  it reads a score. \<open>documented\<close> states what its documentation says of the commands that \<open>ObjectToCmd\<close> makes (XADD
  excepted) where they are used: on absent keys, and with times that are still to come. \<open>now\<close> is a time by which the replay has
  ended, so that nothing that lives beyond it expires on the way.
\<close>

section \<open>Servers\<close>

datatype rvalue =
    RString bytes
  | RList "bytes list"
  | RSet "bytes set"
  | RHash "bytes \<rightharpoonup> bytes"
  | RZSet "bytes \<rightharpoonup> f64"

record slot =
  slot_value :: "rvalue option"
  slot_ttl :: "int option"
  slot_fields :: "bytes \<rightharpoonup> int"

definition empty_slot :: slot where
  "empty_slot = \<lparr>slot_value = None, slot_ttl = None, slot_fields = Map.empty\<rparr>"

definition slot_of :: "(bytes \<rightharpoonup> int) \<Rightarrow> int option \<Rightarrow> rvalue \<Rightarrow> slot" where
  "slot_of fs t v = \<lparr>slot_value = Some v, slot_ttl = t, slot_fields = fs\<rparr>"

record 'srv server =
  execute :: "'srv \<Rightarrow> cmd_line \<Rightarrow> 'srv option"
  holds :: "'srv \<Rightarrow> bytes \<Rightarrow> slot"
  reads_score :: "bytes \<Rightarrow> f64 option"





section \<open>The documented behaviour\<close>

definition assign_all :: "('k \<rightharpoonup> 'v) \<Rightarrow> ('k \<times> 'v) list \<Rightarrow> ('k \<rightharpoonup> 'v)" where
  "assign_all = foldl (\<lambda>m (k, v). m(k \<mapsto> v))"










section \<open>What an object stands for\<close>






section \<open>Sequences of commands for a key\<close>









section \<open>Maps in any order\<close>






section \<open>One object comes back\<close>










section \<open>A server that behaves as documented\<close>

text \<open>
  It shows that \<open>documented\<close> can hold: one database, at the time \<open>now\<close>. A time that has passed deletes the key or the
  field, and with its last field the hash; a time for a field must not be negative nor reach 2^46.
\<close>

type_synonym database = "bytes \<Rightarrow> slot"

fun in_pairs :: "bytes list \<Rightarrow> (bytes \<times> bytes) list option" where
  "in_pairs [] = Some []"
| "in_pairs (a # b # xs) = map_option (\<lambda>ps. (a, b) # ps) (in_pairs xs)"
| "in_pairs _ = None"

fun parse_scores :: "(bytes \<Rightarrow> f64 option) \<Rightarrow> (bytes \<times> bytes) list \<Rightarrow> (bytes \<times> f64) list option" where
  "parse_scores pf [] = Some []"
| "parse_scores pf ((t, m) # ps) = (case pf t of
     None \<Rightarrow> None
   | Some x \<Rightarrow> map_option (\<lambda>es. (m, x) # es) (parse_scores pf ps))"

definition with_value :: "slot \<Rightarrow> rvalue \<Rightarrow> slot" where
  "with_value sl v = sl\<lparr>slot_value := Some v\<rparr>"

fun cmd_set :: "slot \<Rightarrow> bytes list \<Rightarrow> slot option" where
  "cmd_set sl [v] = Some (slot_of Map.empty None (RString v))"
| "cmd_set sl _ = None"

definition cmd_rpush :: "slot \<Rightarrow> bytes list \<Rightarrow> slot option" where
  "cmd_rpush sl vs = (if vs = [] then None else case slot_value sl of
     None \<Rightarrow> Some (with_value sl (RList vs))
   | Some (RList old) \<Rightarrow> Some (with_value sl (RList (old @ vs)))
   | _ \<Rightarrow> None)"

definition cmd_sadd :: "slot \<Rightarrow> bytes list \<Rightarrow> slot option" where
  "cmd_sadd sl ms = (if ms = [] then None else case slot_value sl of
     None \<Rightarrow> Some (with_value sl (RSet (set ms)))
   | Some (RSet old) \<Rightarrow> Some (with_value sl (RSet (old \<union> set ms)))
   | _ \<Rightarrow> None)"

definition put_fields :: "slot \<Rightarrow> (bytes \<rightharpoonup> bytes) \<Rightarrow> (bytes \<times> bytes) list \<Rightarrow> slot" where
  "put_fields sl h ps = sl\<lparr>slot_value := Some (RHash (assign_all h ps)),
     slot_fields := (\<lambda>f. if f \<in> fst ` set ps then None else slot_fields sl f)\<rparr>"

definition cmd_hmset :: "slot \<Rightarrow> bytes list \<Rightarrow> slot option" where
  "cmd_hmset sl xs = (case in_pairs xs of
     None \<Rightarrow> None
   | Some ps \<Rightarrow> (if ps = [] then None else case slot_value sl of
       None \<Rightarrow> Some (put_fields sl Map.empty ps)
     | Some (RHash old) \<Rightarrow> Some (put_fields sl old ps)
     | _ \<Rightarrow> None))"

definition cmd_zadd :: "(bytes \<Rightarrow> f64 option) \<Rightarrow> slot \<Rightarrow> bytes list \<Rightarrow> slot option" where
  "cmd_zadd pf sl xs = (case Option.bind (in_pairs xs) (parse_scores pf) of
     None \<Rightarrow> None
   | Some es \<Rightarrow> (if es = [] then None else case slot_value sl of
       None \<Rightarrow> Some (with_value sl (RZSet (assign_all Map.empty es)))
     | Some (RZSet old) \<Rightarrow> Some (with_value sl (RZSet (assign_all old es)))
     | _ \<Rightarrow> None))"

fun cmd_pexpireat :: "int \<Rightarrow> slot \<Rightarrow> bytes list \<Rightarrow> slot option" where
  "cmd_pexpireat now sl [t] = (case parse_int 64 t of
     None \<Rightarrow> None
   | Some ms \<Rightarrow>
       if slot_value sl = None then Some sl
       else if ms \<le> now then Some empty_slot
       else Some (sl\<lparr>slot_ttl := Some ms\<rparr>))"
| "cmd_pexpireat now sl _ = None"

definition delete_field :: "slot \<Rightarrow> (bytes \<rightharpoonup> bytes) \<Rightarrow> bytes \<Rightarrow> slot" where
  "delete_field sl h f =
     (if dom h \<subseteq> {f} then empty_slot
      else sl\<lparr>slot_value := Some (RHash (h(f := None))), slot_fields := (slot_fields sl)(f := None)\<rparr>)"

fun cmd_hpexpireat :: "int \<Rightarrow> slot \<Rightarrow> bytes list \<Rightarrow> slot option" where
  "cmd_hpexpireat now sl [t, kw, n, f] = (case parse_int 64 t of
     None \<Rightarrow> None
   | Some ms \<Rightarrow>
       if kw \<noteq> ascii ''FIELDS'' \<or> n \<noteq> ascii ''1'' \<or> ms < 0 \<or> 2 ^ 46 \<le> ms then None
       else (case slot_value sl of
           None \<Rightarrow> Some sl
         | Some (RHash h) \<Rightarrow> Some (if h f = None then sl
             else if ms \<le> now then delete_field sl h f
             else sl\<lparr>slot_fields := (slot_fields sl)(f \<mapsto> ms)\<rparr>)
         | _ \<Rightarrow> None))"
| "cmd_hpexpireat now sl _ = None"

fun cmd_hpersist :: "slot \<Rightarrow> bytes list \<Rightarrow> slot option" where
  "cmd_hpersist sl [kw, n, f] =
     (if kw \<noteq> ascii ''FIELDS'' \<or> n \<noteq> ascii ''1'' then None
      else (case slot_value sl of
          None \<Rightarrow> Some sl
        | Some (RHash h) \<Rightarrow> Some (sl\<lparr>slot_fields := (slot_fields sl)(f := None)\<rparr>)
        | _ \<Rightarrow> None))"
| "cmd_hpersist sl _ = None"

definition run_cmd :: "int \<Rightarrow> (bytes \<Rightarrow> f64 option) \<Rightarrow> slot \<Rightarrow> bytes \<Rightarrow> bytes list \<Rightarrow> slot option" where
  "run_cmd now pf sl name xs =
     (if name = ascii ''SET'' then cmd_set sl xs
      else if name = ascii ''RPUSH'' then cmd_rpush sl xs
      else if name = ascii ''SADD'' then cmd_sadd sl xs
      else if name = ascii ''HMSET'' then cmd_hmset sl xs
      else if name = ascii ''ZADD'' then cmd_zadd pf sl xs
      else if name = ascii ''PEXPIREAT'' then cmd_pexpireat now sl xs
      else if name = ascii ''HPEXPIREAT'' then cmd_hpexpireat now sl xs
      else if name = ascii ''HPERSIST'' then cmd_hpersist sl xs
      else None)"

definition run_line :: "int \<Rightarrow> (bytes \<Rightarrow> f64 option) \<Rightarrow> database \<Rightarrow> cmd_line \<Rightarrow> database option" where
  "run_line now pf d cmd =
     (if None \<in> set cmd then None
      else (case map the cmd of
          name # key # xs \<Rightarrow> map_option (\<lambda>sl. d(key := sl)) (run_cmd now pf (d key) name xs)
        | _ \<Rightarrow> None))"

definition small_server :: "int \<Rightarrow> (bytes \<Rightarrow> f64 option) \<Rightarrow> database server" where
  "small_server now pf = \<lparr>execute = run_line now pf, holds = (\<lambda>d. d), reads_score = pf\<rparr>"


lemma small_holds [simp]: "holds (small_server now pf) d key = d key" "reads_score (small_server now pf) = pf"
  by (simp_all add: small_server_def)




lemma slot_of_simps [simp]:
  "slot_value (slot_of fs t v) = Some v" "slot_fields (slot_of fs t v) = fs"
  "(slot_of fs t v)\<lparr>slot_ttl := u\<rparr> = slot_of fs u v" "(slot_of fs t v)\<lparr>slot_fields := gs\<rparr> = slot_of gs t v"
  "with_value empty_slot w = slot_of Map.empty None w" "slot_value empty_slot = None"
  "put_fields empty_slot h ps = slot_of Map.empty None (RHash (assign_all h ps))"
  by (simp_all add: slot_of_def with_value_def empty_slot_def put_fields_def fun_eq_iff)





end
