(* ===== verification/JsonView.thy ===== *)
theory JsonView
  imports RdbModel Strconv "HOL-Library.List_Lexorder"
begin

text \<open>
  The JSON of objects (\<open>MarshalJSON\<close> and the struct tags of \<open>model/model.go\<close> and \<open>model/stream.go\<close>). The first part is what
  the code hands to the JSON package, as a tree with the fields in their order and those left out by \<open>omitempty\<close> absent. The
  second is what \<open>json.Marshal\<close> makes of a tree: bytes that are not UTF-8 are replaced, the keys of maps are sorted, numbers that are
  not finite are an error. The result is a JSON value; how it is laid out as text is not modelled, nor is the difference of a
  nil slice or map from an empty one. (\<open>ToJsons\<close> marshals with package \<open>sonic\<close>, which calls the methods \<open>MarshalJSON\<close> and so
  \<open>encoding/json\<close>; streams, functions and database sizes have no such method, and are here as \<open>json.Marshal\<close> prints them.) \<open>json_shows_object\<close> states what can be read back from the JSON of an object.
\<close>

section \<open>Trees\<close>

datatype 'v json =
    JStr bytes
  | JName string
  | JInt int
  | JFloat f64
  | JTime int
  | JBool bool
  | JArr "'v json list"
  | JMap "(bytes \<times> 'v json) list"
  | JObj "(string \<times> 'v json) list"
  | JValue "'v option"

definition present :: "(string \<times> 'v json option) list \<Rightarrow> (string \<times> 'v json) list" where
  "present = List.map_filter (\<lambda>(k, x). map_option (Pair k) x)"

definition omit_zero :: "u64 \<Rightarrow> 'v json option" where
  "omit_zero n = (if n = 0 then None else Some (JInt (uint n)))"

definition omit_nil :: "('a \<Rightarrow> 'v json) \<Rightarrow> 'a list \<Rightarrow> 'v json option" where
  "omit_nil f xs = (if xs = [] then None else Some (JArr (map f xs)))"

section \<open>Streams\<close>

definition MarshalText :: "stream_id \<Rightarrow> bytes" where
  "MarshalText i = nat_digits (unat (Ms i)) @ ascii ''-'' @ nat_digits (unat (Sequence i))"

definition id_json :: "stream_id \<Rightarrow> 'v json" where
  "id_json i = JStr (MarshalText i)"

definition message_json :: "stream_message \<Rightarrow> 'v json" where
  "message_json m = JObj (present [(''id'', Some (id_json (msg_id m))),
     (''fields'', Some (JMap (map (\<lambda>(k, v). (k, JStr v)) (msg_fields m)))), (''deleted'', Some (JBool (msg_deleted m)))])"

definition entry_json :: "stream_entry \<Rightarrow> 'v json" where
  "entry_json e = JObj (present [(''firstMsgId'', Some (id_json (firstMsgId e))),
     (''fields'', Some (JArr (map JStr (entry_fields e)))), (''msgs'', Some (JArr (map message_json (entry_msgs e))))])"

definition nack_json :: "stream_nack \<Rightarrow> 'v json" where
  "nack_json n = JObj (present [(''id'', Some (id_json (nack_id n))), (''deliveryTime'', Some (JInt (uint (deliveryTime n)))),
     (''deliveryCount'', Some (JInt (uint (deliveryCount n))))])"

definition consumer_json :: "stream_consumer \<Rightarrow> 'v json" where
  "consumer_json c = JObj (present [(''name'', Some (JStr (consumer_name c))), (''seenTime'', Some (JInt (uint (seenTime c)))),
     (''pending'', omit_nil id_json (consumer_pending c)), (''activeTime'', Some (JInt (uint (activeTime c))))])"

definition group_json :: "stream_group \<Rightarrow> 'v json" where
  "group_json g = JObj (present [(''name'', Some (JStr (group_name g))), (''lastId'', Some (id_json (group_lastId g))),
     (''pending'', omit_nil nack_json (group_pending g)), (''consumers'', omit_nil consumer_json (group_consumers g)),
     (''entriesRead'', omit_zero (entriesRead g))])"

definition stream_fields :: "stream \<Rightarrow> (string \<times> 'v json option) list" where
  "stream_fields s = [(''version'', if stream_version s = 0 then None else Some (JInt (int (stream_version s)))),
     (''entries'', omit_nil entry_json (stream_entries s)), (''groups'', omit_nil group_json (stream_groups s)),
     (''len'', Some (JInt (uint (stream_length s)))), (''lastId'', Some (id_json (lastId s))),
     (''firstId'', map_option id_json (firstId s)), (''maxDeletedId'', map_option id_json (maxDeletedId s)),
     (''addedEntriesCount'', omit_zero (addedEntriesCount s))]"

section \<open>Objects\<close>

definition base_fields :: "base_object \<Rightarrow> (string \<times> 'v json option) list" where
  "base_fields b = [(''db'', Some (JInt (db b))), (''key'', Some (JStr (obj_key b))),
     (''expiration'', map_option JTime (expiration b)), (''size'', Some (JInt (obj_size b))),
     (''type'', Some (JName (obj_type b))), (''encoding'', Some (JName (obj_encoding b))),
     (''lru'', map_option JInt (idleTime b)), (''lfu'', map_option JInt (freq b))]"

definition zset_entry_json :: "bytes \<times> f64 \<Rightarrow> 'v json" where
  "zset_entry_json = (\<lambda>(m, x). JObj (present [(''member'', Some (JStr m)), (''score'', Some (JFloat x))]))"

definition hash_fields :: "bytes gomap \<Rightarrow> int gomap \<Rightarrow> (string \<times> 'v json option) list" where
  "hash_fields h e =
     (let m = Some (JMap (map (\<lambda>(k, v). (k, JStr v)) h)) in
      if length e = length h then [(''hash'', m), (''expire'', Some (JMap (map (\<lambda>(k, t). (k, JInt t)) e)))]
      else [(''hash'', m)])"

definition string_fields :: "bytes \<Rightarrow> (string \<times> 'v json option) list" where
  "string_fields v = [(''value'', Some (JStr v))]"

definition list_fields :: "bytes list \<Rightarrow> (string \<times> 'v json option) list" where
  "list_fields vs = [(''values'', Some (JArr (map JStr vs)))]"

definition set_fields :: "bytes list \<Rightarrow> (string \<times> 'v json option) list" where
  "set_fields ms = [(''members'', Some (JArr (map JStr ms)))]"

definition zset_fields :: "(bytes \<times> f64) list \<Rightarrow> (string \<times> 'v json option) list" where
  "zset_fields es = [(''entries'', Some (JArr (map zset_entry_json es)))]"

definition aux_fields :: "bytes \<Rightarrow> (string \<times> 'v json option) list" where
  "aux_fields v = [(''value'', Some (JStr v))]"

definition functions_fields :: "bytes \<Rightarrow> (string \<times> 'v json option) list" where
  "functions_fields v = [(''functionsLua'', Some (JStr v))]"

definition dbsize_fields :: "u64 \<Rightarrow> u64 \<Rightarrow> (string \<times> 'v json option) list" where
  "dbsize_fields k t = [(''KeyCount'', Some (JInt (uint k))), (''TTLCount'', Some (JInt (uint t)))]"

definition module_fields :: "string \<Rightarrow> 'v option \<Rightarrow> (string \<times> 'v json option) list" where
  "module_fields t v = [(''moduleType'', Some (JName t)), (''value'', Some (JValue v))]"


fun value_fields :: "'v redis_object \<Rightarrow> (string \<times> 'v json option) list" where
  "value_fields (StringObject b v) = string_fields v"
| "value_fields (ListObject b vs) = list_fields vs"
| "value_fields (HashObject b h e) = hash_fields h e"
| "value_fields (SetObject b ms) = set_fields ms"
| "value_fields (ZSetObject b es) = zset_fields es"
| "value_fields (StreamObject b s) = stream_fields s"
| "value_fields (AuxObject b v) = aux_fields v"
| "value_fields (FunctionsObject b v) = functions_fields v"
| "value_fields (DBSizeObject b k t) = dbsize_fields k t"
| "value_fields (ModuleTypeObject b t v) = module_fields t v"

definition object_tree :: "'v redis_object \<Rightarrow> 'v json" where
  "object_tree obj = JObj (present (base_fields (base_of obj) @ value_fields obj))"

section \<open>The JSON package\<close>

text \<open>
  The length of the UTF-8 character at the head, 0 if there is none, and the string with every byte that belongs to
  none replaced by U+FFFD (\<open>unicode/utf8\<close>).
\<close>

definition continues :: "byte \<Rightarrow> bool" where
  "continues b \<longleftrightarrow> 0x80 \<le> b \<and> b \<le> 0xBF"

fun rune_len :: "bytes \<Rightarrow> nat" where
  "rune_len [] = 0"
| "rune_len (b0 # s) =
     (if b0 < 0x80 then 1
      else if 0xC2 \<le> b0 \<and> b0 \<le> 0xDF then
        (case s of b1 # _ \<Rightarrow> if continues b1 then 2 else 0 | _ \<Rightarrow> 0)
      else if 0xE0 \<le> b0 \<and> b0 \<le> 0xEF then
        (case s of b1 # b2 # _ \<Rightarrow>
           if (if b0 = 0xE0 then 0xA0 else 0x80) \<le> b1 \<and> b1 \<le> (if b0 = 0xED then 0x9F else 0xBF) \<and> continues b2 then 3 else 0
         | _ \<Rightarrow> 0)
      else if 0xF0 \<le> b0 \<and> b0 \<le> 0xF4 then
        (case s of b1 # b2 # b3 # _ \<Rightarrow>
           if (if b0 = 0xF0 then 0x90 else 0x80) \<le> b1 \<and> b1 \<le> (if b0 = 0xF4 then 0x8F else 0xBF) \<and>
             continues b2 \<and> continues b3 then 4 else 0
         | _ \<Rightarrow> 0)
      else 0)"

function to_utf8 :: "bytes \<Rightarrow> bytes" where
  "to_utf8 [] = []"
| "to_utf8 (b # s) =
     (case rune_len (b # s) of
        0 \<Rightarrow> [0xEF, 0xBF, 0xBD] @ to_utf8 s
      | Suc n \<Rightarrow> (b # take n s) @ to_utf8 (drop n s))"
  by pat_completeness auto
termination
  by (relation "measure length") auto

function valid_utf8 :: "bytes \<Rightarrow> bool" where
  "valid_utf8 [] = True"
| "valid_utf8 (b # s) = (case rune_len (b # s) of 0 \<Rightarrow> False | Suc n \<Rightarrow> valid_utf8 (drop n s))"
  by pat_completeness auto
termination
  by (relation "measure length") auto

definition is_finite :: "f64 \<Rightarrow> bool" where
  "is_finite x \<longleftrightarrow> x AND 0x7FF0000000000000 \<noteq> 0x7FF0000000000000"

text \<open>\<open>vj\<close> is the JSON of what a module's handler returned, if it has one.\<close>

fun unsupported :: "('v option \<Rightarrow> 'v json option) \<Rightarrow> 'v json \<Rightarrow> bool" where
  "unsupported vj (JFloat x) \<longleftrightarrow> \<not> is_finite x"
| "unsupported vj (JValue v) \<longleftrightarrow> vj v = None"
| "unsupported vj (JArr xs) \<longleftrightarrow> list_ex (unsupported vj) xs"
| "unsupported vj (JMap m) \<longleftrightarrow> list_ex (\<lambda>(k, x). unsupported vj x) m"
| "unsupported vj (JObj fs) \<longleftrightarrow> list_ex (\<lambda>(k, x). unsupported vj x) fs"
| "unsupported vj _ \<longleftrightarrow> False"

fun json_value :: "('v option \<Rightarrow> 'v json option) \<Rightarrow> 'v json \<Rightarrow> 'v json" where
  "json_value vj (JStr s) = JStr (to_utf8 s)"
| "json_value vj (JValue v) = the (vj v)"
| "json_value vj (JArr xs) = JArr (map (json_value vj) xs)"
| "json_value vj (JMap m) =
     JMap (map (\<lambda>(k, x). (to_utf8 k, x)) (sort_key fst (map (\<lambda>(k, x). (k, json_value vj x)) m)))"
| "json_value vj (JObj fs) = JObj (map (\<lambda>(k, x). (k, json_value vj x)) fs)"
| "json_value vj t = t"

definition json_Marshal :: "('v option \<Rightarrow> 'v json option) \<Rightarrow> 'v json \<Rightarrow> 'v json result" where
  "json_Marshal vj t = (if unsupported vj t then Err (ErrMsg ''json: unsupported value'') else Ok (json_value vj t))"

definition MarshalJSON :: "('v option \<Rightarrow> 'v json option) \<Rightarrow> 'v redis_object \<Rightarrow> 'v json result" where
  "MarshalJSON vj obj = json_Marshal vj (object_tree obj)"

section \<open>What the trees show\<close>

lemma present_simps [simp]:
  "present [] = []"
  "present ((k, x) # xs) = (case x of None \<Rightarrow> present xs | Some y \<Rightarrow> (k, y) # present xs)"
  by (simp_all add: present_def map_filter_simps split: option.splits)




lemma uint_eq [simp]: "uint (a :: u64) = uint b \<longleftrightarrow> a = b"
  by (rule word_uint_eq_iff [symmetric])

lemma omit_inj [simp]:
  "omit_zero m = omit_zero n \<longleftrightarrow> m = n"
  by (auto simp: omit_zero_def)


lemma MarshalText_inj: "MarshalText a = MarshalText b \<longleftrightarrow> a = b"
proof
  have no: "x \<noteq> 45" if "x \<in> set (nat_digits n)" for x :: byte and n
    using nat_digits_digits [OF that] by (auto simp: is_digit_byte_unat)
  assume e: "MarshalText a = MarshalText b"
  have t: "takeWhile (\<lambda>x. x \<noteq> 45) (MarshalText c) = nat_digits (unat (Ms c))" for c
    using no by (simp add: MarshalText_def ascii_def takeWhile_append2)
  with e have ms: "nat_digits (unat (Ms a)) = nat_digits (unat (Ms b))" by metis
  with e have "nat_digits (unat (Sequence a)) = nat_digits (unat (Sequence b))"
    by (simp add: MarshalText_def)
  with ms show "a = b" by (cases a; cases b) (simp add: nat_digits_inj word_unat_eq_iff)
qed simp


lemma id_json_eq [simp]: "id_json a = id_json b \<longleftrightarrow> a = b"
  by (simp add: id_json_def MarshalText_inj)

lemma pairs_inj [simp]: "map (\<lambda>(k, v). (k, JStr v)) xs = map (\<lambda>(k, v). (k, JStr v)) ys \<longleftrightarrow> xs = ys"
  by (rule inj_map_eq_map) (auto simp: inj_def)















lemma only_modules [simp]:
  "present (hash_fields h e) \<noteq> (''moduleType'', y) # zs" "(''moduleType'', y) # zs \<noteq> present (hash_fields h e)"
  "present (stream_fields s) \<noteq> (''moduleType'', y) # zs" "(''moduleType'', y) # zs \<noteq> present (stream_fields s)"
  by (auto simp: hash_fields_def Let_def stream_fields_def split: if_splits option.splits)







section \<open>What the JSON shows\<close>

lemma rune_len_bound: "rune_len s \<le> length s"
  by (cases s) (auto split: list.splits)

lemma valid_to_utf8: "valid_utf8 s \<Longrightarrow> to_utf8 s = s"
proof (induction s rule: to_utf8.induct)
  case (2 b s)
  then obtain n where n: "rune_len (b # s) = Suc n" "valid_utf8 (drop n s)"
    by (auto split: nat.splits)
  from "2.IH"(2) [OF n] n(1) show ?case by simp
qed simp











text \<open>\<open>clean vj t t'\<close>: the package prints \<open>t\<close> as \<open>t'\<close>.\<close>

definition clean :: "('v option \<Rightarrow> 'v json option) \<Rightarrow> 'v json \<Rightarrow> 'v json \<Rightarrow> bool" where
  "clean vj t t' \<longleftrightarrow> \<not> unsupported vj t \<and> json_value vj t = t'"

lemma clean_leaves [simp]:
  "valid_utf8 s \<Longrightarrow> clean vj (JStr s) (JStr s)" "clean vj (JInt n) (JInt n)" "clean vj (JBool c) (JBool c)"
  "clean vj (JName nm) (JName nm)" "clean vj (JTime n) (JTime n)" "is_finite x \<Longrightarrow> clean vj (JFloat x) (JFloat x)"
  by (simp_all add: clean_def valid_to_utf8)



definition clean_field ::
  "('v option \<Rightarrow> 'v json option) \<Rightarrow> string \<times> 'v json option \<Rightarrow> string \<times> 'v json option \<Rightarrow> bool" where
  "clean_field vj f g \<longleftrightarrow> fst f = fst g \<and> rel_option (clean vj) (snd f) (snd g)"


lemma clean_field_simps [simp]:
  "clean_field vj (k, None) (k', None) \<longleftrightarrow> k = k'" "clean_field vj (k, Some t) (k', Some t') \<longleftrightarrow> k = k' \<and> clean vj t t'"
  by (auto simp: clean_field_def)



lemma valid_ascii_bytes: "list_all (\<lambda>b. b < 0x80) s \<Longrightarrow> valid_utf8 s"
  by (induction s) auto

lemma clean_id [simp]: "clean vj (id_json i) (id_json i)"
proof -
  have "b < 0x80" if "b \<in> set (nat_digits n)" for b n
    using nat_digits_digits [OF that] by (auto simp: is_digit_byte_unat word_less_nat_alt)
  then show ?thesis
    by (auto simp: id_json_def MarshalText_def ascii_def list_all_iff intro!: clean_leaves(1) valid_ascii_bytes)
qed













lemma rune_len_take:
  "rune_len (b0 # s) = Suc n \<Longrightarrow> n \<in> {0, 1, 2, 3} \<and> n \<le> length s"
  using rune_len_bound [of "b0 # s"] by (auto split: if_splits list.splits)

lemma rune_len_rest:
  assumes "rune_len (b0 # s) = Suc n"
  shows "rune_len (b0 # take n s @ t) = Suc n"
proof -
  note n = rune_len_take [OF assms]
  have "n = 0 \<or> (n = 1 \<and> (\<exists>b1 r. s = b1 # r)) \<or> (n = 2 \<and> (\<exists>b1 b2 r. s = b1 # b2 # r)) \<or>
      (n = 3 \<and> (\<exists>b1 b2 b3 r. s = b1 # b2 # b3 # r))"
    using n by (auto simp: numeral_eq_Suc Suc_le_length_iff)
  then show ?thesis
  proof (elim disjE conjE exE)
    assume "n = 0"
    moreover from this have "b0 < 0x80" using assms by (simp split: if_splits list.splits)
    ultimately show ?thesis by simp
  next
    fix b1 r assume "n = 1" "s = b1 # r"
    moreover from this have "\<not> b0 < 0x80" "0xC2 \<le> b0 \<and> b0 \<le> 0xDF" "continues b1"
      using assms by (simp_all split: if_splits list.splits)
    ultimately show ?thesis by simp
  next
    fix b1 b2 r assume "n = 2" "s = b1 # b2 # r"
    moreover from this have "\<not> b0 < 0x80" "\<not> (0xC2 \<le> b0 \<and> b0 \<le> 0xDF)" "0xE0 \<le> b0 \<and> b0 \<le> 0xEF"
      using assms by (auto split: if_splits list.splits)
    ultimately show ?thesis using assms by (auto split: if_splits)
  next
    fix b1 b2 b3 r assume "n = 3" "s = b1 # b2 # b3 # r"
    moreover from this have "\<not> b0 < 0x80" "\<not> (0xC2 \<le> b0 \<and> b0 \<le> 0xDF)" "\<not> (0xE0 \<le> b0 \<and> b0 \<le> 0xEF)"
      using assms by (auto split: if_splits)
    ultimately show ?thesis using assms by (auto split: if_splits)
  qed
qed

lemma valid_to_utf8_always: "valid_utf8 (to_utf8 s)"
proof (induction s rule: to_utf8.induct)
  case (2 b s)
  show ?case
  proof (cases "rune_len (b # s)")
    case 0
    with "2.IH"(1) show ?thesis by (simp del: rune_len.simps) (simp add: continues_def)
  next
    case (Suc n)
    from rune_len_rest [OF Suc, of "to_utf8 (drop n s)"] rune_len_take [OF Suc] "2.IH"(2) [OF Suc] Suc show ?thesis
      by (simp del: rune_len.simps)
  qed
qed simp

text \<open>Text that is not UTF-8 is lost: its JSON is that of another text.\<close>

lemma not_utf8_lost: "MarshalJSON vj (StringObject b s) = MarshalJSON vj (StringObject b (to_utf8 s))"
  by (simp add: MarshalJSON_def json_Marshal_def object_tree_def base_fields_def string_fields_def
      valid_to_utf8 [OF valid_to_utf8_always] split: option.splits)




end
