(* ===== verification/JsonPipe.thy ===== *)
theory JsonPipe
  imports Reports
begin

text \<open>
  The conversion to JSON of \<open>helper/json.go\<close>: a parser, some marshallers and a writer run concurrently and hand
  objects and texts on through two buffered channels, while the main function waits for them. The state holds
  what each of them has still to do, what is in the channels, and the variables they share: \<open>empty\<close>, and \<open>err\<close>, to which the
  parser, the writer and the main function assign and which the last two test. The step relation interleaves them; a step
  is one access to something shared. Assignments to \<open>err\<close> are taken to be atomic (the language promises less: this is a data race).
  Marshalling (package \<open>sonic\<close>) is an argument that may fail; writing to the file does not.
\<close>

section \<open>State and steps\<close>

datatype worker = Receiving | Sending bytes | Done

datatype writer_pos = WReceiving | WTesting | WDone

text \<open>
  The main function waits for the marshallers, then for the writer; it tests \<open>err\<close> after \<open>Seek\<close>, writes the end of the array
  (over the last two bytes after a \<open>Seek\<close>), tests \<open>err\<close>, and has returned an error or nil.
\<close>

datatype main_pos = AtMarshallers | AtWriter | AtSeekTest | AtEnd bool | AtEndTest | Returned bool

record 'o pipe =
  to_parse :: "'o list"
  parse_fails :: bool  \<comment> \<open>what \<open>Parse\<close> will return\<close>
  parse_returned :: bool
  objs_closed :: bool
  shared_err :: bool  \<comment> \<open>\<open>err != nil\<close>\<close>
  objBuffer :: "'o list"
  workers :: "worker list"
  textBuffer :: "bytes list"
  texts_closed :: bool
  writer :: writer_pos
  json_file :: bytes
  json_empty :: bool
  main_at :: main_pos

definition WithConcurrent :: "int \<Rightarrow> helper_option" where
  "WithConcurrent c = ConcurrentOption c"

definition json_sep :: bytes where "json_sep = [44, 10]"

text \<open>The main function up to the point where it waits for the marshallers.\<close>

definition pipe_start :: "nat \<Rightarrow> 'o list \<Rightarrow> bool \<Rightarrow> 'o pipe" where
  "pipe_start concurrent objs fails =
     \<lparr>to_parse = objs, parse_fails = fails, parse_returned = False, objs_closed = False, shared_err = False,
      objBuffer = [], workers = replicate concurrent Receiving, textBuffer = [], texts_closed = False,
      writer = WReceiving, json_file = [91, 10], json_empty = True, main_at = AtMarshallers\<rparr>"

text \<open>\<open>jsonFile.Seek(-2, 2)\<close> unless nothing was written, and then the end of the array over what follows.\<close>

definition finish_file :: "bool \<Rightarrow> bytes \<Rightarrow> bytes" where
  "finish_file nothing file = (if nothing then file else take (length file - 2) file) @ [10, 93]"

definition received :: "('o \<Rightarrow> bytes option) \<Rightarrow> 'o \<Rightarrow> worker" where
  "received marshal obj = (case marshal obj of None \<Rightarrow> Receiving | Some data \<Rightarrow> Sending data)"

inductive pipe_step :: "('o \<Rightarrow> bytes option) \<Rightarrow> nat \<Rightarrow> 'o pipe \<Rightarrow> 'o pipe \<Rightarrow> bool"
  for marshal :: "'o \<Rightarrow> bytes option" and cap :: nat where
  parser_sends: "to_parse s = obj # rest \<Longrightarrow> length (objBuffer s) < cap \<Longrightarrow>
    pipe_step marshal cap s (s\<lparr>to_parse := rest, objBuffer := objBuffer s @ [obj]\<rparr>)"
| parser_returns: "to_parse s = [] \<Longrightarrow> \<not> parse_returned s \<Longrightarrow>
    pipe_step marshal cap s (s\<lparr>parse_returned := True, shared_err := parse_fails s\<rparr>)"
| parser_closes: "parse_returned s \<Longrightarrow> \<not> objs_closed s \<Longrightarrow> pipe_step marshal cap s (s\<lparr>objs_closed := True\<rparr>)"
| worker_receives: "workers s = ws1 @ Receiving # ws2 \<Longrightarrow> objBuffer s = obj # rest \<Longrightarrow>
    pipe_step marshal cap s (s\<lparr>objBuffer := rest, workers := ws1 @ received marshal obj # ws2\<rparr>)"
| worker_sends: "workers s = ws1 @ Sending data # ws2 \<Longrightarrow> length (textBuffer s) < cap \<Longrightarrow>
    pipe_step marshal cap s (s\<lparr>workers := ws1 @ Receiving # ws2, textBuffer := textBuffer s @ [data]\<rparr>)"
| worker_ends: "workers s = ws1 @ Receiving # ws2 \<Longrightarrow> objBuffer s = [] \<Longrightarrow> objs_closed s \<Longrightarrow>
    pipe_step marshal cap s (s\<lparr>workers := ws1 @ Done # ws2\<rparr>)"
| writer_writes: "textBuffer s = data # rest \<Longrightarrow> writer s = WReceiving \<Longrightarrow>
    pipe_step marshal cap s (s\<lparr>textBuffer := rest, json_file := json_file s @ data @ json_sep, shared_err := False,
      writer := WTesting\<rparr>)"
| writer_tests: "writer s = WTesting \<Longrightarrow>
    pipe_step marshal cap s (s\<lparr>json_empty := json_empty s \<and> shared_err s, writer := WReceiving\<rparr>)"
| writer_ends: "textBuffer s = [] \<Longrightarrow> texts_closed s \<Longrightarrow> writer s = WReceiving \<Longrightarrow>
    pipe_step marshal cap s (s\<lparr>writer := WDone\<rparr>)"
| main_closes: "set (workers s) \<subseteq> {Done} \<Longrightarrow> main_at s = AtMarshallers \<Longrightarrow>
    pipe_step marshal cap s (s\<lparr>texts_closed := True, main_at := AtWriter\<rparr>)"
| main_skips_seek: "writer s = WDone \<Longrightarrow> main_at s = AtWriter \<Longrightarrow> json_empty s \<Longrightarrow>
    pipe_step marshal cap s (s\<lparr>main_at := AtEnd False\<rparr>)"
| main_seeks: "writer s = WDone \<Longrightarrow> main_at s = AtWriter \<Longrightarrow> \<not> json_empty s \<Longrightarrow>
    pipe_step marshal cap s (s\<lparr>shared_err := False, main_at := AtSeekTest\<rparr>)"
| main_tests_seek: "main_at s = AtSeekTest \<Longrightarrow>
    pipe_step marshal cap s (s\<lparr>main_at := if shared_err s then Returned True else AtEnd True\<rparr>)"
| main_writes_end: "main_at s = AtEnd sought \<Longrightarrow>
    pipe_step marshal cap s (s\<lparr>json_file := finish_file (\<not> sought) (json_file s), shared_err := False, main_at := AtEndTest\<rparr>)"
| main_tests_end: "main_at s = AtEndTest \<Longrightarrow>
    pipe_step marshal cap s (s\<lparr>main_at := Returned (shared_err s)\<rparr>)"

inductive_cases pipe_stepE: "pipe_step marshal cap s s'"

text \<open>
  \<open>ToJsons\<close> up to its goroutines: the number of marshallers, and the objects that the parser will send, all those
  delivered until \<open>Parse\<close> returns, with an error or without; and which of the two. A negative number makes \<open>wg.Add\<close> panic.
\<close>

definition concurrency :: "int \<Rightarrow> helper_option list \<Rightarrow> int" where
  "concurrency cpuNum options =
     foldl (\<lambda>c opt. case opt of ConcurrentOption n \<Rightarrow> n | _ \<Rightarrow> c) (if 1 < cpuNum then cpuNum - 1 else 1) options"

definition ToJsons ::
  "int \<Rightarrow> 'v env \<Rightarrow> bytes \<Rightarrow> bytes \<Rightarrow> helper_option list \<Rightarrow> 'v redis_object pipe result" where
  "ToJsons cpuNum env rdbFilename jsonFilename options =
     (if rdbFilename = [] then Err (ErrMsg ''src file path is required'')
      else if jsonFilename = [] then Err (ErrMsg ''output file path is required'')
      else if env_open env rdbFilename \<noteq> None \<and> \<not> env_create env jsonFilename then
        Err (ErrMsg ''create json failed'')
      else
        rbind (open_wrapped env rdbFilename options) (\<lambda>dec.
        let concurrent = concurrency cpuNum options in
        if concurrent < 0 then Panic (PanicValue ''sync: negative WaitGroup counter'')
        else Ok (pipe_start (nat concurrent) (snd (delivered_to env dec)) (fst (delivered_to env dec) \<noteq> Ok ()))))"

definition buffer_cap :: nat where "buffer_cap = 1000"

section \<open>Invariant\<close>

definition texts :: "('o \<Rightarrow> bytes option) \<Rightarrow> 'o list \<Rightarrow> bytes list" where
  "texts marshal objs = List.map_filter marshal objs"

fun held :: "worker \<Rightarrow> bytes list" where
  "held (Sending data) = [data]"
| "held _ = []"

definition pending :: "('o \<Rightarrow> bytes option) \<Rightarrow> 'o pipe \<Rightarrow> bytes multiset" where
  "pending marshal s = mset (texts marshal (to_parse s)) + mset (texts marshal (objBuffer s)) +
     mset (concat (map held (workers s))) + mset (textBuffer s)"

definition file_of :: "bytes list \<Rightarrow> bytes" where
  "file_of ds = [91, 10] @ concat (map (\<lambda>d. d @ json_sep) ds)"

text \<open>The file when it is finished: the texts in an array, one on a line.\<close>

definition json_text :: "bytes list \<Rightarrow> bytes" where
  "json_text ds = [91, 10] @ Join ds json_sep @ [10, 93]"

definition finished :: "'o pipe \<Rightarrow> bool" where
  "finished s \<longleftrightarrow> main_at s \<in> {Returned True, Returned False}"

definition control_ok :: "nat \<Rightarrow> 'o pipe \<Rightarrow> bool" where
  "control_ok n s \<longleftrightarrow> length (workers s) = n \<and> (parse_returned s \<longrightarrow> to_parse s = []) \<and>
     (objs_closed s \<longrightarrow> parse_returned s) \<and> (Done \<in> set (workers s) \<longrightarrow> objs_closed s \<and> objBuffer s = []) \<and>
     (texts_closed s \<longleftrightarrow> main_at s \<noteq> AtMarshallers) \<and> (texts_closed s \<longrightarrow> set (workers s) \<subseteq> {Done}) \<and>
     (writer s = WDone \<longrightarrow> texts_closed s \<and> textBuffer s = []) \<and>
     (main_at s \<notin> {AtMarshallers, AtWriter} \<longrightarrow> writer s = WDone)"

text \<open>
  Only the parser makes \<open>err\<close> an error, and only once; with a marshaller it has done so before the main function looks at \<open>err\<close>.
\<close>

definition err_ok :: "'o pipe \<Rightarrow> bool" where
  "err_ok s \<longleftrightarrow> (shared_err s \<longrightarrow> parse_fails s \<and> parse_returned s) \<and>
     (main_at s \<in> {AtSeekTest, AtEndTest} \<longrightarrow> \<not> shared_err s) \<and> main_at s \<noteq> Returned True"

text \<open>
  \<open>ds\<close> are the texts written. The writer leaves \<open>empty\<close> as it is when it finds the parser's error, which the next \<open>Write\<close>
  removes for good.
\<close>

definition empty_ok :: "bytes list \<Rightarrow> 'o pipe \<Rightarrow> bool" where
  "empty_ok ds s \<longleftrightarrow> (\<not> json_empty s \<longrightarrow> ds \<noteq> []) \<and>
     (json_empty s \<and> writer s \<noteq> WTesting \<longrightarrow> ds = [] \<or> length ds = 1 \<and> parse_fails s \<and> parse_returned s) \<and>
     (writer s = WTesting \<longrightarrow> ds \<noteq> []) \<and>
     (json_empty s \<and> writer s = WTesting \<longrightarrow>
        length ds = 1 \<or> length ds = 2 \<and> parse_fails s \<and> parse_returned s \<and> \<not> shared_err s) \<and>
     (main_at s \<in> {AtSeekTest, AtEnd True} \<longrightarrow> \<not> json_empty s) \<and> (main_at s = AtEnd False \<longrightarrow> json_empty s)"

definition data_ok :: "('o \<Rightarrow> bytes option) \<Rightarrow> 'o list \<Rightarrow> bytes list \<Rightarrow> 'o pipe \<Rightarrow> bool" where
  "data_ok marshal objs ds s \<longleftrightarrow>
     json_file s = (if main_at s = AtEndTest \<or> finished s then finish_file (json_empty s) (file_of ds) else file_of ds) \<and>
     mset ds + pending marshal s = mset (texts marshal objs)"

definition pipe_ok :: "('o \<Rightarrow> bytes option) \<Rightarrow> 'o list \<Rightarrow> nat \<Rightarrow> 'o pipe \<Rightarrow> bool" where
  "pipe_ok marshal objs n s \<longleftrightarrow> control_ok n s \<and> err_ok s \<and> (\<exists>ds. empty_ok ds s \<and> data_ok marshal objs ds s)"

lemma texts_simps [simp]:
  "texts marshal [] = []"
  "texts marshal (x # xs) = held (received marshal x) @ texts marshal xs"
  "texts marshal (xs @ ys) = texts marshal xs @ texts marshal ys"
proof -
  show "texts marshal [] = []" by (simp add: texts_def)
  show c: "texts marshal (x # xs) = held (received marshal x) @ texts marshal xs" for x xs
    by (simp add: texts_def map_filter_simps received_def split: option.splits)
  show "texts marshal (xs @ ys) = texts marshal xs @ texts marshal ys"
    by (induction xs) (simp_all add: c, simp add: texts_def)
qed

lemma received_not_Done [simp]: "received marshal obj \<noteq> Done" "Done \<noteq> received marshal obj"
  by (simp_all add: received_def split: option.splits)

lemma concat_sep: "ds \<noteq> [] \<Longrightarrow> concat (map (\<lambda>d. d @ sep) ds) = Join ds sep @ sep"
  by (induction ds rule: induct_list012) auto

lemma finish_file_of: "ds \<noteq> [] \<Longrightarrow> finish_file False (file_of ds) = json_text ds"
  by (simp add: finish_file_def file_of_def json_text_def concat_sep json_sep_def)

lemma pipe_ok_start: "pipe_ok marshal objs n (pipe_start n objs fails)"
proof -
  have "concat (map held (replicate n Receiving)) = []" by (induction n) simp_all
  then have "data_ok marshal objs [] (pipe_start n objs fails)"
    by (simp add: data_ok_def pipe_start_def pending_def file_of_def finished_def)
  moreover have "control_ok n (pipe_start n objs fails)" by (auto simp: control_ok_def pipe_start_def)
  moreover have "err_ok (pipe_start n objs fails)" "empty_ok [] (pipe_start n objs fails)"
    by (simp_all add: err_ok_def empty_ok_def pipe_start_def)
  ultimately show ?thesis unfolding pipe_ok_def by blast
qed

lemma control_ok_step:
  assumes "pipe_step marshal cap s s'" and "control_ok n s"
  shows "control_ok n s'"
  using assms by (cases rule: pipe_step.cases) (auto simp: control_ok_def split: if_splits)

lemma all_done:
  assumes "control_ok n s" and "0 < n" and "main_at s \<noteq> AtMarshallers"
  shows "Done \<in> set (workers s)" "objs_closed s" "parse_returned s" "objBuffer s = []" "to_parse s = []"
    "set (workers s) \<subseteq> {Done}"
proof -
  have "workers s \<noteq> []" "set (workers s) \<subseteq> {Done}" using assms by (auto simp: control_ok_def)
  then show "Done \<in> set (workers s)" "set (workers s) \<subseteq> {Done}" by (cases "workers s"; auto)+
  then show "objs_closed s" "parse_returned s" "objBuffer s = []" "to_parse s = []"
    using assms(1) by (auto simp: control_ok_def)
qed

lemma err_ok_step:
  assumes "pipe_step marshal cap s s'" and "control_ok n s" and "0 < n" and "err_ok s"
  shows "err_ok s'"
proof -
  have "main_at s = AtSeekTest \<or> main_at s = AtEndTest \<longrightarrow> parse_returned s"
    using all_done(3) [OF assms(2,3)] by auto
  with assms(1,4) show ?thesis
    by (cases rule: pipe_step.cases) (simp_all add: err_ok_def)
qed

text \<open>Of the texts that are pending, a step writes one or hands something on.\<close>

lemma pending_step:
  assumes "pipe_step marshal cap s s'"
  shows "(\<exists>d rest. textBuffer s = d # rest \<and> writer s = WReceiving \<and> pending marshal s = add_mset d (pending marshal s') \<and>
      s' = s\<lparr>textBuffer := rest, json_file := json_file s @ d @ json_sep, shared_err := False, writer := WTesting\<rparr>) \<or>
    pending marshal s' = pending marshal s \<and> (writer s = WReceiving \<longrightarrow> writer s' \<noteq> WTesting)"
  using assms by (cases rule: pipe_step.cases) (simp_all add: pending_def ac_simps)

lemma writer_before_end: "control_ok n s \<Longrightarrow> writer s \<noteq> WDone \<Longrightarrow> main_at s = AtMarshallers \<or> main_at s = AtWriter"
  unfolding control_ok_def by blast

lemma empty_ok_test:
  assumes "writer s = WTesting" and "control_ok n s" and "err_ok s" and "empty_ok ds s"
  shows "empty_ok ds (s\<lparr>json_empty := json_empty s \<and> shared_err s, writer := WReceiving\<rparr>)"
proof -
  have "main_at s = AtMarshallers \<or> main_at s = AtWriter" using writer_before_end [OF assms(2)] assms(1) by simp
  moreover have "shared_err s \<longrightarrow> parse_fails s \<and> parse_returned s" using assms(3) by (simp add: err_ok_def)
  ultimately show ?thesis using assms(1,4) by (elim disjE) (auto simp: empty_ok_def)
qed

lemma empty_ok_step:
  assumes "pipe_step marshal cap s s'" and w: "writer s = WReceiving \<longrightarrow> writer s' \<noteq> WTesting" and c: "control_ok n s"
    and e: "err_ok s" and ok: "empty_ok ds s"
  shows "empty_ok ds s'"
  using assms(1)
proof (cases rule: pipe_step.cases)
  case writer_tests
  then show ?thesis using empty_ok_test c e ok by simp
next
  case main_tests_seek
  then show ?thesis using e ok by (simp add: empty_ok_def err_ok_def)
next
  case (main_writes_end sought)
  then have "writer s = WDone" using writer_before_end [OF c] by auto
  with main_writes_end show ?thesis using ok by (simp add: empty_ok_def)
qed (use w ok in \<open>simp_all add: empty_ok_def\<close>)

lemma file_step:
  assumes "pipe_step marshal cap s s'" and w: "writer s = WReceiving \<longrightarrow> writer s' \<noteq> WTesting" and c: "control_ok n s"
    and ok: "empty_ok ds s" and e: "err_ok s'"
    and content: "json_file s = (if main_at s = AtEndTest \<or> finished s then finish_file (json_empty s) (file_of ds) else file_of ds)"
  shows "json_file s' = (if main_at s' = AtEndTest \<or> finished s' then finish_file (json_empty s') (file_of ds) else file_of ds)"
  using assms(1)
proof (cases rule: pipe_step.cases)
  case writer_tests
  then have "main_at s = AtMarshallers \<or> main_at s = AtWriter" using writer_before_end [OF c] by simp
  with writer_tests content show ?thesis by (elim disjE) (simp_all add: finished_def)
next
  case (main_writes_end sought)
  then have "sought = (\<not> json_empty s)" using ok by (cases sought) (simp_all add: empty_ok_def)
  with main_writes_end content show ?thesis by (simp add: finished_def)
next
  case main_tests_seek
  then show ?thesis using e content by (simp add: finished_def err_ok_def split: if_splits)
qed (use w content in \<open>simp_all add: finished_def\<close>)

lemma pipe_ok_step:
  assumes step: "pipe_step marshal cap s s'" and n: "0 < n" and ok: "pipe_ok marshal objs n s"
  shows "pipe_ok marshal objs n s'"
proof -
  obtain ds where ds: "control_ok n s" "err_ok s" "empty_ok ds s" "data_ok marshal objs ds s"
    using ok by (auto simp: pipe_ok_def)
  note c = control_ok_step [OF step ds(1)] and e = err_ok_step [OF step ds(1) n ds(2)]
  show ?thesis
  proof (cases "writer s = WReceiving \<and> writer s' = WTesting")
    case True
    then obtain d rest where d: "textBuffer s = d # rest" "pending marshal s = add_mset d (pending marshal s')"
      "s' = s\<lparr>textBuffer := rest, json_file := json_file s @ d @ json_sep, shared_err := False, writer := WTesting\<rparr>"
      using pending_step [OF step] by auto
    have "main_at s \<noteq> AtEndTest" "\<not> finished s" using True ds(1) by (auto simp: control_ok_def finished_def)
    then have "json_file s' = file_of (ds @ [d])" "main_at s' \<noteq> AtEndTest" "\<not> finished s'"
      using ds(4) by (simp_all add: data_ok_def d(3) finished_def file_of_def)
    moreover have "mset (ds @ [d]) + pending marshal s' = mset (texts marshal objs)"
      using ds(4) d(2) by (simp add: data_ok_def)
    ultimately have "data_ok marshal objs (ds @ [d]) s'" by (simp add: data_ok_def)
    moreover have "empty_ok (ds @ [d]) s'"
      using ds(1,3) True by (auto simp: empty_ok_def d(3) control_ok_def)
    ultimately show ?thesis using c e unfolding pipe_ok_def by blast
  next
    case False
    then have w: "writer s = WReceiving \<longrightarrow> writer s' \<noteq> WTesting" by blast
    have "pending marshal s' = pending marshal s" using pending_step [OF step] w by auto
    then have "data_ok marshal objs ds s'"
      using ds(4) file_step [OF step w ds(1,3) e] by (simp add: data_ok_def)
    with empty_ok_step [OF step w ds(1,2,3)] c e show ?thesis unfolding pipe_ok_def by blast
  qed
qed

lemma pipe_ok_reachable:
  "(pipe_step marshal cap)\<^sup>*\<^sup>* (pipe_start n objs fails) s \<Longrightarrow> 0 < n \<Longrightarrow> pipe_ok marshal objs n s"
  by (induction rule: rtranclp_induct) (auto intro: pipe_ok_start pipe_ok_step)

section \<open>Progress\<close>

fun worker_weight :: "worker \<Rightarrow> nat" where
  "worker_weight Receiving = 1"
| "worker_weight (Sending data) = 4"
| "worker_weight Done = 0"

fun writer_weight :: "writer_pos \<Rightarrow> nat" where
  "writer_weight WTesting = 2"
| "writer_weight WReceiving = 1"
| "writer_weight WDone = 0"

fun main_weight :: "main_pos \<Rightarrow> nat" where
  "main_weight AtMarshallers = 5"
| "main_weight AtWriter = 4"
| "main_weight AtSeekTest = 3"
| "main_weight (AtEnd sought) = 2"
| "main_weight AtEndTest = 1"
| "main_weight (Returned failed) = 0"

definition pipe_measure :: "'o pipe \<Rightarrow> nat" where
  "pipe_measure s = 5 * length (to_parse s) + 4 * length (objBuffer s) + sum_list (map worker_weight (workers s)) +
     2 * length (textBuffer s) + of_bool (\<not> parse_returned s) + of_bool (\<not> objs_closed s) + writer_weight (writer s) +
     main_weight (main_at s)"

lemma pipe_step_measure: "pipe_step marshal cap s s' \<Longrightarrow> pipe_measure s' < pipe_measure s"
  by (cases rule: pipe_step.cases, assumption)
    (simp_all add: pipe_measure_def received_def split: option.splits)

text \<open>As long as it is not finished, some goroutine can go on.\<close>

lemma pipe_progress:
  assumes ok: "control_ok n s" and n: "0 < n" and cap: "0 < cap" and unfinished: "\<not> finished s"
  shows "\<exists>s'. pipe_step marshal cap s s'"
proof (rule ccontr)
  assume stuck: "\<nexists>s'. pipe_step marshal cap s s'"
  then have no: "\<not> pipe_step marshal cap s s'" for s' by blast
  have pos: "main_at s = AtMarshallers \<or> main_at s = AtWriter \<and> writer s \<noteq> WDone"
  proof (cases "main_at s")
    case AtWriter
    then show ?thesis using no main_seeks [of s] main_skips_seek [of s] by blast
  next
    case AtSeekTest
    then show ?thesis using no main_tests_seek [of s] by blast
  next
    case (AtEnd sought)
    then show ?thesis using no main_writes_end [of s] by blast
  next
    case AtEndTest
    then show ?thesis using no main_tests_end [of s] by blast
  next
    case (Returned failed)
    then show ?thesis using unfinished by (cases failed) (simp_all add: finished_def)
  qed simp
  then have "writer s \<noteq> WDone" using ok by (auto simp: control_ok_def)
  then have w: "writer s = WReceiving" using no writer_tests [of s] by (cases "writer s") blast+
  then have t: "textBuffer s = []" using no writer_writes [of s] by (cases "textBuffer s") blast+
  have "\<not> texts_closed s" using no writer_ends [of s] t w by blast
  then have "main_at s = AtMarshallers" using ok by (simp add: control_ok_def)
  then have "\<not> set (workers s) \<subseteq> {Done}" using no main_closes [of s] by blast
  then obtain x where x: "x \<in> set (workers s)" "x \<noteq> Done" by blast
  then obtain ws1 ws2 where ws: "workers s = ws1 @ x # ws2" by (meson split_list)
  have "x = Receiving"
  proof (cases x)
    case (Sending data)
    then show ?thesis using no worker_sends [of s ws1 data ws2 cap marshal] ws t cap by auto
  qed (use x in simp_all)
  then have b: "objBuffer s = []" using no worker_receives [of s ws1 ws2] ws by (cases "objBuffer s") blast+
  have "\<not> objs_closed s" using no worker_ends [of s ws1 ws2] ws b \<open>x = Receiving\<close> by blast
  then have "\<not> parse_returned s" using no parser_closes [of s] by blast
  then show False
    using no parser_returns [of s] parser_sends [of s _ _ cap marshal] b cap by (cases "to_parse s") auto
qed

lemma pipe_can_finish:
  assumes "0 < n" and "0 < cap" and "control_ok n s"
  shows "\<exists>s'. (pipe_step marshal cap)\<^sup>*\<^sup>* s s' \<and> finished s'"
  using assms(3)
proof (induction "pipe_measure s" arbitrary: s rule: less_induct)
  case less
  show ?case
  proof (cases "finished s")
    case False
    then obtain s1 where s1: "pipe_step marshal cap s s1"
      using pipe_progress [OF less(2) assms(1,2)] by blast
    with less(1) [OF pipe_step_measure [OF s1] control_ok_step [OF s1 less(2)]] show ?thesis
      by (meson converse_rtranclp_into_rtranclp)
  qed blast
qed

text \<open>Without a marshaller the main function does not wait for anything, and the objects are lost.\<close>

lemma no_marshaller:
  "\<exists>s. (pipe_step marshal cap)\<^sup>*\<^sup>* (pipe_start 0 objs fails) s \<and> main_at s = Returned False \<and> json_file s = json_text []"
proof -
  let ?s0 = "pipe_start 0 objs fails"
  let ?s1 = "?s0\<lparr>texts_closed := True, main_at := AtWriter\<rparr>"
  let ?s2 = "?s1\<lparr>writer := WDone\<rparr>"
  let ?s3 = "?s2\<lparr>main_at := AtEnd False\<rparr>"
  let ?s4 = "?s3\<lparr>json_file := finish_file (\<not> False) (json_file ?s3), shared_err := False, main_at := AtEndTest\<rparr>"
  let ?s5 = "?s4\<lparr>main_at := Returned (shared_err ?s4)\<rparr>"
  have "pipe_step marshal cap ?s0 ?s1" by (rule main_closes) (simp_all add: pipe_start_def)
  moreover have "pipe_step marshal cap ?s1 ?s2" by (rule writer_ends) (simp_all add: pipe_start_def)
  moreover have "pipe_step marshal cap ?s2 ?s3" using main_skips_seek [of ?s2 marshal cap] by (simp add: pipe_start_def)
  moreover have "pipe_step marshal cap ?s3 ?s4" by (rule main_writes_end) simp
  moreover have "pipe_step marshal cap ?s4 ?s5" by (rule main_tests_end) simp
  ultimately have "(pipe_step marshal cap)\<^sup>*\<^sup>* ?s0 ?s5" by (meson rtranclp.intros)
  moreover have "main_at ?s5 = Returned False \<and> json_file ?s5 = json_text []"
    by (simp add: pipe_start_def finish_file_def json_text_def)
  ultimately show ?thesis by blast
qed

text \<open>
  C2. What the conversion leaves, however the goroutines are scheduled, with at least one marshaller: every text of an object that
  could be marshalled is written exactly once, in some order, and nil is returned, whether the parser failed or not. The
  file is the array of these texts, with one exception: when the parser fails and there is a single text, the writer may
  find the parser's error in the variable they share, and the comma behind the text is left in the file.
\<close>

theorem json_file_complete:
  assumes "(pipe_step marshal cap)\<^sup>*\<^sup>* (pipe_start concurrent objs fails) s" and "finished s" and "0 < concurrent"
  shows "\<exists>ds. mset ds = mset (texts marshal objs) \<and> main_at s = Returned False \<and>
    (json_file s = json_text ds \<or> fails \<and> length ds = 1 \<and> json_file s = file_of ds @ [10, 93])"
proof -
  obtain ds where ok: "control_ok concurrent s" "err_ok s" "empty_ok ds s" "data_ok marshal objs ds s"
    using pipe_ok_reachable [OF assms(1,3)] by (auto simp: pipe_ok_def)
  have at: "main_at s \<noteq> AtMarshallers" "writer s = WDone" "textBuffer s = []"
    using ok(1) assms(2) by (auto simp: control_ok_def finished_def)
  note al = all_done [OF ok(1) assms(3) at(1)]
  have "concat (map held ws) = []" if "set ws \<subseteq> {Done}" for ws
    using that by (induction ws) auto
  then have "pending marshal s = {#}" using al at by (simp add: pending_def)
  then have m: "mset ds = mset (texts marshal objs)" using ok(4) by (simp add: data_ok_def)
  have f: "parse_fails s = fails"
    using assms(1) by (induction rule: rtranclp_induct) (auto simp: pipe_start_def elim!: pipe_stepE)
  have j: "json_file s = finish_file (json_empty s) (file_of ds)" using ok(4) assms(2) by (simp add: data_ok_def)
  have "json_file s = json_text ds \<or> fails \<and> length ds = 1 \<and> json_file s = file_of ds @ [10, 93]"
  proof (cases "json_empty s")
    case True
    then have "ds = [] \<or> length ds = 1 \<and> fails" using ok(3) at(2) f by (auto simp: empty_ok_def)
    then show ?thesis using j True by (auto simp: finish_file_def file_of_def json_text_def)
  next
    case False
    then show ?thesis using j ok(3) finish_file_of by (simp add: empty_ok_def)
  qed
  moreover have "main_at s = Returned False" using ok(2) assms(2) by (auto simp: err_ok_def finished_def)
  ultimately show ?thesis using m by blast
qed

theorem json_file_complete_witness:
  "\<exists>s. (pipe_step (\<lambda>n. if n = 1 then None else Some [n]) buffer_cap)\<^sup>*\<^sup>* (pipe_start 2 [0, 1, 2] True) s \<and> finished s \<and>
    (\<exists>ds. mset ds = mset (texts (\<lambda>n. if n = 1 then None else Some [n]) [0, 1, 2]) \<and> main_at s = Returned False \<and>
      (json_file s = json_text ds \<or> True \<and> length ds = 1 \<and> json_file s = file_of ds @ [10, 93]))"
proof -
  have "control_ok 2 (pipe_start 2 [0, 1, 2 :: byte] True)" using pipe_ok_start pipe_ok_def by metis
  then obtain s where "(pipe_step (\<lambda>n. if n = 1 then None else Some [n]) buffer_cap)\<^sup>*\<^sup>* (pipe_start 2 [0, 1, 2] True) s"
    "finished s"
    using pipe_can_finish [of 2 buffer_cap] by (auto simp: buffer_cap_def)
  with json_file_complete [OF this] show ?thesis by auto
qed

text \<open>The exception does occur: the parser returns its error between the writer's \<open>Write\<close> and its test.\<close>

lemma lone_text_comma:
  "\<exists>s. (pipe_step Some buffer_cap)\<^sup>*\<^sup>* (pipe_start 1 [d] True) s \<and> main_at s = Returned False \<and>
    json_file s = file_of [d] @ [10, 93]"
proof -
  let ?R = "pipe_step Some buffer_cap"
  let ?s0 = "pipe_start 1 [d] True"
  let ?s1 = "?s0\<lparr>to_parse := [], objBuffer := [d]\<rparr>"
  let ?s2 = "?s1\<lparr>objBuffer := [], workers := [Sending d]\<rparr>"
  let ?s3 = "?s2\<lparr>workers := [Receiving], textBuffer := [d]\<rparr>"
  let ?s4 = "?s3\<lparr>textBuffer := [], json_file := file_of [d], shared_err := False, writer := WTesting\<rparr>"
  let ?s5 = "?s4\<lparr>parse_returned := True, shared_err := True\<rparr>"
  let ?s6 = "?s5\<lparr>json_empty := True, writer := WReceiving\<rparr>"
  let ?s7 = "?s6\<lparr>objs_closed := True\<rparr>"
  let ?s8 = "?s7\<lparr>workers := [Done]\<rparr>"
  let ?s9 = "?s8\<lparr>texts_closed := True, main_at := AtWriter\<rparr>"
  let ?s10 = "?s9\<lparr>writer := WDone\<rparr>"
  let ?s11 = "?s10\<lparr>main_at := AtEnd False\<rparr>"
  let ?s12 = "?s11\<lparr>json_file := file_of [d] @ [10, 93], shared_err := False, main_at := AtEndTest\<rparr>"
  let ?s13 = "?s12\<lparr>main_at := Returned False\<rparr>"
  note defs = pipe_start_def buffer_cap_def received_def file_of_def finish_file_def
  have "?R ?s0 ?s1" using parser_sends [of ?s0 d "[]" buffer_cap Some] by (simp add: defs)
  moreover have "?R ?s1 ?s2" using worker_receives [of ?s1 "[]" "[]" d "[]" Some buffer_cap] by (simp add: defs)
  moreover have "?R ?s2 ?s3" using worker_sends [of ?s2 "[]" d "[]" buffer_cap Some] by (simp add: defs)
  moreover have "?R ?s3 ?s4" using writer_writes [of ?s3 d "[]" Some buffer_cap] by (simp add: defs)
  moreover have "?R ?s4 ?s5" using parser_returns [of ?s4 Some buffer_cap] by (simp add: defs)
  moreover have "?R ?s5 ?s6" using writer_tests [of ?s5 Some buffer_cap] by (simp add: defs)
  moreover have "?R ?s6 ?s7" using parser_closes [of ?s6 Some buffer_cap] by (simp add: defs)
  moreover have "?R ?s7 ?s8" using worker_ends [of ?s7 "[]" "[]" Some buffer_cap] by (simp add: defs)
  moreover have "?R ?s8 ?s9" using main_closes [of ?s8 Some buffer_cap] by (simp add: defs)
  moreover have "?R ?s9 ?s10" using writer_ends [of ?s9 Some buffer_cap] by (simp add: defs)
  moreover have "?R ?s10 ?s11" using main_skips_seek [of ?s10 Some buffer_cap] by (simp add: defs)
  moreover have "?R ?s11 ?s12" using main_writes_end [of ?s11 False Some buffer_cap] by (simp add: defs)
  moreover have "?R ?s12 ?s13" using main_tests_end [of ?s12 Some buffer_cap] by (simp add: defs)
  ultimately have "?R\<^sup>*\<^sup>* ?s0 ?s13" by (meson rtranclp.intros)
  then show ?thesis by (intro exI [of _ ?s13]) simp
qed

text \<open>
  C9. The conversion ends: with at least one marshaller and channels that hold something there is no deadlock, a
  reachable state that is not finished has a next step, and every run has at most as many steps as the measure of
  its first state, so that every run that is not cut off finishes.
\<close>

theorem json_pipe_finishes:
  assumes "(pipe_step marshal cap)\<^sup>*\<^sup>* (pipe_start concurrent objs fails) s" and "0 < concurrent" and "0 < cap"
  shows "(finished s \<or> (\<exists>s'. pipe_step marshal cap s s')) \<and>
    wfP (\<lambda>s' s :: 'o pipe. pipe_step marshal cap s s') \<and>
    pipe_measure s \<le> 5 * length objs + concurrent + 8"
proof (intro conjI)
  show "finished s \<or> (\<exists>s'. pipe_step marshal cap s s')"
    using pipe_ok_reachable [OF assms(1,2)] pipe_progress [OF _ assms(2,3)] by (auto simp: pipe_ok_def)
  show "wfP (\<lambda>s' s :: 'o pipe. pipe_step marshal cap s s')"
    by (rule wfp_if_convertible_to_nat [of _ pipe_measure]) (rule pipe_step_measure)
  have "pipe_measure (pipe_start concurrent objs fails) \<le> 5 * length objs + concurrent + 8"
    by (simp add: pipe_measure_def pipe_start_def sum_list_replicate map_replicate)
  moreover have "pipe_measure s \<le> pipe_measure (pipe_start concurrent objs fails)"
    using assms(1) by (induction rule: rtranclp_induct) (auto dest: pipe_step_measure)
  ultimately show "pipe_measure s \<le> 5 * length objs + concurrent + 8" by linarith
qed

theorem json_pipe_finishes_witness:
  "let s = pipe_start 3 [0, 1 :: nat] True in
    (finished s \<or> (\<exists>s'. pipe_step (\<lambda>_. Some []) buffer_cap s s')) \<and>
    wfP (\<lambda>s' s :: nat pipe. pipe_step (\<lambda>_. Some []) buffer_cap s s') \<and>
    pipe_measure s \<le> 5 * length [0, 1 :: nat] + 3 + 8"
  unfolding Let_def by (rule json_pipe_finishes [OF rtranclp.rtrancl_refl]) (simp_all add: buffer_cap_def)

end
