(* ===== verification/Flamegraph.thy ===== *)
theory Flamegraph
  imports SepReport JsonView
begin

text \<open>
  The data of the flame graph (\<open>helper/flamegraph.go\<close>, \<open>FlameItem\<close> of \<open>d3flame/web.go\<close>): a tree of key parts with
  the total size below each. Nodes are values here: an insertion returns the new tree, and the queue of
  \<open>trimData\<close>, whose rounds change the children of one node each, is the recursion into the children. What is
  marshalled to JSON and served (\<open>d3flame.Web\<close>) is the tree returned; the last section is its JSON.
\<close>

section \<open>The tree\<close>

datatype flame = Flame (fname: bytes) (fvalue: int) (fchildren: "(bytes \<times> flame) list")

definition AddChild :: "flame \<Rightarrow> flame \<Rightarrow> flame" where
  "AddChild node n = Flame (fname node) (fvalue node) (AList.update (fname n) n (fchildren node))"

definition key_parts :: "(bytes \<Rightarrow> int \<Rightarrow> bytes list) \<Rightarrow> bytes \<Rightarrow> bytes list \<Rightarrow> bytes list" where
  "key_parts explode s separators =
     (let sep = (if 0 < length separators then hd separators else ascii '':'');
          s' = foldl (\<lambda>s x. ReplaceAll explode s x sep) s (tl separators) in
      Split explode s' sep)"

fun add_parts :: "int \<Rightarrow> bytes list \<Rightarrow> flame \<Rightarrow> flame" where
  "add_parts sz [] node = node"
| "add_parts sz (part # parts) node =
     (let node1 = (if map_of (fchildren node) part = None then AddChild node (Flame part 0 []) else node);
          child = the (map_of (fchildren node1) part);
          child' = add_parts sz parts (Flame (fname child) (fvalue child + sz) (fchildren child)) in
      Flame (fname node1) (fvalue node1) (AList.update part child' (fchildren node1)))"

definition object_parts :: "(bytes \<Rightarrow> int \<Rightarrow> bytes list) \<Rightarrow> bytes list \<Rightarrow> 'v redis_object \<Rightarrow> bytes list" where
  "object_parts explode separators obj =
     (ascii ''db:'' @ itoa (GetDBIndex obj)) # key_parts explode (GetKey obj) separators"

definition addObject :: "(bytes \<Rightarrow> int \<Rightarrow> bytes list) \<Rightarrow> bytes list \<Rightarrow> flame \<Rightarrow> 'v redis_object \<Rightarrow> flame" where
  "addObject explode separators root obj = add_parts (GetSize obj) (object_parts explode separators obj) root"

definition TrimThreshold :: nat where "TrimThreshold = 1000"
definition bigNodeThreshold :: int where "bigNodeThreshold = 1024 * 1024"

definition small_leaf :: "flame \<Rightarrow> bool" where
  "small_leaf child \<longleftrightarrow> fchildren child = [] \<and> fvalue child < bigNodeThreshold"

fun trimData :: "flame \<Rightarrow> flame" where
  "trimData (Flame n v ch) =
     (let leafSum = sum_list (map (\<lambda>(k, c). if small_leaf c then fvalue c else 0) ch);
          node = Flame n v (concat (map (\<lambda>(k, c). if small_leaf c then [] else [(k, trimData c)]) ch)) in
      if 0 < leafSum then AddChild node (Flame (ascii ''others'') leafSum []) else node)"

definition flame_root :: flame where "flame_root = Flame (ascii ''root'') 0 []"

definition flame_step ::
  "(bytes \<Rightarrow> int \<Rightarrow> bytes list) \<Rightarrow> bytes list \<Rightarrow> nat \<times> flame \<Rightarrow> 'v redis_object \<Rightarrow> (nat \<times> flame) result" where
  "flame_step explode separators = (\<lambda>(cnt, root) obj. Ok (Suc cnt, addObject explode separators root obj))"

definition FlameGraph :: "'v env \<Rightarrow> bytes \<Rightarrow> bytes list \<Rightarrow> helper_option list \<Rightarrow> flame result" where
  "FlameGraph env rdbFilename separators options =
     (if rdbFilename = [] then Err (ErrMsg ''src file path is required'')
      else
        rbind (open_wrapped env rdbFilename options) (\<lambda>dec.
        case parse_with env dec (flame_step (env_explode env) separators) (0, flame_root) of (r, cnt, root) \<Rightarrow>
        rbind r (\<lambda>u.
        let totalSize = sum_list (map (\<lambda>(k, c). fvalue c) (fchildren root));
            root' = Flame (fname root) totalSize (fchildren root) in
        Ok (if TrimThreshold \<le> cnt then trimData root' else root'))))"

section \<open>What is in the tree\<close>

fun node_at :: "bytes list \<Rightarrow> flame \<Rightarrow> flame option" where
  "node_at [] n = Some n"
| "node_at (p # ps) n = (case map_of (fchildren n) p of None \<Rightarrow> None | Some c \<Rightarrow> node_at ps c)"

definition value_at :: "bytes list \<Rightarrow> flame \<Rightarrow> int option" where
  "value_at path n = map_option fvalue (node_at path n)"

lemma fvalue_add_parts [simp]: "fvalue (add_parts sz parts n) = fvalue n"
  by (cases parts) (simp_all add: add_parts.simps(2) Let_def AddChild_def)

lemma add_parts_children:
  "fchildren (add_parts sz (p # ps) n) = AList.update p (add_parts sz ps (case map_of (fchildren n) p of
     None \<Rightarrow> Flame p sz [] | Some c \<Rightarrow> Flame (fname c) (fvalue c + sz) (fchildren c))) (fchildren n)"
  by (cases "map_of (fchildren n) p") (simp_all add: Let_def AddChild_def update_conv)

declare add_parts.simps(2) [simp del]

lemma value_at_Cons:
  "value_at (p # ps) n = (case map_of (fchildren n) p of None \<Rightarrow> None | Some c \<Rightarrow> value_at ps c)"
  by (simp add: value_at_def split: option.splits)

lemma value_at_Nil [simp]: "value_at [] n = Some (fvalue n)"
  by (simp add: value_at_def)

lemma value_at_children: "fchildren n = fchildren m \<Longrightarrow> ps \<noteq> [] \<Longrightarrow> value_at ps n = value_at ps m"
  by (cases ps) (simp_all add: value_at_Cons)

lemma value_at_no_children: "fchildren n = [] \<Longrightarrow> ps \<noteq> [] \<Longrightarrow> value_at ps n = None"
  by (cases ps) (simp_all add: value_at_Cons)

lemma value_at_add_parts:
  assumes "path \<noteq> []"
  shows "value_at path (add_parts sz parts n) =
    (if prefix path parts then Some ((case value_at path n of None \<Rightarrow> 0 | Some v \<Rightarrow> v) + sz) else value_at path n)"
  using assms
proof (induction parts arbitrary: path n)
  case Nil
  then show ?case by simp
next
  case (Cons p ps)
  obtain q qs where path: "path = q # qs" using Cons.prems by (cases path) auto
  show ?case
  proof (cases "q = p")
    case False
    then show ?thesis unfolding path value_at_Cons add_parts_children by (simp add: update_conv)
  next
    case True
    define c where "c = (case map_of (fchildren n) p of
      None \<Rightarrow> Flame p sz [] | Some c \<Rightarrow> Flame (fname c) (fvalue c + sz) (fchildren c))"
    have v: "value_at path (add_parts sz (p # ps) n) = value_at qs (add_parts sz ps c)"
      unfolding path True value_at_Cons add_parts_children c_def by (simp add: update_conv)
    show ?thesis
    proof (cases "qs = []")
      case True
      have "value_at path n = map_option fvalue (map_of (fchildren n) p)"
        unfolding path \<open>q = p\<close> True value_at_Cons by (simp split: option.splits)
      moreover have "prefix path (p # ps)" by (simp add: path \<open>q = p\<close> True)
      moreover have "value_at path (add_parts sz (p # ps) n) = Some (fvalue c)" using v True by simp
      ultimately show ?thesis by (cases "map_of (fchildren n) p") (simp_all add: c_def)
    next
      case False
      have "value_at qs (add_parts sz ps c) =
          (if prefix qs ps then Some ((case value_at qs c of None \<Rightarrow> 0 | Some v \<Rightarrow> v) + sz) else value_at qs c)"
        by (rule Cons.IH [OF False])
      moreover have "value_at qs c = value_at path n"
      proof (cases "map_of (fchildren n) p")
        case None
        then show ?thesis unfolding path \<open>q = p\<close> value_at_Cons c_def by (simp add: value_at_no_children False)
      next
        case (Some d)
        have "value_at qs (Flame (fname d) (fvalue d + sz) (fchildren d)) = value_at qs d"
          by (rule value_at_children) (simp_all add: False)
        with Some show ?thesis unfolding path \<open>q = p\<close> value_at_Cons c_def by simp
      qed
      moreover have "prefix path (p # ps) \<longleftrightarrow> prefix qs ps" by (simp add: path \<open>q = p\<close>)
      ultimately show ?thesis unfolding v by simp
    qed
  qed
qed

section \<open>The graph\<close>

text \<open>The size below a path: that of the objects whose parts begin with it.\<close>

definition path_size ::
  "(bytes \<Rightarrow> int \<Rightarrow> bytes list) \<Rightarrow> bytes list \<Rightarrow> 'v redis_object list \<Rightarrow> bytes list \<Rightarrow> int option" where
  "path_size explode separators objs path =
     (let os = filter (\<lambda>obj. prefix path (object_parts explode separators obj)) objs in
      if os = [] then None else Some (sum_list (map GetSize os)))"

lemma value_at_objects:
  assumes "path \<noteq> []" and "fchildren root = []"
  shows "value_at path (foldl (addObject explode separators) root objs) = path_size explode separators objs path"
proof (induction objs rule: rev_induct)
  case Nil
  then show ?case using assms by (simp add: path_size_def value_at_no_children)
next
  case (snoc obj objs)
  then show ?case
    by (auto simp: addObject_def value_at_add_parts [OF assms(1)] path_size_def Let_def filter_empty_conv)
qed

lemma feed_flame_step:
  "feed (flame_step explode separators) (n, root) objs r =
    (r, n + length objs, foldl (addObject explode separators) root objs)"
  by (induction objs arbitrary: n root) (simp_all add: flame_step_def)

definition children_total :: "flame \<Rightarrow> int" where
  "children_total n = sum_list (map (\<lambda>(k, c). fvalue c) (fchildren n))"

lemma total_update:
  "distinct (map fst ch) \<Longrightarrow> sum_list (map (\<lambda>(k, c). fvalue c) (AList.update p x ch)) =
    sum_list (map (\<lambda>(k, c). fvalue c) ch) + fvalue x - (case map_of ch p of None \<Rightarrow> 0 | Some c \<Rightarrow> fvalue c)"
  by (induction ch) (auto simp: map_of_eq_None_iff split: option.splits)

lemma children_total_add:
  assumes "distinct (map fst (fchildren root))"
  shows "distinct (map fst (fchildren (addObject explode separators root obj)))"
    and "children_total (addObject explode separators root obj) = children_total root + GetSize obj"
  using assms
  by (auto simp: addObject_def object_parts_def add_parts_children children_total_def distinct_update total_update
      split: option.splits)

lemma children_total_objects:
  assumes "fchildren root = []"
  shows "distinct (map fst (fchildren (foldl (addObject explode separators) root objs))) \<and>
    children_total (foldl (addObject explode separators) root objs) = sum_list (map GetSize objs)"
  by (induction objs rule: rev_induct) (simp_all add: assms children_total_add, simp add: children_total_def assms)

section \<open>Trimming\<close>

text \<open>
  From 1000 objects on small leaves are cut: a path is cut if every object below it has exactly this path and their size is less
  than \<open>bigNodeThreshold\<close>. The sizes of the leaves that are cut below a path stand in a child called \<open>others\<close>.
\<close>

definition cut ::
  "(bytes \<Rightarrow> int \<Rightarrow> bytes list) \<Rightarrow> bytes list \<Rightarrow> 'v redis_object list \<Rightarrow> bytes list \<Rightarrow> bool" where
  "cut explode separators objs path \<longleftrightarrow>
     (\<forall>obj \<in> set objs. prefix path (object_parts explode separators obj) \<longrightarrow> object_parts explode separators obj = path) \<and>
     (case path_size explode separators objs path of None \<Rightarrow> False | Some sz \<Rightarrow> sz < bigNodeThreshold)"

definition cut_below ::
  "(bytes \<Rightarrow> int \<Rightarrow> bytes list) \<Rightarrow> bytes list \<Rightarrow> 'v redis_object list \<Rightarrow> bytes list \<Rightarrow> int" where
  "cut_below explode separators objs path = sum_list (map GetSize (filter (\<lambda>obj.
     \<exists>x. object_parts explode separators obj = path @ [x] \<and> cut explode separators objs (path @ [x])) objs))"

definition trimmed_size ::
  "(bytes \<Rightarrow> int \<Rightarrow> bytes list) \<Rightarrow> bytes list \<Rightarrow> 'v redis_object list \<Rightarrow> bytes list \<Rightarrow> int option" where
  "trimmed_size explode separators objs path =
     (if last path = ascii ''others'' then
        (let cut_off = cut_below explode separators objs (butlast path) in if 0 < cut_off then Some cut_off else None)
      else if cut explode separators objs path then None
      else path_size explode separators objs path)"

lemma path_size_None:
  "path_size explode separators objs path = None \<longleftrightarrow>
    (\<forall>obj \<in> set objs. \<not> prefix path (object_parts explode separators obj))"
  by (auto simp: path_size_def Let_def filter_empty_conv)

lemma trimmed_size_None:
  assumes "\<forall>obj \<in> set objs. \<not> strict_prefix path (object_parts explode separators obj)"
  shows "trimmed_size explode separators objs (path @ p # ps) = None"
proof -
  have "path_size explode separators objs (path @ p # ps) = None"
    unfolding path_size_None using assms by (auto simp: prefix_def strict_prefix_def)
  moreover have "filter (\<lambda>obj. \<exists>x. object_parts explode separators obj = butlast (path @ p # ps) @ [x] \<and>
      cut explode separators objs (butlast (path @ p # ps) @ [x])) objs = []"
    using assms by (auto simp: filter_empty_conv butlast_append strict_prefix_def prefix_def)
  ultimately show ?thesis by (simp add: trimmed_size_def cut_below_def Let_def)
qed

text \<open>The keys of every node's children are distinct.\<close>

fun uniq :: "flame \<Rightarrow> bool" where
  "uniq (Flame n v ch) \<longleftrightarrow> distinct (map fst ch) \<and> list_all (\<lambda>(k, c). uniq c) ch"

lemma uniq_children: "uniq n \<longleftrightarrow> distinct (map fst (fchildren n)) \<and> (\<forall>(k, c) \<in> set (fchildren n). uniq c)"
  by (cases n) (simp add: list_all_iff)

lemma uniq_update:
  assumes "uniq n" and "uniq c"
  shows "uniq (Flame m v (AList.update k c (fchildren n)))"
proof -
  have n: "distinct (map fst (fchildren n))" "\<forall>(k, c) \<in> set (fchildren n). uniq c"
    using assms(1) unfolding uniq_children [of n] by (rule conjunct1, rule conjunct2)
  have "set (AList.update k c xs) \<subseteq> {(k, c)} \<union> set xs" for xs by (induction xs) auto
  then have "\<forall>(k, c) \<in> set (AList.update k c (fchildren n)). uniq c"
    using n(2) assms(2) by blast
  moreover have "distinct (map fst (AList.update k c (fchildren n)))" by (rule distinct_update [OF n(1)])
  ultimately show ?thesis by (simp only: uniq.simps list_all_iff)
qed

lemma uniq_child: "uniq n \<Longrightarrow> map_of (fchildren n) k = Some c \<Longrightarrow> uniq c"
  by (auto simp: uniq_children [of n] dest!: map_of_SomeD)

lemma uniq_add_parts: "uniq n \<Longrightarrow> uniq (add_parts sz parts n)"
proof (induction parts arbitrary: n)
  case (Cons p ps)
  have f: "add_parts sz (p # ps) n = Flame (fname (add_parts sz (p # ps) n)) (fvalue (add_parts sz (p # ps) n))
      (fchildren (add_parts sz (p # ps) n))" by (simp only: flame.collapse)
  have "uniq (case map_of (fchildren n) p of None \<Rightarrow> Flame p sz []
      | Some c \<Rightarrow> Flame (fname c) (fvalue c + sz) (fchildren c))"
  proof (cases "map_of (fchildren n) p")
    case (Some c)
    then have "uniq c" by (rule uniq_child [OF Cons.prems])
    then show ?thesis by (cases c) (simp add: Some)
  qed simp
  then show ?case by (subst f) (simp only: add_parts_children uniq_update [OF Cons.prems Cons.IH])
qed simp

lemma uniq_objects: "uniq root \<Longrightarrow> uniq (foldl (addObject explode separators) root objs)"
  by (induction objs arbitrary: root) (simp_all add: addObject_def uniq_add_parts)

text \<open>The children of a trimmed node.\<close>

lemma fvalue_trimData [simp]: "fvalue (trimData n) = fvalue n"
  by (cases n) (simp add: Let_def AddChild_def)

definition leaf_sum :: "flame \<Rightarrow> int" where
  "leaf_sum n = sum_list (map (\<lambda>(k, c). if small_leaf c then fvalue c else 0) (fchildren n))"

lemma map_of_trimmed:
  assumes "uniq n" and "k \<noteq> ascii ''others''"
  shows "map_of (fchildren (trimData n)) k =
    (case map_of (fchildren n) k of None \<Rightarrow> None | Some c \<Rightarrow> if small_leaf c then None else Some (trimData c))"
proof (cases n)
  case (Flame m v ch)
  have d: "distinct (map fst ch)" using assms(1) Flame by simp
  have "map_of (concat (map (\<lambda>(k, c). if small_leaf c then [] else [(k, trimData c)]) ch)) k =
      (case map_of ch k of None \<Rightarrow> None | Some c \<Rightarrow> if small_leaf c then None else Some (trimData c))"
    using d
  proof (induction ch)
    case (Cons x ch)
    have "map_of ch k = None" if "fst x = k" using Cons.prems that by (auto simp: map_of_eq_None_iff)
    with Cons show ?case by (cases x) (auto split: option.splits)
  qed simp
  then show ?thesis using assms(2) by (simp add: Flame Let_def AddChild_def update_conv)
qed

lemma map_of_others:
  assumes "map_of (fchildren n) (ascii ''others'') = None"
  shows "map_of (fchildren (trimData n)) (ascii ''others'') =
    (if 0 < leaf_sum n then Some (Flame (ascii ''others'') (leaf_sum n) []) else None)"
proof (cases n)
  case (Flame m v ch)
  have "ascii ''others'' \<notin> fst ` set ch" using assms Flame by (simp add: map_of_eq_None_iff)
  then have "map_of (concat (map (\<lambda>(k, c). if small_leaf c then [] else [(k, trimData c)]) ch)) (ascii ''others'') = None"
    by (induction ch) (auto split: if_splits)
  then show ?thesis by (simp add: Flame Let_def AddChild_def update_conv leaf_sum_def)
qed

text \<open>\<open>describes\<close>: the node stands at \<open>path\<close> in the tree of the objects.\<close>

definition describes ::
  "(bytes \<Rightarrow> int \<Rightarrow> bytes list) \<Rightarrow> bytes list \<Rightarrow> 'v redis_object list \<Rightarrow> bytes list \<Rightarrow> flame \<Rightarrow> bool" where
  "describes explode separators objs path n \<longleftrightarrow> uniq n \<and>
     (\<forall>p ps. value_at (p # ps) n = path_size explode separators objs (path @ p # ps))"

lemma describes_child:
  assumes "describes explode separators objs path n" and "map_of (fchildren n) p = Some c"
  shows "describes explode separators objs (path @ [p]) c" "path_size explode separators objs (path @ [p]) = Some (fvalue c)"
proof -
  have v: "value_at (p # ps) n = path_size explode separators objs (path @ p # ps)" for ps
    using assms(1) by (simp add: describes_def)
  have "value_at (p # ps) n = value_at ps c" for ps by (simp add: value_at_Cons assms(2))
  with v have "path_size explode separators objs (path @ p # ps) = value_at ps c" for ps by metis
  then show "describes explode separators objs (path @ [p]) c" "path_size explode separators objs (path @ [p]) = Some (fvalue c)"
    using assms uniq_child by (auto simp: describes_def)
qed

lemma describes_no_child:
  assumes "describes explode separators objs path n" and "map_of (fchildren n) p = None"
  shows "path_size explode separators objs (path @ p # ps) = None"
  using assms unfolding describes_def by (metis value_at_Cons option.simps(4))

lemma no_children:
  assumes "describes explode separators objs path n"
  shows "fchildren n = [] \<longleftrightarrow> (\<forall>obj \<in> set objs. \<not> strict_prefix path (object_parts explode separators obj))"
proof -
  have "fchildren n = [] \<longleftrightarrow> (\<forall>p. map_of (fchildren n) p = None)"
    by (cases "fchildren n") (auto intro: exI [of _ "fst (hd (fchildren n))"])
  also have "\<dots> \<longleftrightarrow> (\<forall>p. path_size explode separators objs (path @ [p]) = None)"
    using describes_child(2) [OF assms] describes_no_child [OF assms] by (metis option.distinct(1) not_None_eq)
  also have "\<dots> \<longleftrightarrow> (\<forall>obj \<in> set objs. \<not> strict_prefix path (object_parts explode separators obj))"
    unfolding path_size_None by (auto simp: strict_prefix_def prefix_def append_eq_append_conv2) (metis neq_Nil_conv)
  finally show ?thesis .
qed

lemma small_leaf_cut:
  assumes "describes explode separators objs path n" and "map_of (fchildren n) p = Some c"
  shows "small_leaf c \<longleftrightarrow> cut explode separators objs (path @ [p])"
  unfolding small_leaf_def cut_def no_children [OF describes_child(1) [OF assms]] describes_child(2) [OF assms]
  by (auto simp: strict_prefix_def)

lemma sum_of_leaves:
  assumes "distinct ks" and "\<forall>obj \<in> set objs. \<forall>x. f obj = path @ [x] \<longrightarrow> x \<in> set ks"
  shows "sum_list (map (\<lambda>k. if C k then sum_list (map g (filter (\<lambda>obj. f obj = path @ [k]) objs)) else (0 :: int)) ks) =
    sum_list (map g (filter (\<lambda>obj. \<exists>x. f obj = path @ [x] \<and> C x) objs))"
  using assms(2)
proof (induction objs)
  case Nil
  then show ?case by (simp add: sum_list_0 cong: if_cong)
next
  case (Cons obj objs)
  let ?h = "\<lambda>os k. if C k then sum_list (map g (filter (\<lambda>obj. f obj = path @ [k]) os)) else (0 :: int)"
  let ?one = "\<lambda>k. if C k \<and> f obj = path @ [k] then g obj else 0"
  have "sum_list (map (?h (obj # objs)) ks) = sum_list (map (\<lambda>k. ?one k + ?h objs k) ks)"
    by (intro arg_cong [of _ _ sum_list] map_cong refl) auto
  also have "\<dots> = sum_list (map ?one ks) + sum_list (map (?h objs) ks)" by (rule sum_list_addf)
  also have "sum_list (map ?one ks) = (if \<exists>x. f obj = path @ [x] \<and> C x then g obj else 0)"
  proof (cases "\<exists>x. f obj = path @ [x] \<and> C x")
    case True
    then obtain x where x: "f obj = path @ [x]" "C x" by blast
    have "sum_list (map ?one ks) = sum_list (map (\<lambda>k. if k = x then g obj else 0) ks)"
      by (intro arg_cong [of _ _ sum_list] map_cong refl) (auto simp: x)
    also have "\<dots> = g obj"
      using Cons.prems x(1) assms(1) by (simp add: sum_list_distinct_conv_sum_set)
    finally show ?thesis using True by simp
  next
    case False
    then have "map ?one ks = map (\<lambda>k. 0) ks" by (intro map_cong refl) auto
    then show ?thesis by (simp only: if_not_P [OF False]) (simp add: sum_list_0)
  qed
  finally show ?case using Cons by (cases "\<exists>x. f obj = path @ [x] \<and> C x") auto
qed

lemma leaf_sum_cut:
  assumes d: "describes explode separators objs path n"
  shows "leaf_sum n = cut_below explode separators objs path"
proof -
  let ?f = "object_parts explode separators" and ?C = "\<lambda>k. cut explode separators objs (path @ [k])"
  have u: "distinct (map fst (fchildren n))" using d by (simp add: describes_def uniq_children [of n])
  have "(if small_leaf c then fvalue c else 0) =
      (if ?C k then sum_list (map GetSize (filter (\<lambda>obj. ?f obj = path @ [k]) objs)) else 0)"
    if "(k, c) \<in> set (fchildren n)" for k c
  proof (cases "?C k")
    case True
    have m: "map_of (fchildren n) k = Some c" using u that by simp
    have "filter (\<lambda>obj. prefix (path @ [k]) (?f obj)) objs = filter (\<lambda>obj. ?f obj = path @ [k]) objs"
      by (rule filter_cong [OF refl]) (use True in \<open>auto simp: cut_def\<close>)
    moreover have "path_size explode separators objs (path @ [k]) = Some (fvalue c)" by (rule describes_child(2) [OF d m])
    ultimately have "fvalue c = sum_list (map GetSize (filter (\<lambda>obj. ?f obj = path @ [k]) objs))"
      by (simp add: path_size_def Let_def split: if_splits)
    then show ?thesis using small_leaf_cut [OF d m] True by simp
  next
    case False
    have m: "map_of (fchildren n) k = Some c" using u that by simp
    show ?thesis using small_leaf_cut [OF d m] False by simp
  qed
  then have "leaf_sum n = sum_list (map (\<lambda>k. if ?C k then sum_list (map GetSize (filter (\<lambda>obj. ?f obj = path @ [k]) objs))
      else 0) (map fst (fchildren n)))"
    unfolding leaf_sum_def map_map by (intro arg_cong [of _ _ sum_list] map_cong refl) (simp add: case_prod_beta)
  also have "\<dots> = sum_list (map GetSize (filter (\<lambda>obj. \<exists>x. ?f obj = path @ [x] \<and> ?C x) objs))"
  proof (rule sum_of_leaves [OF u], intro ballI allI impI)
    fix obj x assume "obj \<in> set objs" "?f obj = path @ [x]"
    then have "path_size explode separators objs (path @ [x]) \<noteq> None" unfolding path_size_None by fastforce
    then obtain c where "map_of (fchildren n) x = Some c"
      using describes_no_child [OF d, of x "[]"] by (cases "map_of (fchildren n) x") simp_all
    then show "x \<in> set (map fst (fchildren n))" by (force dest: map_of_SomeD)
  qed
  finally show ?thesis by (simp add: cut_below_def)
qed

lemma value_trimmed:
  assumes "describes explode separators objs path n"
    and others: "\<forall>obj \<in> set objs. ascii ''others'' \<notin> set (object_parts explode separators obj)"
  shows "value_at (p # ps) (trimData n) = trimmed_size explode separators objs (path @ p # ps)"
  using assms(1)
proof (induction ps arbitrary: p path n)
  case d: Nil
  have no: "path_size explode separators objs (path @ [ascii ''others'']) = None"
    unfolding path_size_None using others by (auto simp: prefix_def)
  show ?case
  proof (cases "p = ascii ''others''")
    case True
    have "map_of (fchildren n) (ascii ''others'') = None"
      using describes_child(2) [OF d] no by (metis not_None_eq)
    then show ?thesis
      by (simp add: True value_at_Cons map_of_others trimmed_size_def leaf_sum_cut [OF d] Let_def)
  next
    case False
    have u: "uniq n" using d by (simp add: describes_def)
    show ?thesis
    proof (cases "map_of (fchildren n) p")
      case None
      then show ?thesis using describes_no_child [OF d None, of "[]"] False
        by (simp add: value_at_Cons map_of_trimmed [OF u] trimmed_size_def)
    next
      case (Some c)
      then show ?thesis using describes_child(2) [OF d Some] small_leaf_cut [OF d Some] False
        by (simp add: value_at_Cons map_of_trimmed [OF u] trimmed_size_def)
    qed
  qed
next
  case (Cons q qs)
  note d = Cons.prems
  have u: "uniq n" using d by (simp add: describes_def)
  have none: "trimmed_size explode separators objs (path @ p # q # qs) = None"
    if "\<forall>obj \<in> set objs. \<not> strict_prefix (path @ [p]) (object_parts explode separators obj)"
    using trimmed_size_None [OF that, of q qs] by simp
  show ?case
  proof (cases "p = ascii ''others''")
    case True
    have "\<forall>obj \<in> set objs. \<not> prefix (path @ [p]) (object_parts explode separators obj)"
      using others True by (auto simp: prefix_def)
    moreover from this have "map_of (fchildren n) p = None"
      using describes_child(2) [OF d] unfolding path_size_None [symmetric] by (metis not_None_eq)
    ultimately show ?thesis using none by (simp add: True value_at_Cons map_of_others strict_prefix_def)
  next
    case False
    show ?thesis
    proof (cases "map_of (fchildren n) p")
      case None
      have "\<forall>obj \<in> set objs. \<not> prefix (path @ [p]) (object_parts explode separators obj)"
        using describes_no_child [OF d None, of "[]"] by (simp only: path_size_None)
      then show ?thesis using none by (simp add: value_at_Cons [of p] map_of_trimmed [OF u False] None strict_prefix_def)
    next
      case (Some c)
      note dc = describes_child(1) [OF d Some]
      show ?thesis
      proof (cases "small_leaf c")
        case True
        then have "\<forall>obj \<in> set objs. \<not> strict_prefix (path @ [p]) (object_parts explode separators obj)"
          using no_children [OF dc] by (simp add: small_leaf_def)
        then show ?thesis using none by (simp add: value_at_Cons [of p] map_of_trimmed [OF u False] Some True)
      next
        case False
        then show ?thesis
          using Cons.IH [OF dc, of q] by (simp add: value_at_Cons [of p] map_of_trimmed [OF u \<open>p \<noteq> _\<close>] Some)
      qed
    qed
  qed
qed

text \<open>
  C12. The flame graph of a file that is parsed to its end: its value is the size of all objects that pass the filters. With fewer
  than 1000 objects every node has the size of the objects below its path, and there is a node for every path with objects
  below it, and no other. From 1000 objects on, when no part of a key is \<open>others\<close>, the same holds but for small leaves,
  which are cut, and the nodes \<open>others\<close>, which have the size of the leaves cut beside them if that is positive.
\<close>

theorem flame_graph_values:
  assumes "file_objects env rdbFilename options = Some objs"
    and "TrimThreshold \<le> length objs \<Longrightarrow>
      list_all (\<lambda>obj. ascii ''others'' \<notin> set (object_parts (env_explode env) separators obj)) objs"
  shows "\<exists>root. FlameGraph env rdbFilename separators options = Ok root \<and>
    fvalue root = sum_list (map GetSize objs) \<and>
    (\<forall>part parts. value_at (part # parts) root =
      (if length objs < TrimThreshold then path_size (env_explode env) separators objs (part # parts)
       else trimmed_size (env_explode env) separators objs (part # parts)))"
proof -
  obtain w where w: "open_wrapped env rdbFilename options = Ok w" "delivered_to env w = (Ok (), objs)"
    "rdbFilename \<noteq> []" by (rule file_objectsE [OF assms(1)])
  let ?tree = "foldl (addObject (env_explode env) separators) flame_root objs"
  let ?root = "Flame (fname ?tree) (children_total ?tree) (fchildren ?tree)"
  have nil: "fchildren flame_root = []" and u: "uniq flame_root" by (simp_all add: flame_root_def)
  define root where "root = ?root"
  have run: "FlameGraph env rdbFilename separators options =
      Ok (if TrimThreshold \<le> length objs then trimData root else root)"
    using w by (simp add: FlameGraph_def parse_with_def feed_flame_step children_total_def root_def)
  have v: "value_at (part # parts) root = path_size (env_explode env) separators objs (part # parts)" for part parts
    using value_at_objects [OF _ nil, of "part # parts" "env_explode env" separators objs]
      value_at_children [of ?root ?tree "part # parts"] by (simp add: root_def)
  have total: "fvalue root = sum_list (map GetSize objs)"
    using children_total_objects [OF nil, of "env_explode env" separators objs] by (simp add: root_def)
  show ?thesis
  proof (cases "TrimThreshold \<le> length objs")
    case True
    have "uniq ?tree" by (rule uniq_objects [OF u])
    then have "uniq root" unfolding root_def uniq_children [of ?tree] uniq.simps list_all_iff by blast
    then have "describes (env_explode env) separators objs [] root" using v by (simp add: describes_def)
    from value_trimmed [OF this] assms(2) [OF True]
    have "value_at (part # parts) (trimData root) = trimmed_size (env_explode env) separators objs (part # parts)"
      for part parts by (simp add: list_all_iff)
    then show ?thesis using True run total by simp
  next
    case False
    then show ?thesis using v run total by simp
  qed
qed

text \<open>The file of three objects, and one of 1000 objects of one key, where the graph is trimmed.\<close>

definition many_dbs :: "db_spec list" where
  "many_dbs = [(0, 1000, 0, replicate TrimThreshold ([97, 58, 98], VString [118], None))]"

lemma many_objects:
  obtains objs where "file_objects (env_of_dbs many_dbs) [102] [] = Some objs" "length objs = TrimThreshold"
    "list_all (\<lambda>obj. ascii ''others'' \<notin> set (object_parts (env_explode (env_of_dbs many_dbs)) [] obj)) objs"
proof -
  have "TrimThreshold \<noteq> 0" by (simp add: TrimThreshold_def)
  then have "file_ok (cfg (NewEncoderValkey (\<lambda>_ _. None))) (\<lambda>_. None) (\<lambda>_. []) [] many_dbs"
    by (simp add: file_ok_def many_dbs_def entry_ok_def value_ok_def short_string_def ttl_ok_def list_all_iff)
  then obtain objs where f: "file_objects (env_of_dbs many_dbs) [102] [] = Some objs"
    "list_all2 meets (expect_file False [] many_dbs) objs" by (rule objects_of_dbs)
  let ?ex = "EObj 0 [97, 58, 98] (VString [118]) None"
  have ex: "list_all2 meets (replicate TrimThreshold ?ex) objs"
    using f(2) by (simp add: expect_file_def many_dbs_def expect_db_def)
  have "meets ?ex obj" if "obj \<in> set objs" for obj
    using that ex by (auto simp: list_all2_conv_all_nth in_set_conv_nth)
  moreover have "object_parts (\<lambda>s _. map (\<lambda>c. [c]) s) [] obj = [ascii ''db:0'', [97], [98]]"
    if "meets ?ex (obj :: unit redis_object)" for obj
  proof -
    have "GetDBIndex obj = 0" "GetKey obj = [97, 58, 98]" using that by simp_all
    moreover have "key_parts (\<lambda>s _. map (\<lambda>c. [c]) s) [97, 58, 98] [] = [[97], [98]]" by code_simp
    moreover have "ascii ''db:'' @ itoa 0 = ascii ''db:0''" by code_simp
    ultimately show ?thesis by (simp add: object_parts_def)
  qed
  moreover have "ascii ''others'' \<notin> set [ascii ''db:0'', [97], [98]]" by (simp add: ascii_def)
  ultimately have "list_all (\<lambda>obj. ascii ''others'' \<notin> set (object_parts (env_explode (env_of_dbs many_dbs)) [] obj)) objs"
    by (simp add: list_all_iff env_of_dbs_def)
  moreover have "length objs = TrimThreshold" using list_all2_lengthD [OF ex] by simp
  ultimately show thesis using f(1) that by blast
qed

theorem flame_graph_values_witness:
  "(\<exists>objs :: unit redis_object list. length objs = 3 \<and> (\<exists>root. FlameGraph sample_env [102] [] [] = Ok root \<and>
    fvalue root = sum_list (map GetSize objs) \<and>
    (\<forall>part parts. value_at (part # parts) root = path_size (env_explode sample_env) [] objs (part # parts)))) \<and>
   (\<exists>objs :: unit redis_object list. length objs = TrimThreshold \<and>
    (\<exists>root. FlameGraph (env_of_dbs many_dbs) [102] [] [] = Ok root \<and> fvalue root = sum_list (map GetSize objs) \<and>
    (\<forall>part parts. value_at (part # parts) root =
      trimmed_size (env_explode (env_of_dbs many_dbs)) [] objs (part # parts))))"
proof (rule conjI)
  obtain objs where f: "file_objects sample_env [102] [] = Some objs"
    "list_all2 meets (expect_file False [] sample_dbs) objs" by (rule sample_objects)
  from this(2) have l: "length objs = 3"
    by (auto dest: list_all2_lengthD simp: expect_file_def sample_dbs_def expect_db_def)
  then have "\<not> TrimThreshold \<le> length objs" by (simp add: TrimThreshold_def)
  with flame_graph_values [OF f(1), of "[]"] l
  show "\<exists>objs :: unit redis_object list. length objs = 3 \<and> (\<exists>root. FlameGraph sample_env [102] [] [] = Ok root \<and>
    fvalue root = sum_list (map GetSize objs) \<and>
    (\<forall>part parts. value_at (part # parts) root = path_size (env_explode sample_env) [] objs (part # parts)))" by auto
next
  obtain objs where f: "file_objects (env_of_dbs many_dbs) [102] [] = Some objs" "length objs = TrimThreshold"
    "list_all (\<lambda>obj. ascii ''others'' \<notin> set (object_parts (env_explode (env_of_dbs many_dbs)) [] obj)) objs"
    by (rule many_objects)
  from flame_graph_values [OF f(1), of "[]"] f(2,3)
  show "\<exists>objs :: unit redis_object list. length objs = TrimThreshold \<and>
    (\<exists>root. FlameGraph (env_of_dbs many_dbs) [102] [] [] = Ok root \<and> fvalue root = sum_list (map GetSize objs) \<and>
    (\<forall>part parts. value_at (part # parts) root =
      trimmed_size (env_explode (env_of_dbs many_dbs)) [] objs (part # parts)))" by auto
qed

text \<open>
  Trimming keeps the total below every node that has no child called \<open>others\<close>; a child of that name is overwritten
  when small leaves are cut off beside it.
\<close>

lemma trim_total:
  assumes "distinct (map fst (fchildren n))" and "map_of (fchildren n) (ascii ''others'') = None"
    and "list_all (\<lambda>(k, c). 0 \<le> fvalue c) (fchildren n)"
  shows "children_total (trimData n) = children_total n"
proof (cases n)
  case (Flame nm v ch)
  let ?small = "sum_list (map (\<lambda>(k, c). if small_leaf c then fvalue c else 0) ch)"
  let ?rest = "concat (map (\<lambda>(k, c). if small_leaf c then [] else [(k, trimData c)]) ch)"
  have sum: "?small + sum_list (map (\<lambda>(k, c). fvalue c) ?rest) = sum_list (map (\<lambda>(k, c). fvalue c) ch)"
    by (induction ch) auto
  have keys: "set (map fst ?rest) \<subseteq> set (map fst ch)" by (force split: if_splits)
  have "distinct (map fst ch) \<Longrightarrow> distinct (map fst ?rest)" by (induction ch) (force split: if_splits)+
  then have d: "distinct (map fst ?rest)" using assms(1) Flame by simp
  have o: "map_of ?rest (ascii ''others'') = None"
  proof -
    have "ascii ''others'' \<notin> set (map fst ch)" using assms(2) Flame by (simp add: map_of_eq_None_iff)
    with keys have "ascii ''others'' \<notin> set (map fst ?rest)" by blast
    then show ?thesis by (simp only: map_of_eq_None_iff set_map not_False_eq_True)
  qed
  have "0 \<le> ?small" using assms(3) Flame by (intro sum_list_nonneg) (force simp: list_all_iff)
  with sum show ?thesis
    by (auto simp: Flame children_total_def Let_def AddChild_def total_update [OF d] o)
qed

lemma trim_others_lost:
  "fchildren (trimData (Flame [] 12 [([97], Flame [97] 2 []),
      (ascii ''others'', Flame (ascii ''others'') 10 [([98], Flame [98] 10 [])])])) =
    [(ascii ''others'', Flame (ascii ''others'') 2 [])]"
  by code_simp

section \<open>What the page is sent\<close>

text \<open>
  \<open>children.MarshalJSON\<close> writes the children without their keys. Where every child stands under its name, as the code
  has it, nothing is lost.
\<close>

fun flame_json :: "flame \<Rightarrow> 'v json" where
  "flame_json (Flame n v ch) = JObj (present [(''n'', Some (JStr n)), (''v'', Some (JInt v)),
     (''c'', if ch = [] then None else Some (JArr (map (\<lambda>(k, c). flame_json c) ch)))])"

fun keyed :: "flame \<Rightarrow> bool" where
  "keyed (Flame n v ch) = list_all (\<lambda>(k, c). k = fname c \<and> keyed c) ch"

lemma flame_json_inj:
  "keyed a \<Longrightarrow> keyed b \<Longrightarrow> flame_json a = (flame_json b :: 'v json) \<Longrightarrow> a = b"
proof (induction a arbitrary: b rule: keyed.induct)
  case (1 n v ch)
  obtain n' v' ch' where b: "b = Flame n' v' ch'" by (cases b)
  have nv: "n = n'" "v = v'" and m: "map (\<lambda>(k, c). flame_json c :: 'v json) ch = map (\<lambda>(k, c). flame_json c) ch'"
    using "1.prems"(3) by (auto simp: b split: if_splits)
  have same: "x = y" if x: "x \<in> set ch" and y: "y \<in> set ch'"
    and e: "flame_json (snd x) = (flame_json (snd y) :: 'v json)" for x y
  proof -
    have kx: "fst x = fname (snd x)" "keyed (snd x)"
      using bspec [OF "1.prems"(1) [unfolded keyed.simps list_all_iff] x] unfolding case_prod_beta by blast+
    have ky: "fst y = fname (snd y)" "keyed (snd y)"
      using bspec [OF "1.prems"(2) [unfolded b keyed.simps list_all_iff] y] unfolding case_prod_beta by blast+
    have "snd x = snd y" by (rule "1.IH" [OF x prod.collapse kx(2) ky(2) e])
    with kx(1) ky(1) show ?thesis by (simp only: prod_eq_iff)
  qed
  have "ch = ch'" using m unfolding case_prod_beta by (rule list.inj_map_strong [rotated]) (rule same)
  then show ?case by (simp add: b nv)
qed

lemma keyed_children: "keyed n \<longleftrightarrow> (\<forall>(k, c) \<in> set (fchildren n). k = fname c \<and> keyed c)"
  by (cases n) (simp add: list_all_iff)

lemma keyed_update:
  assumes "keyed n" and "keyed c" and "k = fname c"
  shows "keyed (Flame m v (AList.update k c (fchildren n)))"
proof -
  have "set (AList.update k c xs) \<subseteq> {(k, c)} \<union> set xs" for xs by (induction xs) auto
  moreover have "\<forall>(k, c) \<in> set (fchildren n). k = fname c \<and> keyed c" using assms(1) by (simp only: keyed_children [of n])
  ultimately show ?thesis using assms(2,3) unfolding keyed.simps list_all_iff by blast
qed

lemma fname_add_parts [simp]: "fname (add_parts sz parts node) = fname node"
  by (cases parts) (simp_all add: add_parts.simps(2) Let_def AddChild_def)

lemma keyed_add_parts: "keyed node \<Longrightarrow> keyed (add_parts sz parts node)"
proof (induction sz parts node rule: add_parts.induct)
  case (2 sz part parts node)
  define node1 where "node1 = (if map_of (fchildren node) part = None then AddChild node (Flame part 0 []) else node)"
  define child where "child = the (map_of (fchildren node1) part)"
  have k1: "keyed node1"
    using 2(2) keyed_update [of node "Flame part 0 []" part] by (simp add: node1_def AddChild_def)
  have "map_of (fchildren node1) part = Some child"
    by (auto simp: node1_def child_def AddChild_def update_conv')
  then have c: "part = fname child" "keyed child"
    using k1 by (auto simp: keyed_children [of node1] dest: map_of_SomeD)
  then have "keyed (Flame (fname child) (fvalue child + sz) (fchildren child))" by (cases child) simp
  then have k: "keyed (add_parts sz parts (Flame (fname child) (fvalue child + sz) (fchildren child)))"
    by (rule 2(1) [OF node1_def child_def])
  have eq: "add_parts sz (part # parts) node = Flame (fname node1) (fvalue node1) (AList.update part
      (add_parts sz parts (Flame (fname child) (fvalue child + sz) (fchildren child))) (fchildren node1))"
    by (simp only: add_parts.simps(2) Let_def node1_def child_def)
  show ?case unfolding eq by (rule keyed_update [OF k1 k]) (simp add: c(1))
qed simp

end
