(* ===== verification/Cmd.thy ===== *)
theory Cmd
  imports PrefixReport SepReport Resp JsonPipe Flamegraph
begin

text \<open>
  The command line (\<open>cmd.go\<close>): what \<open>main\<close> makes of its parsed flags, and what the action it chooses does. Parsing
  the flags is the standard library's; the record holds their values. \<open>command_filters\<close> states which filters reach the
  decoder, \<open>aof_ignores_filters\<close> that the AOF file is the same with and without them.
\<close>

section \<open>Flags and options\<close>

record flags =
  fl_cmd :: bytes
  fl_output :: bytes
  fl_n :: int
  fl_port :: int
  fl_seps :: "bytes list"
  fl_regex :: bytes
  fl_noExpired :: bool
  fl_expiration :: bytes
  fl_size :: bytes
  fl_maxDepth :: int
  fl_concurrent :: int
  fl_globalMeta :: bool
  fl_prefixSeps :: "bytes list"
  fl_src :: bytes

definition separators_Set :: "bytes list \<Rightarrow> bytes \<Rightarrow> bytes list" where
  "separators_Set s v = s @ [v]"

definition main_options :: "flags \<Rightarrow> helper_option list" where
  "main_options fl =
     (if fl_regex fl \<noteq> [] then [WithRegexOption (fl_regex fl)] else []) @
     (if fl_noExpired fl then [WithNoExpiredOption] else []) @
     (if fl_concurrent fl \<noteq> 0 then [WithConcurrent (fl_concurrent fl)] else []) @
     (if fl_expiration fl \<noteq> [] then [WithExpirationOption (fl_expiration fl)] else []) @
     (if fl_size fl \<noteq> [] then [WithSizeOption (fl_size fl)] else []) @
     (if fl_globalMeta fl then [WithGlobalMeta] else [])"

text \<open>
  The variadic options are values of type \<open>interface{}\<close>: an option, or, where the slice itself is passed and not
  spread, a slice. The type switches of the helpers see options only.
\<close>

datatype any = Opt helper_option | Slice "helper_option list"

definition spread :: "helper_option list \<Rightarrow> any list" where
  "spread options = map Opt options"

definition recognised :: "any list \<Rightarrow> helper_option list" where
  "recognised vs = concat (map (\<lambda>v. case v of Opt o1 \<Rightarrow> [o1] | Slice os \<Rightarrow> []) vs)"

section \<open>Actions\<close>

datatype action =
    PrintHelp
  | PrintMissingSource
  | PrintUnknownCommand
  | CallToJsons bytes bytes "any list"
  | CallMemoryProfile bytes bytes "any list"
  | CallToAOF bytes bytes "any list"
  | CallFindBiggestKeys bytes int "any list"
  | CallFindHotKeys bytes int "any list"
  | CallSepPrefixAnalyse bytes int int "bytes list" "any list"
  | CallPrefixAnalyse bytes int int "any list"
  | CallFlameGraph bytes int "bytes list" "any list"

definition main_action :: "flags \<Rightarrow> action" where
  "main_action fl =
     (let src = fl_src fl; output = fl_output fl; options = main_options fl in
      if fl_cmd fl = [] then PrintHelp
      else if src = [] then PrintMissingSource
      else if fl_cmd fl = ascii ''json'' then CallToJsons src output (spread options)
      else if fl_cmd fl = ascii ''memory'' then CallMemoryProfile src output (spread options)
      else if fl_cmd fl = ascii ''aof'' then CallToAOF src output [Slice options]
      else if fl_cmd fl = ascii ''bigkey'' then CallFindBiggestKeys src (fl_n fl) (spread options)
      else if fl_cmd fl = ascii ''hotkey'' then CallFindHotKeys src (fl_n fl) (spread options)
      else if fl_cmd fl = ascii ''prefix'' then
        (if fl_prefixSeps fl \<noteq> []
         then CallSepPrefixAnalyse src (fl_n fl) (fl_maxDepth fl) (fl_prefixSeps fl) (spread options)
         else CallPrefixAnalyse src (fl_n fl) (fl_maxDepth fl) (spread options))
      else if fl_cmd fl = ascii ''flamegraph'' then CallFlameGraph src (fl_port fl) (fl_seps fl) (spread options)
      else PrintUnknownCommand)"

fun action_options :: "action \<Rightarrow> any list" where
  "action_options (CallToJsons src output os) = os"
| "action_options (CallMemoryProfile src output os) = os"
| "action_options (CallToAOF src output os) = os"
| "action_options (CallFindBiggestKeys src n os) = os"
| "action_options (CallFindHotKeys src n os) = os"
| "action_options (CallSepPrefixAnalyse src n d seps os) = os"
| "action_options (CallPrefixAnalyse src n d os) = os"
| "action_options (CallFlameGraph src port seps os) = os"
| "action_options _ = []"

section \<open>Runs\<close>

text \<open>
  What a run leaves behind: a message, a report on the output file or on standard output, an AOF file, the start of
  the JSON pipeline, or a flame graph served on a port. A file that could not be created is a nil file for the
  reports: their first write, which is that of the header, fails.
\<close>

datatype 'v outcome =
    Message string
  | Reported "unit result \<times> report"
  | Replayed "unit result \<times> bytes"
  | Piped "'v redis_object pipe result"
  | Served int "flame result"

definition on_output :: "bool \<Rightarrow> unit result \<times> report \<Rightarrow> unit result \<times> report" where
  "on_output created rr =
     (if created \<or> snd rr = [] then rr else (Err (ErrMsg ''write header failed''), []))"

definition output_created :: "'v env \<Rightarrow> flags \<Rightarrow> bool" where
  "output_created env fl \<longleftrightarrow> fl_output fl = [] \<or> env_create env (fl_output fl)"

record 'v world =
  w_env :: "'v env"
  w_cpus :: int
  w_formatFloat :: "f64 \<Rightarrow> bytes"
  w_faults :: "bytes \<Rightarrow> bytes \<Rightarrow> (nat \<times> go_error) option"
  w_range :: "prefixStats gomap \<Rightarrow> (bytes \<times> prefixStats) list"
  w_sort :: "sep_entry list \<Rightarrow> sep_entry list"

fun run_action :: "'v world \<Rightarrow> bool \<Rightarrow> action \<Rightarrow> 'v outcome" where
  "run_action w created PrintHelp = Message ''help''"
| "run_action w created PrintMissingSource = Message ''src file is required''"
| "run_action w created PrintUnknownCommand = Message ''unknown command''"
| "run_action w created (CallToJsons src output os) =
     Piped (ToJsons (w_cpus w) (w_env w) src output (recognised os))"
| "run_action w created (CallMemoryProfile src output os) =
     Reported (MemoryProfile (w_env w) src output (recognised os) [])"
| "run_action w created (CallToAOF src output os) =
     Replayed (ToAOF (w_faults w) (w_formatFloat w) (w_env w) src output (recognised os) [])"
| "run_action w created (CallFindBiggestKeys src n os) =
     Reported (on_output created (FindBiggestKeys (w_env w) src n (recognised os) []))"
| "run_action w created (CallFindHotKeys src n os) =
     Reported (on_output created (FindHotKeys (w_env w) src n (recognised os) []))"
| "run_action w created (CallSepPrefixAnalyse src n d seps os) =
     Reported (on_output created (SepPrefixAnalyse (w_range w) (w_sort w) (w_env w) src n d seps (recognised os) []))"
| "run_action w created (CallPrefixAnalyse src n d os) =
     Reported (on_output created (PrefixAnalyse (w_env w) src n d (recognised os) []))"
| "run_action w created (CallFlameGraph src port seps os) =
     Served (if port = 0 then 16379 else port) (FlameGraph (w_env w) src seps (recognised os))"

definition main :: "'v world \<Rightarrow> flags \<Rightarrow> 'v outcome" where
  "main w fl = run_action w (output_created (w_env w) fl) (main_action fl)"

section \<open>Which filters reach the decoder\<close>

lemma recognised_simps [simp]:
  "recognised (spread os) = os" "recognised [Slice os] = []" "recognised [] = []"
  by (simp_all add: recognised_def spread_def comp_def)

definition chosen_by :: "flags \<Rightarrow> chosen" where
  "chosen_by fl = \<lparr>regexOpt = (if fl_regex fl = [] then None else Some (fl_regex fl)),
     noExpiredOpt = fl_noExpired fl, expirationOpt = fl_expiration fl, sizeOpt = fl_size fl,
     globalMetaOpt = fl_globalMeta fl\<rparr>"

lemma main_options_chosen: "foldl pick_option no_option_set (main_options fl) = chosen_by fl"
  by (simp add: main_options_def chosen_by_def no_option_set_def WithRegexOption_def WithNoExpiredOption_def
      WithExpirationOption_def WithSizeOption_def WithGlobalMeta_def WithConcurrent_def)

lemma main_options_concurrency:
  "fl_concurrent fl \<noteq> 0 \<Longrightarrow> concurrency cpus (main_options fl) = fl_concurrent fl"
  "fl_concurrent fl = 0 \<Longrightarrow> concurrency cpus (main_options fl) = concurrency cpus []"
  by (simp_all add: main_options_def concurrency_def WithRegexOption_def WithNoExpiredOption_def
      WithExpirationOption_def WithSizeOption_def WithGlobalMeta_def WithConcurrent_def)

definition known_commands :: "bytes list" where
  "known_commands = map ascii [''json'', ''memory'', ''aof'', ''bigkey'', ''hotkey'', ''prefix'', ''flamegraph'']"

lemma known_options:
  assumes "fl_src fl \<noteq> []" and "fl_cmd fl \<in> set known_commands"
  shows "recognised (action_options (main_action fl)) = (if fl_cmd fl = ascii ''aof'' then [] else main_options fl)"
proof -
  have ne: "ascii c = [] \<longleftrightarrow> c = []" for c by (simp add: ascii_def)
  have "recognised (action_options (main_action fl)) = (if fl_cmd fl = ascii ''aof'' then [] else main_options fl)"
    if "fl_cmd fl = ascii c" "c \<in> set [''json'', ''memory'', ''aof'', ''bigkey'', ''hotkey'', ''prefix'', ''flamegraph'']" for c
    using that(2) assms(1)
    by (simp only: list.set insert_iff empty_iff) (elim disjE FalseE; simp add: main_action_def Let_def that(1) ascii_inj ne)
  then show ?thesis using assms(2) unfolding known_commands_def set_map by (elim imageE) blast
qed

lemma aof_ignores_filters:
  assumes "fl_cmd fl = ascii ''aof''"
  shows "main w (fl\<lparr>fl_regex := r, fl_noExpired := x, fl_expiration := e, fl_size := s, fl_globalMeta := m\<rparr>) = main w fl"
  using assms by (simp add: main_def main_action_def Let_def ascii_inj output_created_def)

text \<open>
  C13. The filters of the flags reach the decoder of every command but one: with a known command and a source, what the
  helpers choose from the options they are passed is what the flags say, and so is the number of marshallers, where
  one is given; but the command \<open>aof\<close> passes its options in a way that selects nothing.
\<close>

theorem command_filters:
  assumes "fl_src fl \<noteq> []"
    and "fl_cmd fl \<in> set known_commands"
  shows "let os = recognised (action_options (main_action fl)) in
    if fl_cmd fl = ascii ''aof'' then foldl pick_option no_option_set os = no_option_set
    else foldl pick_option no_option_set os = chosen_by fl \<and>
      concurrency cpus os = (if fl_concurrent fl = 0 then concurrency cpus [] else fl_concurrent fl)"
  by (simp add: known_options [OF assms] Let_def main_options_chosen main_options_concurrency foldl_Nil)

definition sample_flags :: flags where
  "sample_flags = \<lparr>fl_cmd = ascii ''json'', fl_output = [97], fl_n = 0, fl_port = 0, fl_seps = [], fl_regex = ascii ''a.*'',
     fl_noExpired = False, fl_expiration = [], fl_size = [], fl_maxDepth = 0, fl_concurrent = 3, fl_globalMeta = True,
     fl_prefixSeps = [], fl_src = [102]\<rparr>"

theorem command_filters_witness:
  "foldl pick_option no_option_set (recognised (action_options (main_action sample_flags))) =
      \<lparr>regexOpt = Some (ascii ''a.*''), noExpiredOpt = False, expirationOpt = [], sizeOpt = [], globalMetaOpt = True\<rparr> \<and>
    concurrency 8 (recognised (action_options (main_action sample_flags))) = 3 \<and>
    foldl pick_option no_option_set
      (recognised (action_options (main_action (sample_flags\<lparr>fl_cmd := ascii ''aof''\<rparr>)))) = no_option_set"
  using command_filters [of sample_flags 8] command_filters [of "sample_flags\<lparr>fl_cmd := ascii ''aof''\<rparr>" 8]
  by (simp add: sample_flags_def chosen_by_def ascii_inj Let_def known_commands_def ascii_def)

end
